(* ===== verification/Prelude.thy ===== *)
theory Prelude
  imports Main "HOL-Library.AList"
begin

text \<open>
  Shared vocabulary of the development: the errors the Python code raises, as values; the
  types that name its data; the collection of simplification rules for dictionaries; and
  generic lemmas on lists and association lists.
\<close>

section \<open>Types and errors\<close>

text \<open>A block is named by its content hash, a Python integer.\<close>

type_synonym hash_id = int

text \<open>
  The exceptions of the modelled code. Their texts are for a human reader and are left out;
  the class of the exception is what a caller can act on.
\<close>

datatype py_error =
    ValueError
  | KeyError
  | IndexError
  | FileNotFoundError
  | AttributeError
  | TypeError
  | ZeroDivisionError
  | StopIteration
  | OverflowError
  | RuntimeError
  | AssertionError
  | ClientError
  | SystemExit

type_synonym 'a result = "py_error + 'a"

text \<open>Sequencing of fallible steps: an exception skips the rest.\<close>

fun bind_result :: "'a result \<Rightarrow> ('a \<Rightarrow> 'b result) \<Rightarrow> 'b result" where
  "bind_result (Inl e) f = Inl e"
| "bind_result (Inr x) f = f x"

lemma bind_result_Inr_iff:
  "bind_result r f = Inr y \<longleftrightarrow> (\<exists>x. r = Inr x \<and> f x = Inr y)"
  by (cases r) auto

text \<open>\<^verbatim>\<open>xs[:n]\<close>: a negative \<^verbatim>\<open>n\<close> counts from the end.\<close>

definition py_take :: "int \<Rightarrow> 'a list \<Rightarrow> 'a list" where
  "py_take n xs = take (nat (if n < 0 then int (length xs) + n else n)) xs"

section \<open>Rule collections\<close>

named_theorems od_simps \<open>equations of the insertion-ordered dictionary\<close>

section \<open>Lists and association lists\<close>

lemma map_fst_delete [od_simps]:
  "map fst (AList.delete k d) = filter (\<lambda>x. x \<noteq> k) (map fst d)"
  by (induction d) (auto simp: AList.delete_eq)

lemma map_fst_update [od_simps]:
  "map fst (AList.update k v d) =
     (if k \<in> set (map fst d) then map fst d else map fst d @ [k])"
  by (induction d) auto

lemma length_delete_less:
  "k \<in> set (map fst d) \<Longrightarrow> length (AList.delete k d) < length d"
  by (auto simp: AList.delete_eq intro!: length_filter_less)

lemma set_drop_take_union: "set (drop n xs) \<union> set (take n xs) = set xs"
  by (metis append_take_drop_id set_append sup_commute)

lemma set_drop_take_disjoint: "distinct xs \<Longrightarrow> set (drop n xs) \<inter> set (take n xs) = {}"
  by (metis distinct_append append_take_drop_id inf_commute)

lemma card_set_map_fst: "distinct (map fst d) \<Longrightarrow> card (fst ` set d) = length d"
  by (metis distinct_card length_map list.set_map)

lemma foldl_invariant:
  assumes "P s" and "\<And>s x. P s \<Longrightarrow> x \<in> set xs \<Longrightarrow> P (f s x)"
  shows "P (foldl f s xs)"
  using assms by (induction xs arbitrary: s) auto

end
