(* ===== verification/Ordered_Dict.thy ===== *)
theory Ordered_Dict
  imports Prelude
begin

text \<open>
  The insertion-ordered dictionaries of Python (\<^verbatim>\<open>dict\<close> and
  \<^verbatim>\<open>collections.OrderedDict\<close>) as association lists, oldest entry first, with distinct keys.
  Storing under a present key keeps its place (\<^const>\<open>AList.update\<close>), a new key goes to the
  end, \<^verbatim>\<open>popitem(last=False)\<close> takes the head.
\<close>

type_synonym ('k, 'v) odict = "('k \<times> 'v) list"

abbreviation od_keys :: "('k, 'v) odict \<Rightarrow> 'k list" where
  "od_keys d \<equiv> map fst d"

abbreviation od_ok :: "('k, 'v) odict \<Rightarrow> bool" where
  "od_ok d \<equiv> distinct (map fst d)"

text \<open>\<^verbatim>\<open>k in d\<close>, \<^verbatim>\<open>d[k] = v\<close>, \<^verbatim>\<open>d.pop(k, default)\<close> and \<^verbatim>\<open>d.move_to_end(k)\<close>.\<close>

definition od_contains :: "'k \<Rightarrow> ('k, 'v) odict \<Rightarrow> bool" where
  "od_contains k d \<longleftrightarrow> k \<in> set (map fst d)"

definition od_set :: "'k \<Rightarrow> 'v \<Rightarrow> ('k, 'v) odict \<Rightarrow> ('k, 'v) odict" where
  "od_set k v d = AList.update k v d"

definition od_pop :: "'k \<Rightarrow> ('k, 'v) odict \<Rightarrow> ('k, 'v) odict" where
  "od_pop k d = AList.delete k d"

text \<open>
  \<^verbatim>\<open>move_to_end\<close> raises \<^verbatim>\<open>KeyError\<close> on a missing key. Every call in the modelled code
  comes right after a membership test or a store of the same key, so the missing case is
  the identity here and never reached.
\<close>

definition od_move_to_end :: "'k \<Rightarrow> ('k, 'v) odict \<Rightarrow> ('k, 'v) odict" where
  "od_move_to_end k d =
     (case map_of d k of None \<Rightarrow> d | Some v \<Rightarrow> AList.delete k d @ [(k, v)])"

text \<open>
  The loop \<^verbatim>\<open>while len(d) > cap: d.popitem(last=False)\<close>, with the keys it pops in order.
\<close>

fun od_trim :: "nat \<Rightarrow> ('k, 'v) odict \<Rightarrow> ('k, 'v) odict \<times> 'k list" where
  "od_trim cap [] = ([], [])"
| "od_trim cap (p # d) =
     (if length (p # d) > cap
      then (let (d', popped) = od_trim cap d in (d', fst p # popped))
      else (p # d, []))"

text \<open>The set of keys, the abstraction the proofs work with.\<close>

definition od_dom :: "('k, 'v) odict \<Rightarrow> 'k set" where
  "od_dom d = set (map fst d)"

section \<open>Equations\<close>

lemma od_trim_eq:
  "od_trim cap d = (drop (length d - cap) d, map fst (take (length d - cap) d))"
  by (induction d) (auto simp: Suc_diff_le)

lemma od_dom_Nil [simp]: "od_dom [] = {}"
  by (simp add: od_dom_def)

lemma od_dom_Cons [simp]: "od_dom (p # d) = insert (fst p) (od_dom d)"
  by (simp add: od_dom_def)

lemma od_dom_append [simp]: "od_dom (d @ e) = od_dom d \<union> od_dom e"
  by (auto simp: od_dom_def)

lemma set_od_keys: "fst ` set d = od_dom d"
  by (simp add: od_dom_def)

lemma finite_od_dom [simp]: "finite (od_dom d)"
  by (simp add: od_dom_def)

lemma card_od_dom: "od_ok d \<Longrightarrow> card (od_dom d) = length d"
  by (metis distinct_card length_map od_dom_def)

lemma map_of_od_dom: "map_of d k = None \<longleftrightarrow> k \<notin> od_dom d"
  by (simp add: map_of_eq_None_iff od_dom_def)

lemma od_dom_map_of: "od_dom d = dom (map_of d)"
  by (simp add: dom_def map_of_od_dom)

lemma od_contains_iff [simp]: "od_contains k d \<longleftrightarrow> k \<in> od_dom d"
  by (simp add: od_contains_def od_dom_def)

lemma od_keys_set [od_simps]:
  "map fst (od_set k v d) = (if k \<in> od_dom d then map fst d else map fst d @ [k])"
  by (simp add: od_set_def map_fst_update od_dom_def)

lemma od_keys_pop [od_simps]: "map fst (od_pop k d) = filter (\<lambda>x. x \<noteq> k) (map fst d)"
  by (simp add: od_pop_def map_fst_delete)

lemma od_keys_move [od_simps]:
  "map fst (od_move_to_end k d) =
     (if k \<in> od_dom d then filter (\<lambda>x. x \<noteq> k) (map fst d) @ [k] else map fst d)"
  using map_of_od_dom [of d k]
  by (cases "map_of d k") (auto simp: od_move_to_end_def map_fst_delete)

lemma od_dom_set [simp]: "od_dom (od_set k v d) = insert k (od_dom d)"
  unfolding od_dom_def [of "od_set k v d"] od_keys_set by (auto simp: od_dom_def)

lemma od_dom_pop [simp]: "od_dom (od_pop k d) = od_dom d - {k}"
  unfolding od_dom_def [of "od_pop k d"] od_keys_pop set_filter by (auto simp: od_dom_def)

lemma od_dom_move [simp]: "od_dom (od_move_to_end k d) = od_dom d"
  unfolding od_dom_def [of "od_move_to_end k d"] od_keys_move
  by (auto simp: od_dom_def)

lemma od_ok_set: "od_ok d \<Longrightarrow> od_ok (od_set k v d)"
  by (simp add: od_keys_set od_dom_def)

lemma od_ok_pop: "od_ok d \<Longrightarrow> od_ok (od_pop k d)"
  by (simp add: od_keys_pop)

lemma od_ok_move: "od_ok d \<Longrightarrow> od_ok (od_move_to_end k d)"
  by (simp add: od_keys_move)

lemmas od_ok_intros [intro] = od_ok_set od_ok_pop od_ok_move

lemma length_od_set:
  "length (od_set k v d) = (if k \<in> od_dom d then length d else Suc (length d))"
  using arg_cong [OF od_keys_set, of length k v d] by (simp split: if_splits)

lemma length_od_pop_le: "length (od_pop k d) \<le> length d"
  by (simp add: od_pop_def AList.delete_eq)

lemma length_od_move [simp]: "od_ok d \<Longrightarrow> length (od_move_to_end k d) = length d"
  by (metis card_od_dom od_ok_move od_dom_move)

declare set_od_keys [simp]

lemma od_trim_sets:
  assumes "od_trim cap d = (d', popped)"
  shows "od_dom d' \<union> set popped = od_dom d"
    and "od_ok d \<Longrightarrow> od_dom d' \<inter> set popped = {}"
    and "od_ok d \<Longrightarrow> od_ok d'"
    and "length d' = min cap (length d)"
    and "length popped = length d - cap"
proof -
  have d': "d' = drop (length d - cap) d" and p: "popped = take (length d - cap) (map fst d)"
    using assms by (auto simp: od_trim_eq take_map)
  have k': "od_dom d' = set (drop (length d - cap) (map fst d))"
    unfolding d' od_dom_def by (simp only: drop_map)
  show "od_dom d' \<union> set popped = od_dom d"
    unfolding k' p od_dom_def [of d] by (rule set_drop_take_union)
  show "od_ok d \<Longrightarrow> od_dom d' \<inter> set popped = {}"
    unfolding k' p by (rule set_drop_take_disjoint)
  show "od_ok d \<Longrightarrow> od_ok d'"
    by (simp add: d' drop_map [symmetric])
  show "length d' = min cap (length d)" and "length popped = length d - cap"
    by (auto simp: d' p)
qed

lemma od_set_fresh: "k \<notin> od_dom d \<Longrightarrow> od_set k v d = d @ [(k, v)]"
  unfolding od_set_def by (induction d) auto

lemma od_pop_fresh: "k \<notin> od_dom d \<Longrightarrow> od_pop k d = d"
  unfolding od_pop_def by (induction d) auto

lemma od_move_set_fresh:
  assumes "k \<notin> od_dom d"
  shows "od_move_to_end k (od_set k v d) = d @ [(k, v)]"
proof -
  have "map_of d k = None" using assms map_of_od_dom [of d k] by auto
  moreover have "AList.delete k (d @ [(k, v)]) = d"
    using od_pop_fresh [OF assms] by (simp add: od_pop_def AList.delete_eq)
  ultimately show ?thesis by (simp add: od_move_to_end_def od_set_fresh [OF assms] map_add_def)
qed

lemma map_of_od_set [simp]: "map_of (od_set k v d) = (map_of d)(k \<mapsto> v)"
  by (simp add: od_set_def update_conv')

lemma map_of_od_pop: "map_of (od_pop k d) = (map_of d)(k := None)"
  unfolding od_pop_def by (simp add: delete_conv')

end
