(* ===== verification/Offloading_Spec.thy ===== *)
theory Offloading_Spec
  imports Ordered_Dict "HOL-Library.Multiset"
begin

text \<open>
  The S3-FIFO policy that \<^verbatim>\<open>python/vllm_adapter/offloading_spec.py\<close> plugs into the CPU offloading
  tier of vLLM. Keys and block descriptors are vLLM's and stay abstract; of a descriptor the
  policy reads the reference count, a parameter of \<open>offload_insert\<close>.
\<close>

section \<open>Model\<close>

definition FREQ_CAP :: nat where
  "FREQ_CAP = 3"

text \<open>
  The queues are ordered dictionaries whose values are all \<^verbatim>\<open>None\<close>. For the ghost queue the value
  matters, because \<^verbatim>\<open>insert\<close> looks at what \<^verbatim>\<open>pop\<close> returns.
\<close>

record ('k, 'b) offload_policy =
  of_small_budget :: nat
  of_ghost_capacity :: nat
  of_blocks :: "('k, 'b) odict"
  of_small :: "('k, unit) odict"
  of_main :: "('k, unit) odict"
  of_freq :: "('k, nat) odict"
  of_evictable :: "'k set"
  of_ghost :: "('k, unit option) odict"

definition offload_init :: "int \<Rightarrow> ('k, 'b) offload_policy" where
  "offload_init cache_capacity =
     \<lparr>of_small_budget = nat (max 1 (cache_capacity div 10)),
      of_ghost_capacity = nat (max 1 (2 * cache_capacity)),
      of_blocks = [], of_small = [], of_main = [], of_freq = [], of_evictable = {}, of_ghost = []\<rparr>"

definition offload_get :: "'k \<Rightarrow> ('k, 'b) offload_policy \<Rightarrow> 'b option" where
  "offload_get key p = map_of (of_blocks p) key"

text \<open>\<^verbatim>\<open>d.pop(key, None)\<close> on a dictionary whose values may themselves be \<^verbatim>\<open>None\<close>: the returned value.\<close>

definition pop_value :: "'k \<Rightarrow> ('k, 'v option) odict \<Rightarrow> 'v option" where
  "pop_value key d = (case map_of d key of None \<Rightarrow> None | Some v \<Rightarrow> v)"

definition offload_insert ::
  "('b \<Rightarrow> int) \<Rightarrow> 'k \<Rightarrow> 'b \<Rightarrow> ('k, 'b) offload_policy \<Rightarrow> ('k, 'b) offload_policy" where
  "offload_insert ref_cnt key block p =
     (let p1 = p\<lparr>of_blocks := od_set key block (of_blocks p), of_freq := od_set key 0 (of_freq p)\<rparr>;
          popped = pop_value key (of_ghost p1);
          p2 = p1\<lparr>of_ghost := od_pop key (of_ghost p1)\<rparr>;
          p3 = (if popped \<noteq> None then p2\<lparr>of_main := od_set key () (of_main p2)\<rparr>
                else p2\<lparr>of_small := od_set key () (of_small p2)\<rparr>)
      in if ref_cnt block = 0 then p3\<lparr>of_evictable := insert key (of_evictable p3)\<rparr> else p3)"

definition offload_remove :: "'k \<Rightarrow> ('k, 'b) offload_policy \<Rightarrow> ('k, 'b) offload_policy result" where
  "offload_remove key p =
     (if \<not> od_contains key (of_blocks p) then Inl KeyError
      else Inr (p\<lparr>of_blocks := od_pop key (of_blocks p), of_freq := od_pop key (of_freq p),
                  of_small := od_pop key (of_small p), of_main := od_pop key (of_main p),
                  of_evictable := of_evictable p - {key}\<rparr>))"

definition touch_key :: "('k, 'b) offload_policy \<Rightarrow> 'k \<Rightarrow> ('k, 'b) offload_policy" where
  "touch_key p key =
     (case map_of (of_freq p) key of
        None \<Rightarrow> p
      | Some f \<Rightarrow> p\<lparr>of_freq := od_set key (min (f + 1) FREQ_CAP) (of_freq p)\<rparr>)"

definition offload_touch :: "'k list \<Rightarrow> ('k, 'b) offload_policy \<Rightarrow> ('k, 'b) offload_policy" where
  "offload_touch keys p = foldl touch_key p keys"

definition offload_clear :: "('k, 'b) offload_policy \<Rightarrow> ('k, 'b) offload_policy" where
  "offload_clear p =
     p\<lparr>of_blocks := [], of_small := [], of_main := [], of_freq := [], of_evictable := {}, of_ghost := []\<rparr>"

definition freq_of :: "'k \<Rightarrow> ('k, 'b) offload_policy \<Rightarrow> nat" where
  "freq_of key p = (case map_of (of_freq p) key of None \<Rightarrow> 0 | Some f \<Rightarrow> f)"

text \<open>
  The loop of \<^verbatim>\<open>evict\<close>. Every round takes a key out of a queue for good, or puts it (back) into the
  main queue with a lower frequency.
\<close>

lemma sum_od_set_less:
  "map_of d k = Some f \<Longrightarrow> v < f \<Longrightarrow> sum_list (map snd (od_set k v d)) < sum_list (map snd (d :: ('k, nat) odict))"
  unfolding od_set_def by (induction d) (auto split: if_splits)

lemma freq_of_pos: "0 < freq_of key p \<Longrightarrow> map_of (of_freq p) key = Some (freq_of key p)"
  by (auto simp: freq_of_def split: option.splits)

definition evict_measure :: "('k, 'b) offload_policy \<Rightarrow> nat" where
  "evict_measure p = 2 * length (of_small p) + length (of_main p) + sum_list (map snd (of_freq p))"

lemma evict_measure_promote:
  assumes "of_small p = (key, u) # rest" "0 < freq_of key p"
  shows "evict_measure (p\<lparr>of_small := rest, of_freq := od_set key 0 (of_freq p),
    of_main := od_set key () (of_main p)\<rparr>) < evict_measure p"
  using assms sum_od_set_less [OF freq_of_pos [OF assms(2)], of 0] length_od_set [of key "()" "of_main p"]
  by (auto simp: evict_measure_def split: if_splits)

lemma evict_measure_requeue:
  assumes "of_main p = (key, u) # rest" "0 < freq_of key p"
  shows "evict_measure (p\<lparr>of_main := od_set key () rest, of_freq := od_set key (freq_of key p - 1) (of_freq p)\<rparr>)
    < evict_measure p"
  using assms sum_od_set_less [OF freq_of_pos [OF assms(2)], of "freq_of key p - 1"] length_od_set [of key "()" rest]
  by (auto simp: evict_measure_def split: if_splits)

lemma evict_measure_drop:
  "of_small p = x # rest \<Longrightarrow> evict_measure (p\<lparr>of_small := rest\<rparr>) < evict_measure p"
  "of_main p = x # rest \<Longrightarrow> evict_measure (p\<lparr>of_main := rest\<rparr>) < evict_measure p"
  by (simp_all add: evict_measure_def)

function evict_loop ::
  "int \<Rightarrow> 'k set \<Rightarrow> ('k, 'b) offload_policy \<Rightarrow> ('k \<times> bool) list \<Rightarrow> 'k list \<Rightarrow> 'k list
     \<Rightarrow> ('k, 'b) offload_policy \<times> ('k \<times> bool) list \<times> 'k list \<times> 'k list" where
  "evict_loop n protected p victims skipped_small skipped_main =
     (if int (length victims) < n
      then
        (if of_small_budget p < length (of_small p) \<and> of_small p \<noteq> [] \<or> of_main p = []
         then
           (case of_small p of
              [] \<Rightarrow> (p, victims, skipped_small, skipped_main)
            | (key, _) # rest \<Rightarrow>
                if 0 < freq_of key p
                then evict_loop n protected
                       (p\<lparr>of_small := rest, of_freq := od_set key 0 (of_freq p),
                          of_main := od_set key () (of_main p)\<rparr>)
                       victims skipped_small skipped_main
                else if key \<in> protected \<or> key \<notin> of_evictable p
                then evict_loop n protected (p\<lparr>of_small := rest\<rparr>) victims (skipped_small @ [key]) skipped_main
                else evict_loop n protected (p\<lparr>of_small := rest\<rparr>) (victims @ [(key, True)])
                       skipped_small skipped_main)
         else
           (case of_main p of
              [] \<Rightarrow> (p, victims, skipped_small, skipped_main)
            | (key, _) # rest \<Rightarrow>
                if 0 < freq_of key p
                then evict_loop n protected
                       (p\<lparr>of_main := od_set key () rest,
                          of_freq := od_set key (freq_of key p - 1) (of_freq p)\<rparr>)
                       victims skipped_small skipped_main
                else if key \<in> protected \<or> key \<notin> of_evictable p
                then evict_loop n protected (p\<lparr>of_main := rest\<rparr>) victims skipped_small (skipped_main @ [key])
                else evict_loop n protected (p\<lparr>of_main := rest\<rparr>) (victims @ [(key, False)])
                       skipped_small skipped_main))
      else (p, victims, skipped_small, skipped_main))"
  by pat_completeness auto
termination
  by (relation "measure (\<lambda>(n, protected, p, rest). evict_measure p)")
    (auto simp: evict_measure_promote evict_measure_requeue [simplified] evict_measure_drop)

declare evict_loop.simps [simp del]

text \<open>\<^verbatim>\<open>OrderedDict([(k, None) for k in keys] + list(d.items()))\<close>.\<close>

definition restore_front :: "'k list \<Rightarrow> ('k, unit) odict \<Rightarrow> ('k, unit) odict" where
  "restore_front keys d = foldl (\<lambda>acc k. od_set k () acc) [] (keys @ map fst d)"

definition ghost_insert :: "'k \<Rightarrow> ('k, 'b) offload_policy \<Rightarrow> ('k, 'b) offload_policy" where
  "ghost_insert key p =
     p\<lparr>of_ghost := fst (od_trim (of_ghost_capacity p) (od_move_to_end key (od_set key None (of_ghost p))))\<rparr>"

text \<open>The last loop of \<^verbatim>\<open>evict\<close>; \<^verbatim>\<open>self.blocks.pop(key)\<close> raises for a key without a block.\<close>

fun take_victims ::
  "('k \<times> bool) list \<Rightarrow> ('k, 'b) offload_policy \<Rightarrow> (('k \<times> 'b) list \<times> ('k, 'b) offload_policy) result" where
  "take_victims [] p = Inr ([], p)"
| "take_victims ((key, from_small) # vs) p =
     (case map_of (of_blocks p) key of
        None \<Rightarrow> Inl KeyError
      | Some b \<Rightarrow>
          (let p1 = p\<lparr>of_blocks := od_pop key (of_blocks p), of_freq := od_pop key (of_freq p),
                      of_evictable := of_evictable p - {key}\<rparr>;
               p2 = (if from_small then ghost_insert key p1 else p1)
           in bind_result (take_victims vs p2) (\<lambda>(res, p3). Inr ((key, b) # res, p3))))"

definition offload_evict ::
  "int \<Rightarrow> 'k set \<Rightarrow> ('k, 'b) offload_policy
     \<Rightarrow> (('k \<times> 'b) list option \<times> ('k, 'b) offload_policy) result" where
  "offload_evict n protected p =
     (if n = 0 then Inr (Some [], p)
      else
        (let (p1, victims, skipped_small, skipped_main) = evict_loop n protected p [] [] [];
             succeeded = (int (length victims) = n);
             restore_small = skipped_small @ (if succeeded then [] else map fst (filter snd victims));
             restore_main = skipped_main @ (if succeeded then [] else map fst (filter (Not \<circ> snd) victims));
             p2 = (if restore_small \<noteq> [] then p1\<lparr>of_small := restore_front restore_small (of_small p1)\<rparr> else p1);
             p3 = (if restore_main \<noteq> [] then p2\<lparr>of_main := restore_front restore_main (of_main p2)\<rparr> else p2)
         in if \<not> succeeded then Inr (None, p3)
            else bind_result (take_victims victims p3) (\<lambda>(res, p4). Inr (Some res, p4))))"

definition offload_mark_evictable :: "'k \<Rightarrow> ('k, 'b) offload_policy \<Rightarrow> ('k, 'b) offload_policy" where
  "offload_mark_evictable key p = p\<lparr>of_evictable := insert key (of_evictable p)\<rparr>"

definition offload_mark_non_evictable :: "'k \<Rightarrow> ('k, 'b) offload_policy \<Rightarrow> ('k, 'b) offload_policy" where
  "offload_mark_non_evictable key p = p\<lparr>of_evictable := of_evictable p - {key}\<rparr>"

text \<open>
  The two specs that select the policy. The constructors of vLLM's own specs and the values of its table of
  policies are arguments; \<open>cls\<close> stands for the class \<^verbatim>\<open>S3FIFOCachePolicy\<close> as an entry of that table.
\<close>

record 's selected_spec =
  spec_base :: 's
  spec_eviction_policy :: string

definition od_setdefault :: "'k \<Rightarrow> 'v \<Rightarrow> ('k, 'v) odict \<Rightarrow> ('k, 'v) odict" where
  "od_setdefault key v d = (if od_contains key d then d else od_set key v d)"

definition S3FIFOOffloadingSpec_init ::
  "('cfg \<Rightarrow> 's result) \<Rightarrow> 'c \<Rightarrow> 'cfg \<Rightarrow> (string, 'c) odict \<Rightarrow> ('s selected_spec \<times> (string, 'c) odict) result" where
  "S3FIFOOffloadingSpec_init cpu_spec cls config registry =
     bind_result (cpu_spec config) (\<lambda>base.
       Inr (\<lparr>spec_base = base, spec_eviction_policy = ''s3fifo''\<rparr>, od_setdefault ''s3fifo'' cls registry))"

definition S3FIFOTieringOffloadingSpec_init ::
  "('cfg \<Rightarrow> 's result) \<Rightarrow> 'c \<Rightarrow> 'cfg \<Rightarrow> (string, 'c) odict \<Rightarrow> ('s selected_spec \<times> (string, 'c) odict) result" where
  "S3FIFOTieringOffloadingSpec_init tiering_spec cls config registry =
     bind_result (tiering_spec config) (\<lambda>base.
       Inr (\<lparr>spec_base = base, spec_eviction_policy = ''s3fifo''\<rparr>, od_setdefault ''s3fifo'' cls registry))"

section \<open>Invariant\<close>

text \<open>
  Every block is in exactly one of the two queues and has a frequency of at most 3; the ghost
  queue is bounded and names no block that is present.
\<close>

definition offload_invar :: "('k, 'b) offload_policy \<Rightarrow> bool" where
  "offload_invar p \<longleftrightarrow>
     distinct (od_keys (of_small p) @ od_keys (of_main p))
     \<and> od_ok (of_blocks p) \<and> od_ok (of_freq p) \<and> od_ok (of_ghost p)
     \<and> od_dom (of_blocks p) = od_dom (of_small p) \<union> od_dom (of_main p)
     \<and> od_dom (of_freq p) = od_dom (of_blocks p)
     \<and> od_dom (of_ghost p) \<inter> od_dom (of_blocks p) = {}
     \<and> length (of_ghost p) \<le> of_ghost_capacity p
     \<and> (\<forall>q \<in> set (of_ghost p). snd q = None)
     \<and> (\<forall>q \<in> set (of_freq p). snd q \<le> FREQ_CAP)"

lemma offload_init_invar: "offload_invar (offload_init c)"
  by (simp add: offload_invar_def offload_init_def)

lemma values_od_set: "q \<in> set (od_set k v d) \<Longrightarrow> q = (k, v) \<or> q \<in> set d"
  unfolding od_set_def by (induction d) (auto split: if_splits)

lemma values_od_pop: "q \<in> set (od_pop k d) \<Longrightarrow> q \<in> set d"
  unfolding od_pop_def by (induction d) (auto split: if_splits)

lemma values_od_move: "q \<in> set (od_move_to_end k d) \<Longrightarrow> q \<in> set d"
  by (auto simp: od_move_to_end_def AList.delete_eq split: option.splits dest: map_of_SomeD)

lemma pop_value_None:
  assumes "\<forall>q \<in> set d. snd q = None"
  shows "pop_value k d = None"
  using assms by (auto simp: pop_value_def split: option.splits dest!: map_of_SomeD)

section \<open>The eviction loop\<close>

definition queue_keys ::
  "('k, 'b) offload_policy \<Rightarrow> ('k \<times> bool) list \<Rightarrow> 'k list \<Rightarrow> 'k list \<Rightarrow> 'k list" where
  "queue_keys p vs ss sm = od_keys (of_small p) @ od_keys (of_main p) @ map fst vs @ ss @ sm"

text \<open>
  What holds at every round, relative to the state \<open>p0\<close> at the start: all keys are in a queue or in
  one of the lists, once; the victims may be evicted, the skipped keys may not.
\<close>

definition evict_state ::
  "int \<Rightarrow> 'k set \<Rightarrow> ('k, 'b) offload_policy \<Rightarrow> ('k, 'b) offload_policy \<Rightarrow> ('k \<times> bool) list \<Rightarrow> 'k list
     \<Rightarrow> 'k list \<Rightarrow> bool" where
  "evict_state n prot p0 p vs ss sm \<longleftrightarrow>
     distinct (queue_keys p vs ss sm) \<and> set (queue_keys p vs ss sm) = od_dom (of_blocks p0)
     \<and> (\<forall>k \<in> od_dom vs. k \<notin> prot \<and> k \<in> of_evictable p0)
     \<and> (\<forall>k \<in> set (ss @ sm). k \<in> prot \<or> k \<notin> of_evictable p0)
     \<and> int (length vs) \<le> n
     \<and> of_blocks p = of_blocks p0 \<and> of_evictable p = of_evictable p0 \<and> of_ghost p = of_ghost p0
     \<and> of_ghost_capacity p = of_ghost_capacity p0 \<and> of_small_budget p = of_small_budget p0
     \<and> od_ok (of_freq p) \<and> od_dom (of_freq p) = od_dom (of_freq p0)
     \<and> (\<forall>q \<in> set (of_freq p). snd q \<le> FREQ_CAP)"

lemma evict_state_start:
  "offload_invar p \<Longrightarrow> 0 \<le> n \<Longrightarrow> evict_state n prot p p [] [] []"
  by (auto simp: evict_state_def offload_invar_def queue_keys_def)

lemma evict_state_promote:
  assumes "evict_state n prot p0 p vs ss sm" "of_small p = (key, ()) # rest" "0 < freq_of key p"
  shows "evict_state n prot p0 (p\<lparr>of_small := rest, of_freq := od_set key 0 (of_freq p),
    of_main := od_set key () (of_main p)\<rparr>) vs ss sm"
proof -
  have "key \<notin> od_dom (of_main p)" using assms(1,2) by (auto simp: evict_state_def queue_keys_def)
  then have m: "od_set key () (of_main p) = of_main p @ [(key, ())]" by (rule od_set_fresh)
  have "key \<in> od_dom (of_freq p)" using freq_of_pos [OF assms(3)] by (metis map_of_od_dom option.distinct(1))
  with assms(1,2) show ?thesis
    by (auto simp: evict_state_def queue_keys_def m od_ok_set dest!: values_od_set)
qed

lemma evict_state_requeue:
  assumes "evict_state n prot p0 p vs ss sm" "of_main p = (key, ()) # rest" "0 < freq_of key p"
  shows "evict_state n prot p0 (p\<lparr>of_main := od_set key () rest,
    of_freq := od_set key (freq_of key p - 1) (of_freq p)\<rparr>) vs ss sm"
proof -
  have "key \<notin> od_dom rest" using assms(1,2) by (auto simp: evict_state_def queue_keys_def)
  then have m: "od_set key () rest = rest @ [(key, ())]" by (rule od_set_fresh)
  note f = freq_of_pos [OF assms(3)]
  have "key \<in> od_dom (of_freq p)" using f by (metis map_of_od_dom option.distinct(1))
  moreover have "freq_of key p \<le> FREQ_CAP" using map_of_SomeD [OF f] assms(1) by (fastforce simp: evict_state_def)
  ultimately show ?thesis using assms(1,2)
    by (auto simp: evict_state_def queue_keys_def m od_ok_set dest!: values_od_set)
qed

lemma evict_state_small:
  assumes "evict_state n prot p0 p vs ss sm" "of_small p = (key, ()) # rest"
  shows "key \<in> prot \<or> key \<notin> of_evictable p \<Longrightarrow> evict_state n prot p0 (p\<lparr>of_small := rest\<rparr>) vs (ss @ [key]) sm"
    and "int (length vs) < n \<Longrightarrow> \<not> (key \<in> prot \<or> key \<notin> of_evictable p) \<Longrightarrow>
      evict_state n prot p0 (p\<lparr>of_small := rest\<rparr>) (vs @ [(key, True)]) ss sm"
  using assms by (auto simp: evict_state_def queue_keys_def)

lemma evict_state_main:
  assumes "evict_state n prot p0 p vs ss sm" "of_main p = (key, ()) # rest"
  shows "key \<in> prot \<or> key \<notin> of_evictable p \<Longrightarrow> evict_state n prot p0 (p\<lparr>of_main := rest\<rparr>) vs ss (sm @ [key])"
    and "int (length vs) < n \<Longrightarrow> \<not> (key \<in> prot \<or> key \<notin> of_evictable p) \<Longrightarrow>
      evict_state n prot p0 (p\<lparr>of_main := rest\<rparr>) (vs @ [(key, False)]) ss sm"
  using assms by (auto simp: evict_state_def queue_keys_def)

lemma evict_loop_small:
  assumes "int (length vs) < n" "of_small_budget p < length (of_small p) \<or> of_main p = []"
    and "of_small p = (key, ()) # rest"
  shows "evict_loop n prot p vs ss sm =
    (if 0 < freq_of key p
     then evict_loop n prot (p\<lparr>of_small := rest, of_freq := od_set key 0 (of_freq p),
            of_main := od_set key () (of_main p)\<rparr>) vs ss sm
     else if key \<in> prot \<or> key \<notin> of_evictable p
     then evict_loop n prot (p\<lparr>of_small := rest\<rparr>) vs (ss @ [key]) sm
     else evict_loop n prot (p\<lparr>of_small := rest\<rparr>) (vs @ [(key, True)]) ss sm)"
  by (subst evict_loop.simps) (use assms in simp)

lemma evict_loop_main:
  assumes "int (length vs) < n" "\<not> (of_small_budget p < length (of_small p) \<or> of_main p = [])"
    and "of_main p = (key, ()) # rest"
  shows "evict_loop n prot p vs ss sm =
    (if 0 < freq_of key p
     then evict_loop n prot (p\<lparr>of_main := od_set key () rest,
            of_freq := od_set key (freq_of key p - 1) (of_freq p)\<rparr>) vs ss sm
     else if key \<in> prot \<or> key \<notin> of_evictable p
     then evict_loop n prot (p\<lparr>of_main := rest\<rparr>) vs ss (sm @ [key])
     else evict_loop n prot (p\<lparr>of_main := rest\<rparr>) (vs @ [(key, False)]) ss sm)"
  by (subst evict_loop.simps) (use assms in simp)

text \<open>One round: the loop is done, or goes on from a smaller state that is still in order.\<close>

lemma evict_loop_round:
  assumes "evict_state n prot p0 p vs ss sm"
  shows "evict_loop n prot p vs ss sm = (p, vs, ss, sm) \<and> (int (length vs) < n \<longrightarrow> of_small p = [] \<and> of_main p = [])
    \<or> (\<exists>p1 vs1 ss1 sm1. evict_loop n prot p vs ss sm = evict_loop n prot p1 vs1 ss1 sm1
         \<and> evict_state n prot p0 p1 vs1 ss1 sm1 \<and> evict_measure p1 < evict_measure p)"
    (is "?done \<or> ?more")
proof -
  consider (enough) "\<not> int (length vs) < n"
    | (empty) "int (length vs) < n" "of_small p = []" "of_main p = []"
    | (small) key rest where "int (length vs) < n" "of_small_budget p < length (of_small p) \<or> of_main p = []"
        "of_small p = (key, ()) # rest"
    | (main) key rest where "int (length vs) < n" "\<not> (of_small_budget p < length (of_small p) \<or> of_main p = [])"
        "of_main p = (key, ()) # rest"
    by (cases "of_small p"; cases "of_main p"; fastforce)
  then show ?thesis
  proof cases
    case enough
    then show ?thesis by (subst evict_loop.simps) simp
  next
    case empty
    then have ?done by (subst evict_loop.simps) simp
    then show ?thesis by blast
  next
    case small
    note eq = evict_loop_small [OF small, of prot ss sm] and st = assms small(3)
    consider "0 < freq_of key p" | "\<not> 0 < freq_of key p" "key \<in> prot \<or> key \<notin> of_evictable p"
      | "\<not> 0 < freq_of key p" "\<not> (key \<in> prot \<or> key \<notin> of_evictable p)" by blast
    then have ?more
    proof cases
      case 1 with eq evict_state_promote [OF st 1] evict_measure_promote [OF small(3) 1] show ?thesis by auto
    next
      case 2 with eq evict_state_small(1) [OF st 2(2)] evict_measure_drop(1) [OF small(3)] show ?thesis by auto
    next
      case 3 with eq evict_state_small(2) [OF st small(1) 3(2)] evict_measure_drop(1) [OF small(3)] show ?thesis by auto
    qed
    then show ?thesis ..
  next
    case main
    note eq = evict_loop_main [OF main, of prot ss sm] and st = assms main(3)
    consider "0 < freq_of key p" | "\<not> 0 < freq_of key p" "key \<in> prot \<or> key \<notin> of_evictable p"
      | "\<not> 0 < freq_of key p" "\<not> (key \<in> prot \<or> key \<notin> of_evictable p)" by blast
    then have ?more
    proof cases
      case 1 with eq evict_state_requeue [OF st 1] evict_measure_requeue [OF main(3) 1] show ?thesis by metis
    next
      case 2 with eq evict_state_main(1) [OF st 2(2)] evict_measure_drop(2) [OF main(3)] show ?thesis by auto
    next
      case 3 with eq evict_state_main(2) [OF st main(1) 3(2)] evict_measure_drop(2) [OF main(3)] show ?thesis by auto
    qed
    then show ?thesis ..
  qed
qed

lemma evict_loop_state:
  assumes "evict_state n prot p0 p vs ss sm" "evict_loop n prot p vs ss sm = (p', vs', ss', sm')"
  shows "evict_state n prot p0 p' vs' ss' sm'
    \<and> (int (length vs') < n \<longrightarrow> of_small p' = [] \<and> of_main p' = [])"
  using assms
proof (induction "evict_measure p" arbitrary: p vs ss sm rule: less_induct)
  case less
  from evict_loop_round [OF less.prems(1)] show ?case
  proof (elim disjE exE conjE)
    fix p1 vs1 ss1 sm1
    assume "evict_loop n prot p vs ss sm = evict_loop n prot p1 vs1 ss1 sm1"
      "evict_state n prot p0 p1 vs1 ss1 sm1" "evict_measure p1 < evict_measure p"
    with less.hyps less.prems(2) show ?thesis by simp
  qed (use less.prems in auto)
qed

section \<open>Taking the victims\<close>

text \<open>The part of the invariant that is not about the two queues.\<close>

definition offload_core :: "('k, 'b) offload_policy \<Rightarrow> bool" where
  "offload_core p \<longleftrightarrow>
     od_ok (of_blocks p) \<and> od_ok (of_freq p) \<and> od_ok (of_ghost p)
     \<and> od_dom (of_freq p) = od_dom (of_blocks p)
     \<and> od_dom (of_ghost p) \<inter> od_dom (of_blocks p) = {}
     \<and> length (of_ghost p) \<le> of_ghost_capacity p
     \<and> (\<forall>q \<in> set (of_ghost p). snd q = None)
     \<and> (\<forall>q \<in> set (of_freq p). snd q \<le> FREQ_CAP)"

lemma offload_invar_core:
  "offload_invar p \<longleftrightarrow> offload_core p \<and> distinct (od_keys (of_small p) @ od_keys (of_main p))
     \<and> od_dom (of_blocks p) = od_dom (of_small p) \<union> od_dom (of_main p)"
  by (auto simp: offload_invar_def offload_core_def)

lemma ghost_insert_ghost:
  assumes "od_ok (of_ghost p)"
  shows "od_ok (of_ghost (ghost_insert key p))"
    and "od_dom (of_ghost (ghost_insert key p)) \<subseteq> insert key (od_dom (of_ghost p))"
    and "length (of_ghost (ghost_insert key p)) \<le> of_ghost_capacity p"
    and "\<forall>q \<in> set (of_ghost p). snd q = None \<Longrightarrow> \<forall>q \<in> set (of_ghost (ghost_insert key p)). snd q = None"
proof -
  let ?d = "od_move_to_end key (od_set key None (of_ghost p))"
  obtain g popped where t: "od_trim (of_ghost_capacity p) ?d = (g, popped)" by (cases "od_trim (of_ghost_capacity p) ?d")
  have ok: "od_ok ?d" using assms by (intro od_ok_move od_ok_set)
  from od_trim_sets [OF t] ok show "od_ok (of_ghost (ghost_insert key p))"
    and "od_dom (of_ghost (ghost_insert key p)) \<subseteq> insert key (od_dom (of_ghost p))"
    and "length (of_ghost (ghost_insert key p)) \<le> of_ghost_capacity p"
    by (auto simp: ghost_insert_def t)
  show "\<forall>q \<in> set (of_ghost p). snd q = None \<Longrightarrow> \<forall>q \<in> set (of_ghost (ghost_insert key p)). snd q = None"
    by (fastforce simp: ghost_insert_def od_trim_eq dest!: in_set_dropD values_od_move values_od_set)
qed

lemma ghost_insert_frame [simp]:
  "of_blocks (ghost_insert key p) = of_blocks p" "of_freq (ghost_insert key p) = of_freq p"
  "of_small (ghost_insert key p) = of_small p" "of_main (ghost_insert key p) = of_main p"
  "of_evictable (ghost_insert key p) = of_evictable p"
  "of_ghost_capacity (ghost_insert key p) = of_ghost_capacity p"
  by (simp_all add: ghost_insert_def)

definition drop_block :: "'k \<Rightarrow> bool \<Rightarrow> ('k, 'b) offload_policy \<Rightarrow> ('k, 'b) offload_policy" where
  "drop_block key from_small p =
     (let p1 = p\<lparr>of_blocks := od_pop key (of_blocks p), of_freq := od_pop key (of_freq p),
                 of_evictable := of_evictable p - {key}\<rparr>
      in if from_small then ghost_insert key p1 else p1)"

lemma drop_block_frame [simp]:
  "of_blocks (drop_block key s p) = od_pop key (of_blocks p)"
  "of_small (drop_block key s p) = of_small p" "of_main (drop_block key s p) = of_main p"
  "of_evictable (drop_block key s p) = of_evictable p - {key}"
  by (simp_all add: drop_block_def Let_def)

lemma drop_block_core: "offload_core p \<Longrightarrow> offload_core (drop_block key s p)"
proof -
  assume c: "offload_core p"
  let ?p1 = "p\<lparr>of_blocks := od_pop key (of_blocks p), of_freq := od_pop key (of_freq p),
    of_evictable := of_evictable p - {key}\<rparr>"
  have c1: "offload_core ?p1" and k: "key \<notin> od_dom (of_blocks ?p1)"
    using c by (auto simp: offload_core_def od_ok_pop dest: values_od_pop)
  have "od_ok (of_ghost ?p1)" using c1 by (simp add: offload_core_def)
  note g = ghost_insert_ghost [OF this, of key]
  show ?thesis
  proof (cases s)
    case True
    have "offload_core (ghost_insert key ?p1)"
      using c1 k g unfolding offload_core_def ghost_insert_frame by blast
    with True show ?thesis by (simp add: drop_block_def)
  next
    case False
    with c1 show ?thesis by (simp add: drop_block_def)
  qed
qed

lemma take_victims_laws:
  assumes "offload_core p" "distinct (map fst vs)" "set (map fst vs) \<subseteq> od_dom (of_blocks p)"
  shows "\<exists>res p'. take_victims vs p = Inr (res, p') \<and> map fst res = map fst vs
    \<and> (\<forall>r \<in> set res. map_of (of_blocks p) (fst r) = Some (snd r))
    \<and> offload_core p' \<and> of_small p' = of_small p \<and> of_main p' = of_main p
    \<and> map_of (of_blocks p') = (\<lambda>k. if k \<in> set (map fst vs) then None else map_of (of_blocks p) k)
    \<and> of_evictable p' = of_evictable p - set (map fst vs)"
  using assms
proof (induction vs arbitrary: p)
  case (Cons v vs)
  obtain key s where v: "v = (key, s)" by (cases v)
  have "key \<in> od_dom (of_blocks p)" using Cons.prems(3) by (simp add: v)
  then obtain b where b: "map_of (of_blocks p) key = Some b" by (metis map_of_od_dom not_None_eq)
  let ?p1 = "drop_block key s p"
  have "set (map fst vs) \<subseteq> od_dom (of_blocks ?p1)" "distinct (map fst vs)" "key \<notin> set (map fst vs)"
    using Cons.prems(2,3) by (auto simp: v)
  with Cons.IH [OF drop_block_core [OF Cons.prems(1)], of key s] obtain res p' where
    IH: "take_victims vs ?p1 = Inr (res, p')" "map fst res = map fst vs"
      "\<forall>r \<in> set res. map_of (of_blocks ?p1) (fst r) = Some (snd r)"
      "offload_core p'" "of_small p' = of_small p" "of_main p' = of_main p"
      "map_of (of_blocks p') = (\<lambda>k. if k \<in> set (map fst vs) then None else map_of (of_blocks ?p1) k)"
      "of_evictable p' = of_evictable p - {key} - set (map fst vs)" by auto
  have "take_victims (v # vs) p = Inr ((key, b) # res, p')"
    using b IH(1) by (simp add: v drop_block_def Let_def)
  moreover have "map_of (of_blocks p) (fst r) = Some (snd r)" if "r \<in> set res" for r
    using IH(3) that by (auto simp: map_of_od_pop split: if_splits)
  ultimately show ?case using IH(2,4-8) b by (auto simp: v map_of_od_pop fun_eq_iff)
qed simp

section \<open>Restoring the skipped keys\<close>

lemma foldl_od_set_units:
  "distinct xs \<Longrightarrow> set xs \<inter> od_dom acc = {} \<Longrightarrow>
     foldl (\<lambda>acc k. od_set k () acc) acc xs = acc @ map (\<lambda>k. (k, ())) xs"
  by (induction xs arbitrary: acc) (auto simp: od_set_fresh)

lemma restore_front_eq:
  assumes "distinct (ks @ od_keys d)"
  shows "restore_front ks d = map (\<lambda>k. (k, ())) ks @ d"
proof -
  have "map (\<lambda>k. (k, ())) (od_keys d) = d" by (induction d) auto
  with foldl_od_set_units [OF assms, of "[]"] show ?thesis by (simp add: restore_front_def)
qed

lemma restore_front_keys:
  assumes "distinct (ks @ od_keys d)"
  shows "od_keys (if ks \<noteq> [] then restore_front ks d else d) = ks @ od_keys d"
proof -
  have "od_keys (map (\<lambda>k. (k, ())) ks) = ks" by (induction ks) auto
  then show ?thesis using restore_front_eq [OF assms] by simp
qed

section \<open>Eviction\<close>

abbreviation eligible :: "'k set \<Rightarrow> ('k, 'b) offload_policy \<Rightarrow> 'k set" where
  "eligible prot p \<equiv> {k \<in> od_dom (of_blocks p). k \<notin> prot \<and> k \<in> of_evictable p}"

text \<open>The state after the loop and the restore, for the keys that go back to the queues.\<close>

definition restore_state ::
  "'k list \<Rightarrow> 'k list \<Rightarrow> ('k, 'b) offload_policy \<Rightarrow> ('k, 'b) offload_policy" where
  "restore_state rs rm p1 =
     (let p2 = (if rs \<noteq> [] then p1\<lparr>of_small := restore_front rs (of_small p1)\<rparr> else p1)
      in if rm \<noteq> [] then p2\<lparr>of_main := restore_front rm (of_main p2)\<rparr> else p2)"

lemma restore_state_fields:
  "of_blocks (restore_state rs rm p) = of_blocks p" "of_freq (restore_state rs rm p) = of_freq p"
  "of_ghost (restore_state rs rm p) = of_ghost p" "of_evictable (restore_state rs rm p) = of_evictable p"
  "of_ghost_capacity (restore_state rs rm p) = of_ghost_capacity p"
  "of_small (restore_state rs rm p) = (if rs \<noteq> [] then restore_front rs (of_small p) else of_small p)"
  "of_main (restore_state rs rm p) = (if rm \<noteq> [] then restore_front rm (of_main p) else of_main p)"
  by (simp_all add: restore_state_def Let_def)

lemma restore_state_laws:
  assumes "offload_invar p0" "evict_state n prot p0 p vs ss sm"
    and "distinct (rs @ rm @ od_keys (of_small p) @ od_keys (of_main p))"
  shows "offload_core (restore_state rs rm p)" "of_blocks (restore_state rs rm p) = of_blocks p0"
    and "of_evictable (restore_state rs rm p) = of_evictable p0"
    and "distinct (od_keys (of_small (restore_state rs rm p)) @ od_keys (of_main (restore_state rs rm p)))"
    and "od_dom (of_small (restore_state rs rm p)) \<union> od_dom (of_main (restore_state rs rm p))
      = set rs \<union> set rm \<union> od_dom (of_small p) \<union> od_dom (of_main p)"
proof -
  have keys: "od_keys (of_small (restore_state rs rm p)) = rs @ od_keys (of_small p)"
    "od_keys (of_main (restore_state rs rm p)) = rm @ od_keys (of_main p)"
    unfolding restore_state_fields using assms(3) by (intro restore_front_keys; auto)+
  show "offload_core (restore_state rs rm p)" "of_blocks (restore_state rs rm p) = of_blocks p0"
    and "of_evictable (restore_state rs rm p) = of_evictable p0"
    using assms(1,2) by (auto simp: offload_core_def restore_state_fields offload_invar_def evict_state_def)
  show "distinct (od_keys (of_small (restore_state rs rm p)) @ od_keys (of_main (restore_state rs rm p)))"
    unfolding keys using assms(3) by auto
  show "od_dom (of_small (restore_state rs rm p)) \<union> od_dom (of_main (restore_state rs rm p))
      = set rs \<union> set rm \<union> od_dom (of_small p) \<union> od_dom (of_main p)"
    unfolding od_dom_def keys by auto
qed

lemma offload_evict_eq:
  assumes "n \<noteq> 0" "evict_loop n prot p [] [] [] = (p1, vs, ss, sm)"
  shows "offload_evict n prot p =
    (if int (length vs) = n
     then bind_result (take_victims vs (restore_state ss sm p1)) (\<lambda>(res, p4). Inr (Some res, p4))
     else Inr (None, restore_state (ss @ map fst (filter snd vs)) (sm @ map fst (filter (Not \<circ> snd) vs)) p1))"
  using assms by (simp add: offload_evict_def restore_state_def Let_def)

lemma split_victims:
  "mset (xs @ map fst (filter P vs)) + mset (ys @ map fst (filter (Not \<circ> P) vs)) = mset (map fst vs @ xs @ ys)"
  by (induction vs) auto

lemma distinct_split_victims:
  assumes "distinct (map fst vs @ xs @ ys)"
  shows "distinct ((xs @ map fst (filter P vs)) @ (ys @ map fst (filter (Not \<circ> P) vs)))"
    and "set (xs @ map fst (filter P vs)) \<union> set (ys @ map fst (filter (Not \<circ> P) vs)) = set (map fst vs @ xs @ ys)"
  using mset_eq_imp_distinct_iff [of "(xs @ map fst (filter P vs)) @ (ys @ map fst (filter (Not \<circ> P) vs))"]
    mset_eq_setD [of "(xs @ map fst (filter P vs)) @ (ys @ map fst (filter (Not \<circ> P) vs))"]
    split_victims [of xs P vs ys] assms
  by (metis mset_append set_append)+

lemma offload_evict_fails:
  assumes "offload_invar p" "0 < n" "evict_loop n prot p [] [] [] = (p1, vs, ss, sm)" "int (length vs) \<noteq> n"
  shows "\<exists>p'. offload_evict n prot p = Inr (None, p') \<and> offload_invar p'
    \<and> of_blocks p' = of_blocks p \<and> of_evictable p' = of_evictable p \<and> int (card (eligible prot p)) < n"
proof -
  let ?rs = "ss @ map fst (filter snd vs)" and ?rm = "sm @ map fst (filter (Not \<circ> snd) vs)"
  have st: "evict_state n prot p p1 vs ss sm" and e: "int (length vs) < n \<longrightarrow> of_small p1 = [] \<and> of_main p1 = []"
    using evict_loop_state [OF evict_state_start [OF assms(1)] assms(3)] assms(2) by auto
  have "int (length vs) < n" using st assms(4) by (simp add: evict_state_def)
  with e have empty: "of_small p1 = []" "of_main p1 = []" and less: "int (length vs) < n" by auto
  have keys: "distinct (map fst vs @ ss @ sm)" "set (map fst vs @ ss @ sm) = od_dom (of_blocks p)"
    using st empty by (auto simp: evict_state_def queue_keys_def)
  have d: "distinct (?rs @ ?rm @ od_keys (of_small p1) @ od_keys (of_main p1))"
    using distinct_split_victims(1) [OF keys(1), of snd] by (simp only: empty list.map append_Nil2 append_assoc)
  have all: "set ?rs \<union> set ?rm = od_dom (of_blocks p)"
    using distinct_split_victims(2) [OF keys(1), of snd] keys(2) by (simp only:)
  note r = restore_state_laws [OF assms(1) st d]
  have "eligible prot p = set (map fst vs)"
    using st keys unfolding evict_state_def by auto
  then have "card (eligible prot p) = length vs" using keys(1) distinct_card [of "map fst vs"] by simp
  then show ?thesis
    using r all empty less assms(2,4) by (auto simp: offload_evict_eq [OF _ assms(3)] offload_invar_core)
qed

lemma offload_evict_succeeds:
  assumes "offload_invar p" "0 < n" "evict_loop n prot p [] [] [] = (p1, vs, ss, sm)" "int (length vs) = n"
  shows "\<exists>res p'. offload_evict n prot p = Inr (Some res, p') \<and> offload_invar p'
    \<and> int (length res) = n \<and> distinct (map fst res) \<and> set (map fst res) \<subseteq> eligible prot p
    \<and> (\<forall>r \<in> set res. map_of (of_blocks p) (fst r) = Some (snd r))
    \<and> map_of (of_blocks p') = (\<lambda>k. if k \<in> set (map fst res) then None else map_of (of_blocks p) k)
    \<and> of_evictable p' = of_evictable p - set (map fst res)"
proof -
  have st: "evict_state n prot p p1 vs ss sm"
    using evict_loop_state [OF evict_state_start [OF assms(1)] assms(3)] assms(2) by auto
  have d: "distinct (ss @ sm @ od_keys (of_small p1) @ od_keys (of_main p1))" "distinct (map fst vs)"
    and sub: "set (map fst vs) \<subseteq> eligible prot p"
    and rest: "set ss \<union> set sm \<union> od_dom (of_small p1) \<union> od_dom (of_main p1) = od_dom (of_blocks p) - set (map fst vs)"
    using st by (auto simp: evict_state_def queue_keys_def)
  let ?p3 = "restore_state ss sm p1"
  note r = restore_state_laws [OF assms(1) st d(1)]
  have "set (map fst vs) \<subseteq> od_dom (of_blocks ?p3)" using sub r(2) by auto
  from take_victims_laws [OF r(1) d(2) this, unfolded r(2,3)] obtain res p' where
    t: "take_victims vs ?p3 = Inr (res, p')" "map fst res = map fst vs"
      "\<forall>r \<in> set res. map_of (of_blocks p) (fst r) = Some (snd r)"
      "offload_core p'" "of_small p' = of_small ?p3" "of_main p' = of_main ?p3"
      "map_of (of_blocks p') = (\<lambda>k. if k \<in> set (map fst vs) then None else map_of (of_blocks p) k)"
      "of_evictable p' = of_evictable p - set (map fst vs)" by blast
  have "od_dom (of_blocks p') = od_dom (of_blocks p) - set (map fst vs)"
    unfolding od_dom_map_of t(7) by (auto split: if_splits)
  then have "offload_invar p'" using t(4-6) r(4,5) rest unfolding offload_invar_core by simp
  moreover have "int (length res) = n" using t(2) assms(4) by (metis length_map)
  moreover have "offload_evict n prot p = Inr (Some res, p')"
    using assms(2,4) t(1) by (simp add: offload_evict_eq [OF _ assms(3)])
  ultimately show ?thesis using t(2,3,7,8) d(2) sub by (intro exI [of _ res] exI [of _ p']) simp
qed

section \<open>The other operations\<close>

lemma offload_insert_small:
  assumes "offload_invar p"
  shows "of_small (offload_insert rc key b p) = od_set key () (of_small p)"
    and "of_main (offload_insert rc key b p) = of_main p"
proof -
  have "pop_value key (of_ghost p) = None" using assms by (intro pop_value_None) (simp add: offload_invar_def)
  then show "of_small (offload_insert rc key b p) = od_set key () (of_small p)"
    and "of_main (offload_insert rc key b p) = of_main p"
    by (simp_all add: offload_insert_def Let_def)
qed

lemma offload_insert_fields:
  "of_blocks (offload_insert rc key b p) = od_set key b (of_blocks p)"
  "of_freq (offload_insert rc key b p) = od_set key 0 (of_freq p)"
  "of_ghost (offload_insert rc key b p) = od_pop key (of_ghost p)"
  "of_ghost_capacity (offload_insert rc key b p) = of_ghost_capacity p"
  "of_small_budget (offload_insert rc key b p) = of_small_budget p"
  "of_evictable (offload_insert rc key b p) =
     (if rc b = 0 then insert key (of_evictable p) else of_evictable p)"
  by (simp_all add: offload_insert_def Let_def)

lemma offload_insert_invar:
  assumes "offload_invar p" "key \<notin> od_dom (of_blocks p)"
  shows "offload_invar (offload_insert rc key b p)"
proof -
  have k: "key \<notin> od_dom (of_small p)" "key \<notin> od_dom (of_main p)"
    using assms by (auto simp: offload_invar_def)
  have "length (od_pop key (of_ghost p)) \<le> of_ghost_capacity p"
    using assms(1) length_od_pop_le [of key "of_ghost p"] by (simp add: offload_invar_def)
  with assms k show ?thesis
    unfolding offload_invar_def offload_insert_fields offload_insert_small [OF assms(1)] od_set_fresh [OF k(1)]
    by (auto simp: od_ok_set od_ok_pop dest!: values_od_set values_od_pop)
qed

lemma offload_remove_invar:
  assumes "offload_invar p" "offload_remove key p = Inr p'"
  shows "offload_invar p'"
proof -
  have p': "p' = p\<lparr>of_blocks := od_pop key (of_blocks p), of_freq := od_pop key (of_freq p),
      of_small := od_pop key (of_small p), of_main := od_pop key (of_main p),
      of_evictable := of_evictable p - {key}\<rparr>"
    using assms(2) by (auto simp: offload_remove_def split: if_splits)
  have "\<forall>q \<in> set (od_pop key (of_freq p)). snd q \<le> FREQ_CAP"
    using assms(1) values_od_pop [of _ key "of_freq p"] by (auto simp: offload_invar_def)
  with assms(1) show ?thesis unfolding p' by (auto simp: offload_invar_def od_ok_pop od_keys_pop)
qed

lemma touch_key_invar: "offload_invar p \<Longrightarrow> offload_invar (touch_key p key)"
  using map_of_od_dom [of "of_freq p" key]
  by (auto simp: touch_key_def offload_invar_def od_ok_set split: option.splits dest!: values_od_set)

lemma offload_touch_invar: "offload_invar p \<Longrightarrow> offload_invar (offload_touch keys p)"
  unfolding offload_touch_def by (rule foldl_invariant) (auto intro: touch_key_invar)

text \<open>
  The states vLLM can bring the policy into. Its manager inserts a block only under a key that
  has none, and asks for a number of victims that is not negative.
\<close>

inductive offload_reach :: "('b \<Rightarrow> int) \<Rightarrow> ('k, 'b) offload_policy \<Rightarrow> bool" for rc :: "'b \<Rightarrow> int" where
  created: "offload_reach rc (offload_init c)"
| inserted: "offload_reach rc p \<Longrightarrow> offload_get key p = None \<Longrightarrow> offload_reach rc (offload_insert rc key b p)"
| removed: "offload_reach rc p \<Longrightarrow> offload_remove key p = Inr p' \<Longrightarrow> offload_reach rc p'"
| touched: "offload_reach rc p \<Longrightarrow> offload_reach rc (offload_touch keys p)"
| cleared: "offload_reach rc p \<Longrightarrow> offload_reach rc (offload_clear p)"
| evicted: "offload_reach rc p \<Longrightarrow> 0 \<le> n \<Longrightarrow> offload_evict n prot p = Inr (r, p') \<Longrightarrow> offload_reach rc p'"
| marked: "offload_reach rc p \<Longrightarrow> offload_reach rc (offload_mark_evictable key p)"
| unmarked: "offload_reach rc p \<Longrightarrow> offload_reach rc (offload_mark_non_evictable key p)"

lemma offload_evict_total:
  assumes "offload_invar p" "0 \<le> n"
  obtains (none) p' where "offload_evict n prot p = Inr (None, p')" "offload_invar p'" "of_blocks p' = of_blocks p"
      "of_evictable p' = of_evictable p" "int (card (eligible prot p)) < n"
  | (some) res p' where "offload_evict n prot p = Inr (Some res, p')" "offload_invar p'"
      "int (length res) = n" "distinct (map fst res)" "set (map fst res) \<subseteq> eligible prot p"
      "\<forall>r \<in> set res. map_of (of_blocks p) (fst r) = Some (snd r)"
      "map_of (of_blocks p') = (\<lambda>k. if k \<in> set (map fst res) then None else map_of (of_blocks p) k)"
      "of_evictable p' = of_evictable p - set (map fst res)"
proof (cases "n = 0")
  case True
  then show ?thesis using assms(1) some [of "[]" p] by (simp add: offload_evict_def)
next
  case False
  then have n: "0 < n" using assms(2) by simp
  obtain p1 vs ss sm where l: "evict_loop n prot p [] [] [] = (p1, vs, ss, sm)" by (metis prod_cases4)
  show ?thesis
  proof (cases "int (length vs) = n")
    case True
    from offload_evict_succeeds [OF assms(1) n l True] some show ?thesis by blast
  next
    case False
    from offload_evict_fails [OF assms(1) n l False] none show ?thesis by blast
  qed
qed

lemma offload_reach_invar: "offload_reach rc p \<Longrightarrow> offload_invar p"
proof (induction rule: offload_reach.induct)
  case (inserted p key b)
  then show ?case by (intro offload_insert_invar) (simp_all add: offload_get_def map_of_od_dom)
next
  case (evicted p n prot r p')
  from evicted.IH evicted.hyps(2) show ?case
    by (rule offload_evict_total [of p n prot]) (use evicted.hyps(3) in auto)
next
  case (cleared p)
  then show ?case by (simp add: offload_clear_def offload_invar_def)
next
  case (marked p key)
  then show ?case by (auto simp: offload_mark_evictable_def offload_invar_def)
next
  case (unmarked p key)
  then show ?case by (auto simp: offload_mark_non_evictable_def offload_invar_def)
qed (simp_all add: offload_init_invar offload_touch_invar offload_remove_invar)

text \<open>
  Registration changes no policy that vLLM already has, the selected name resolves to this policy unless something
  else took the name before, and specs built later find the table as the first left it.
\<close>

lemma map_of_setdefault:
  "map_of (od_setdefault key v d) k = (if k = key \<and> map_of d key = None then Some v else map_of d k)"
  by (auto simp: od_setdefault_def od_contains_def od_set_def update_conv' map_of_eq_None_iff)

lemma spec_registration:
  assumes "S3FIFOOffloadingSpec_init cpu_spec cls config registry = Inr (spec, registry')"
  shows "map_of registry ''s3fifo'' = None \<Longrightarrow> map_of registry' (spec_eviction_policy spec) = Some cls"
    and "map_of registry name = Some c \<Longrightarrow> map_of registry' name = Some c"
    and "S3FIFOTieringOffloadingSpec_init tiering_spec cls config' registry' = Inr (spec', registry'') \<Longrightarrow>
      registry'' = registry' \<and> spec_eviction_policy spec' = spec_eviction_policy spec"
proof -
  have r: "registry' = od_setdefault ''s3fifo'' cls registry" "spec_eviction_policy spec = ''s3fifo''"
    using assms by (auto simp: S3FIFOOffloadingSpec_init_def bind_result_Inr_iff)
  show "map_of registry ''s3fifo'' = None \<Longrightarrow> map_of registry' (spec_eviction_policy spec) = Some cls"
    "map_of registry name = Some c \<Longrightarrow> map_of registry' name = Some c"
    by (auto simp: r map_of_setdefault)
  have "map_of registry' ''s3fifo'' \<noteq> None" by (simp add: r map_of_setdefault)
  then have "od_setdefault ''s3fifo'' cls registry' = registry'" by (simp add: od_setdefault_def od_contains_def map_of_eq_None_iff)
  then show "S3FIFOTieringOffloadingSpec_init tiering_spec cls config' registry' = Inr (spec', registry'') \<Longrightarrow>
      registry'' = registry' \<and> spec_eviction_policy spec' = spec_eviction_policy spec"
    by (auto simp: S3FIFOTieringOffloadingSpec_init_def bind_result_Inr_iff r(2))
qed

section \<open>Properties\<close>

text \<open>C26. Whatever vLLM does with the policy, every cached block is in exactly one of the two queues and has
  a frequency of at most 3, and the ghost queue stays within its capacity and names no cached block.\<close>

theorem offload_invariant:
  assumes "offload_reach rc p"
  shows "distinct (od_keys (of_small p) @ od_keys (of_main p))
    \<and> set (od_keys (of_small p) @ od_keys (of_main p)) = od_dom (of_blocks p)
    \<and> od_dom (of_freq p) = od_dom (of_blocks p) \<and> \<not> (\<exists>q \<in> set (of_freq p). 3 < snd q)
    \<and> od_dom (of_ghost p) \<inter> od_dom (of_blocks p) = {}
    \<and> length (of_ghost p) \<le> of_ghost_capacity p"
  using offload_reach_invar [OF assms] by (auto simp: offload_invar_def FREQ_CAP_def)

theorem offload_invariant_witness:
  "length (of_ghost (offload_insert id (1::nat) 0 (offload_init 10))) \<le> of_ghost_capacity (offload_insert id (1::nat) 0 (offload_init 10))"
proof -
  have "offload_reach id (offload_insert id (1::nat) (0::int) (offload_init 10))"
    by (rule offload_reach.inserted [OF offload_reach.created]) (simp add: offload_get_def offload_init_def)
  from offload_invariant [OF this] show ?thesis by blast
qed

text \<open>C7. An eviction request of \<open>n\<close> blocks never raises. It succeeds exactly when at least \<open>n\<close> blocks are
  evictable and not protected; then it returns \<open>n\<close> distinct such blocks with their descriptors and
  removes exactly those. Otherwise it returns \<^verbatim>\<open>None\<close> and keeps every block.\<close>

theorem offload_evict_spec:
  fixes prot :: "'k set" and p :: "('k, 'b) offload_policy"
  assumes "offload_reach rc p" "0 \<le> n"
  defines "can \<equiv> {k \<in> od_dom (of_blocks p). k \<notin> prot \<and> k \<in> of_evictable p}"
  shows "\<exists>r p'. offload_evict n prot p = Inr (r, p')
    \<and> (r = None \<longleftrightarrow> int (card can) < n)
    \<and> (case r of
         None \<Rightarrow> of_blocks p' = of_blocks p
       | Some res \<Rightarrow> int (length res) = n \<and> distinct (map fst res) \<and> set (map fst res) \<subseteq> can
           \<and> \<not> (\<exists>q \<in> set res. offload_get (fst q) p \<noteq> Some (snd q))
           \<and> (\<forall>k. offload_get k p' = (if k \<in> set (map fst res) then None else offload_get k p)))"
  using offload_reach_invar [OF assms(1)] assms(2)
proof (rule offload_evict_total [of p n prot])
  fix res p'
  assume h: "offload_evict n prot p = Inr (Some res, p')" "int (length res) = n" "distinct (map fst res)"
    "set (map fst res) \<subseteq> eligible prot p" "\<forall>r \<in> set res. map_of (of_blocks p) (fst r) = Some (snd r)"
    "map_of (of_blocks p') = (\<lambda>k. if k \<in> set (map fst res) then None else map_of (of_blocks p) k)"
  have "length res \<le> card can"
    using card_mono [of can "set (map fst res)"] h(3,4) distinct_card [of "map fst res"] by (simp add: can_def)
  then show ?thesis using h by (intro exI [of _ "Some res"] exI [of _ p']) (auto simp: can_def offload_get_def)
qed (auto simp: can_def)

theorem offload_evict_spec_witness:
  "\<exists>r p'. offload_evict 1 {} (offload_insert id (7::nat) (0::int) (offload_init 10)) = Inr (r, p') \<and> r \<noteq> None"
proof -
  let ?p = "offload_insert id (7::nat) (0::int) (offload_init 10)"
  have "offload_reach id ?p"
    by (rule offload_reach.inserted [OF offload_reach.created]) (simp add: offload_get_def offload_init_def)
  from offload_evict_spec [OF this, of 1 "{}"] show ?thesis
    by (auto simp: offload_insert_def offload_init_def Let_def od_set_def pop_value_def)
qed

text \<open>C40. The ghost queue never leads to a hot admission: an inserted block goes to the small queue and
  leaves the main queue alone, also when the ghost queue remembers its key, because the value that
  \<^verbatim>\<open>ghost.pop\<close> returns is \<^verbatim>\<open>None\<close> in both cases.\<close>

theorem offload_insert_ignores_ghost:
  assumes "offload_reach rc p" "offload_get key p = None"
  shows "key \<in> od_dom (of_small (offload_insert rc key block p))
    \<and> of_main (offload_insert rc key block p) = of_main p
    \<and> key \<notin> od_dom (of_ghost (offload_insert rc key block p))
    \<and> offload_get key (offload_insert rc key block p) = Some block"
  using offload_insert_small [OF offload_reach_invar [OF assms(1)], of rc key block]
  by (simp add: offload_insert_fields offload_get_def)

theorem offload_insert_ignores_ghost_witness:
  "\<exists>p. offload_reach id p \<and> (1::nat) \<in> od_dom (of_ghost p) \<and> offload_get 1 p = None
     \<and> of_main (offload_insert id 1 (0::int) p) = of_main p"
proof -
  let ?p0 = "offload_insert id (1::nat) (0::int) (offload_init 10)"
  have r0: "offload_reach id ?p0"
    by (rule offload_reach.inserted [OF offload_reach.created]) (simp add: offload_get_def offload_init_def)
  have e: "offload_evict 1 {} ?p0 = Inr (Some [(1, 0)],
      \<lparr>of_small_budget = 1, of_ghost_capacity = 20, of_blocks = [], of_small = [], of_main = [], of_freq = [],
       of_evictable = {}, of_ghost = [(1, None)]\<rparr>)" by code_simp
  have r: "offload_reach id \<lparr>of_small_budget = 1, of_ghost_capacity = 20, of_blocks = [] :: (nat, int) odict,
      of_small = [], of_main = [], of_freq = [], of_evictable = {}, of_ghost = [(1, None)]\<rparr>"
    by (rule offload_reach.evicted [OF r0 _ e]) simp
  from offload_insert_ignores_ghost [OF r, of 1 0] r show ?thesis by (auto simp: offload_get_def)
qed

end
