(* ===== verification/Policy_Interface.thy ===== *)
theory Policy_Interface
  imports Ordered_Dict
begin

text \<open>
  The interface \<^verbatim>\<open>CachePolicy\<close> of \<^verbatim>\<open>python/bench/policies.py\<close> as a locale, and what a
  client may conclude from it. A policy state is opaque; its abstraction is the set of
  resident keys. The eviction callback \<^verbatim>\<open>on_evict\<close> is called by \<^verbatim>\<open>_evicted\<close> in the
  middle of an operation and never touches the policy that calls it, so an operation
  returns the list of keys it was called with, in order.
\<close>

section \<open>Construction\<close>

text \<open>
  \<^verbatim>\<open>CachePolicy.__init__\<close> refuses a capacity that is not positive. Past the check the
  capacity is positive, and the policies keep it as a natural number.
\<close>

definition CachePolicy_init :: "int \<Rightarrow> nat result" where
  "CachePolicy_init capacity = (if capacity \<le> 0 then Inl ValueError else Inr (nat capacity))"

lemma CachePolicy_init_Inr [simp]:
  "CachePolicy_init c = Inr n \<longleftrightarrow> 0 < c \<and> n = nat c"
  by (auto simp: CachePolicy_init_def)

section \<open>Driving a policy\<close>

text \<open>
  Feeding a sequence of (key, block index) accesses to a policy whose \<^verbatim>\<open>on_evict\<close> is
  unset, collecting the hit flags: the inner loops of \<^verbatim>\<open>_simulate_replay\<close>.
\<close>

fun run_accesses ::
  "(hash_id \<Rightarrow> int \<Rightarrow> 's \<Rightarrow> bool \<times> 's \<times> hash_id list) \<Rightarrow> (hash_id \<times> int) list \<Rightarrow> 's
     \<Rightarrow> bool list \<times> 's" where
  "run_accesses acc [] s = ([], s)"
| "run_accesses acc ((h, i) # xs) s =
     (let (hit, s', _) = acc h i s; (hits, s'') = run_accesses acc xs s'
      in (hit # hits, s''))"

text \<open>
  The wiring \<^verbatim>\<open>fast.on_evict = slow.admit\<close>: every announced victim is admitted to the
  second policy, whose own \<^verbatim>\<open>on_evict\<close> is unset.
\<close>

definition demote_all ::
  "(hash_id \<Rightarrow> 's \<Rightarrow> 's \<times> hash_id list) \<Rightarrow> 's \<Rightarrow> hash_id list \<Rightarrow> 's" where
  "demote_all adm s victims = foldl (\<lambda>s v. fst (adm v s)) s victims"

lemma run_accesses_ConsE:
  assumes "run_accesses acc (x # xs) s = (hits, s')"
  obtains hit s1 ev hs where "acc (fst x) (snd x) s = (hit, s1, ev)"
    and "run_accesses acc xs s1 = (hs, s')" and "hits = hit # hs"
  using assms by (cases x) (auto simp: Let_def split: prod.splits)

section \<open>The contract\<close>

text \<open>
  The part of the interface the tiers use (\<^verbatim>\<open>contains\<close>, \<^verbatim>\<open>touch\<close>, \<^verbatim>\<open>admit\<close>,
  \<^verbatim>\<open>remove\<close>). The law to note is conservation: an admission splits the old residents and
  the new key into those that stay and those that are announced to \<^verbatim>\<open>on_evict\<close>, at most
  one.
\<close>

locale tier_policy =
  fixes capacity :: "'s \<Rightarrow> nat"
    and resident :: "'s \<Rightarrow> hash_id set"
    and invar :: "'s \<Rightarrow> bool"
    and contains :: "hash_id \<Rightarrow> 's \<Rightarrow> bool"
    and touch :: "hash_id \<Rightarrow> 's \<Rightarrow> 's"
    and admit :: "hash_id \<Rightarrow> 's \<Rightarrow> 's \<times> hash_id list"
    and remove :: "hash_id \<Rightarrow> 's \<Rightarrow> bool \<times> 's"
  assumes finite_resident: "invar s \<Longrightarrow> finite (resident s)"
    and bound: "invar s \<Longrightarrow> card (resident s) \<le> capacity s"
    and contains_iff: "invar s \<Longrightarrow> contains h s \<longleftrightarrow> h \<in> resident s"
    and touch_keeps: "invar s \<Longrightarrow> invar (touch h s) \<and> capacity (touch h s) = capacity s
          \<and> resident (touch h s) = resident s"
    and admit_invar: "invar s \<Longrightarrow> admit h s = (s', ev) \<Longrightarrow> invar s' \<and> capacity s' = capacity s"
    and admit_conserves: "invar s \<Longrightarrow> admit h s = (s', ev) \<Longrightarrow>
          resident s' \<union> set ev = insert h (resident s) \<and> resident s' \<inter> set ev = {}"
    and admit_evicts_one: "invar s \<Longrightarrow> admit h s = (s', ev) \<Longrightarrow> length ev \<le> 1"
    and remove_removes: "invar s \<Longrightarrow> remove h s = (b, s') \<Longrightarrow>
          invar s' \<and> capacity s' = capacity s \<and> resident s' = resident s - {h}
          \<and> b = (h \<in> resident s)"
begin

lemmas tier_specs =
  finite_resident bound contains_iff touch_keeps admit_invar admit_conserves admit_evicts_one
  remove_removes

lemma demote_all_keeps:
  assumes "invar s"
  shows "invar (demote_all admit s ev) \<and> capacity (demote_all admit s ev) = capacity s
     \<and> resident (demote_all admit s ev) \<subseteq> resident s \<union> set ev"
  using assms unfolding demote_all_def
proof (induction ev arbitrary: s)
  case (Cons v ev)
  obtain s1 out where a: "admit v s = (s1, out)" by (cases "admit v s")
  have "invar s1 \<and> capacity s1 = capacity s" using Cons.prems a by (rule admit_invar)
  moreover have "resident s1 \<subseteq> insert v (resident s)"
    using admit_conserves [OF Cons.prems a] by blast
  ultimately show ?case using Cons.IH [of s1] by (auto simp: a)
qed simp

text \<open>
  A key moved into one policy, its victims demoted into another: the two stay disjoint if
  the key itself was in neither.
\<close>

lemma admit_demote_exclusive:
  assumes "invar f" "invar sl" "resident f \<inter> resident sl = {}" "h \<notin> resident sl"
    and a: "admit h f = (f', ev)"
  shows "resident f' \<inter> resident (demote_all admit sl ev) = {}"
proof -
  have "resident f' \<inter> set ev = {}" and "resident f' \<subseteq> insert h (resident f)"
    using admit_conserves [OF assms(1) a] by auto
  moreover have "resident (demote_all admit sl ev) \<subseteq> resident sl \<union> set ev"
    using demote_all_keeps [OF assms(2)] by blast
  ultimately show ?thesis using assms(3,4) by blast
qed

end

text \<open>
  The whole interface adds \<^verbatim>\<open>access\<close>: a hit exactly on a resident key, which changes no
  residency; a miss may admit the key, evicting, or pass it by.
\<close>

locale cache_policy = tier_policy where invar = invar for invar :: "'s \<Rightarrow> bool" +
  fixes access :: "hash_id \<Rightarrow> int \<Rightarrow> 's \<Rightarrow> bool \<times> 's \<times> hash_id list"
  assumes access_invar: "invar s \<Longrightarrow> access h i s = (hit, s', ev) \<Longrightarrow>
          invar s' \<and> capacity s' = capacity s"
    and access_hit_iff: "invar s \<Longrightarrow> access h i s = (hit, s', ev) \<Longrightarrow> hit \<longleftrightarrow> h \<in> resident s"
    and access_hit_keeps: "invar s \<Longrightarrow> access h i s = (True, s', ev) \<Longrightarrow>
          resident s' = resident s \<and> ev = []"
    and access_conserves: "invar s \<Longrightarrow> access h i s = (hit, s', ev) \<Longrightarrow>
          resident s \<subseteq> resident s' \<union> set ev \<and> resident s' \<union> set ev \<subseteq> insert h (resident s)
          \<and> resident s' \<inter> set ev = {}"
begin

lemmas access_specs = access_invar access_hit_iff access_hit_keeps access_conserves

lemma run_invar:
  "invar s \<Longrightarrow> run_accesses access xs s = (hits, s') \<Longrightarrow>
     invar s' \<and> capacity s' = capacity s \<and> length hits = length xs"
proof (induction xs arbitrary: s hits)
  case (Cons x xs)
  from Cons.prems(2) obtain hit s1 ev hs where
    a: "access (fst x) (snd x) s = (hit, s1, ev)" and r: "run_accesses access xs s1 = (hs, s')"
    and "hits = hit # hs" by (rule run_accesses_ConsE)
  moreover have "invar s1 \<and> capacity s1 = capacity s" using Cons.prems(1) a by (rule access_invar)
  ultimately show ?case using Cons.IH [of s1 hs] by auto
qed simp

lemma run_bound:
  assumes "invar s" and "run_accesses access xs s = (hits, s')"
  shows "card (resident s') \<le> capacity s"
  using run_invar [OF assms] bound by metis

lemma run_resident_subset:
  "invar s \<Longrightarrow> run_accesses access xs s = (hits, s') \<Longrightarrow>
     resident s' \<subseteq> resident s \<union> fst ` set xs"
proof (induction xs arbitrary: s hits)
  case (Cons x xs)
  from Cons.prems(2) obtain hit s1 ev hs where
    a: "access (fst x) (snd x) s = (hit, s1, ev)" and r: "run_accesses access xs s1 = (hs, s')"
    by (rule run_accesses_ConsE)
  have "invar s1" using access_invar [OF Cons.prems(1) a] by simp
  from Cons.IH [OF this r] access_conserves [OF Cons.prems(1) a] show ?case by auto
qed simp

text \<open>A hit needs an earlier access of the same key (or a key resident at the start).\<close>

lemma run_hit_sound:
  "invar s \<Longrightarrow> run_accesses access xs s = (hits, s') \<Longrightarrow> k < length xs \<Longrightarrow> hits ! k \<Longrightarrow>
     fst (xs ! k) \<in> resident s \<union> fst ` set (take k xs)"
proof (induction xs arbitrary: s hits k)
  case (Cons x xs)
  from Cons.prems(2) obtain hit s1 ev hs where
    a: "access (fst x) (snd x) s = (hit, s1, ev)" and r: "run_accesses access xs s1 = (hs, s')"
    and hits: "hits = hit # hs" by (rule run_accesses_ConsE)
  show ?case
  proof (cases k)
    case 0
    with Cons.prems(4) access_hit_iff [OF Cons.prems(1) a] show ?thesis by (simp add: hits)
  next
    case (Suc j)
    have "invar s1" using access_invar [OF Cons.prems(1) a] by simp
    moreover have "j < length xs" "hs ! j" using Cons.prems(3,4) Suc hits by auto
    ultimately have "fst (xs ! j) \<in> resident s1 \<union> fst ` set (take j xs)"
      using Cons.IH [OF _ r] by simp
    with access_conserves [OF Cons.prems(1) a] show ?thesis by (auto simp: Suc)
  qed
qed simp

end

text \<open>
  A policy with one queue evicts only when it is full. (S3-FIFO, whose small queue can
  overflow while the main queue has room, is not one.)
\<close>

locale full_only_policy = tier_policy +
  assumes admit_below: "invar s \<Longrightarrow> card (insert h (resident s)) \<le> capacity s \<Longrightarrow> snd (admit h s) = []"
begin

lemma admit_below_resident:
  assumes "invar s" "card (insert h (resident s)) \<le> capacity s"
  shows "resident (fst (admit h s)) = insert h (resident s)"
  using admit_conserves [OF assms(1) prod.collapse [symmetric], of h] admit_below [OF assms]
  by simp

text \<open>Removing a key frees the room that one demoted victim needs: nothing is lost.\<close>

lemma swap_lossless:
  assumes "invar s" "h \<in> resident s" "remove h s = (b, s1)" "length ev \<le> 1"
  shows "resident (demote_all admit s1 ev) = (resident s - {h}) \<union> set ev"
proof (cases ev)
  case Nil
  then show ?thesis using remove_removes [OF assms(1,3)] by (simp add: demote_all_def)
next
  case (Cons v rest)
  with assms(4) have ev: "ev = [v]" by simp
  have s1: "invar s1" "capacity s1 = capacity s" "resident s1 = resident s - {h}"
    using remove_removes [OF assms(1,3)] by auto
  have "card (insert v (resident s1)) \<le> Suc (card (resident s1))"
    by (rule card_insert_le_m1) (use card_gt_0_iff in auto)
  also have "\<dots> = card (resident s)"
    using finite_resident [OF assms(1)] assms(2) by (simp only: s1 card_Suc_Diff1)
  also have "\<dots> \<le> capacity s1" using bound [OF assms(1)] s1 by simp
  finally have "resident (fst (admit v s1)) = insert v (resident s1)"
    by (rule admit_below_resident [OF s1(1)])
  then show ?thesis by (simp add: ev demote_all_def s1)
qed

end

end
