(* ===== verification/LRU_Policy.thy ===== *)
theory LRU_Policy
  imports Policy_Interface
begin

text \<open>
  The class \<^verbatim>\<open>LRUPolicy\<close> of \<^verbatim>\<open>python/bench/policies.py\<close>: its operations, the
  interpretation of the policy contract on them, and the refinement of a run to its
  specification, the last distinct keys accessed.
\<close>

section \<open>Model\<close>

record lru_policy =
  lru_capacity :: nat
  lru_store :: "(hash_id, unit) odict"

definition lru_init :: "int \<Rightarrow> lru_policy result" where
  "lru_init capacity =
     bind_result (CachePolicy_init capacity) (\<lambda>c. Inr \<lparr>lru_capacity = c, lru_store = []\<rparr>)"

definition lru_contains :: "hash_id \<Rightarrow> lru_policy \<Rightarrow> bool" where
  "lru_contains h s = od_contains h (lru_store s)"

definition lru_touch :: "hash_id \<Rightarrow> lru_policy \<Rightarrow> lru_policy" where
  "lru_touch h s =
     (if od_contains h (lru_store s) then s\<lparr>lru_store := od_move_to_end h (lru_store s)\<rparr> else s)"

definition lru_admit :: "hash_id \<Rightarrow> lru_policy \<Rightarrow> lru_policy \<times> hash_id list" where
  "lru_admit h s =
     (let d = od_move_to_end h (od_set h () (lru_store s));
          (d', evicted) = od_trim (lru_capacity s) d
      in (s\<lparr>lru_store := d'\<rparr>, evicted))"

definition lru_access :: "hash_id \<Rightarrow> int \<Rightarrow> lru_policy \<Rightarrow> bool \<times> lru_policy \<times> hash_id list" where
  "lru_access h block_index s =
     (let hit = od_contains h (lru_store s)
      in if hit then (hit, s\<lparr>lru_store := od_move_to_end h (lru_store s)\<rparr>, [])
         else (let (s', evicted) = lru_admit h s in (hit, s', evicted)))"

definition lru_remove :: "hash_id \<Rightarrow> lru_policy \<Rightarrow> bool \<times> lru_policy" where
  "lru_remove h s = (od_contains h (lru_store s), s\<lparr>lru_store := od_pop h (lru_store s)\<rparr>)"

section \<open>Contract\<close>

definition lru_resident :: "lru_policy \<Rightarrow> hash_id set" where
  "lru_resident s = od_dom (lru_store s)"

definition lru_invar :: "lru_policy \<Rightarrow> bool" where
  "lru_invar s \<longleftrightarrow> od_ok (lru_store s) \<and> length (lru_store s) \<le> lru_capacity s
     \<and> 0 < lru_capacity s"

lemma lru_init_invar: "lru_init c = Inr s \<Longrightarrow>
     lru_invar s \<and> lru_resident s = {} \<and> lru_capacity s = nat c \<and> 0 < c"
  by (auto simp: lru_init_def bind_result_Inr_iff lru_invar_def lru_resident_def)

lemma lru_admit_laws:
  assumes "lru_invar s" and "lru_admit h s = (s', ev)"
  shows "lru_invar s'" "lru_capacity s' = lru_capacity s"
    and "lru_resident s' \<union> set ev = insert h (lru_resident s)"
    and "lru_resident s' \<inter> set ev = {}"
    and "length ev = card (insert h (lru_resident s)) - lru_capacity s"
proof -
  let ?d = "od_move_to_end h (od_set h () (lru_store s))"
  obtain d' where t: "od_trim (lru_capacity s) ?d = (d', ev)" and s': "s' = s\<lparr>lru_store := d'\<rparr>"
    using assms(2) by (auto simp: lru_admit_def Let_def split: prod.splits)
  have ok: "od_ok ?d" using assms(1) by (auto simp: lru_invar_def)
  have keys: "od_dom ?d = insert h (lru_resident s)"
    by (simp add: lru_resident_def)
  note trim = od_trim_sets [OF t]
  show "lru_invar s'" using assms(1) trim(3) [OF ok] trim(4) by (simp add: s' lru_invar_def)
  show "lru_capacity s' = lru_capacity s" by (simp add: s')
  show "lru_resident s' \<union> set ev = insert h (lru_resident s)"
    using trim(1) keys by (simp add: s' lru_resident_def)
  show "lru_resident s' \<inter> set ev = {}"
    using trim(2) [OF ok] by (simp add: s' lru_resident_def)
  show "length ev = card (insert h (lru_resident s)) - lru_capacity s"
    using trim(5) keys card_od_dom [OF ok] by simp
qed

lemma lru_card_insert: "lru_invar s \<Longrightarrow> card (insert h (lru_resident s)) \<le> Suc (lru_capacity s)"
  using card_od_dom [of "lru_store s"]
  by (auto simp: lru_invar_def lru_resident_def card_insert_if)

lemma lru_move_keeps:
  "lru_invar s \<Longrightarrow> lru_invar (s\<lparr>lru_store := od_move_to_end h (lru_store s)\<rparr>)"
  "lru_resident (s\<lparr>lru_store := od_move_to_end h (lru_store s)\<rparr>) = lru_resident s"
  by (auto simp: lru_invar_def lru_resident_def)

lemma lru_access_miss:
  "h \<notin> lru_resident s \<Longrightarrow> lru_access h i s = (False, lru_admit h s)"
  by (auto simp: lru_access_def lru_resident_def split: prod.splits)

lemma lru_access_hit:
  "h \<in> lru_resident s \<Longrightarrow>
     lru_access h i s = (True, s\<lparr>lru_store := od_move_to_end h (lru_store s)\<rparr>, [])"
  by (auto simp: lru_access_def lru_resident_def)

interpretation lru: tier_policy lru_capacity lru_resident lru_invar lru_contains lru_touch lru_admit lru_remove
proof (unfold_locales, goal_cases)
  case 1 then show ?case by (simp add: lru_resident_def)
next
  case 2 then show ?case by (simp add: lru_resident_def lru_invar_def card_od_dom)
next
  case 3 then show ?case by (simp add: lru_contains_def lru_resident_def)
next
  case 4 then show ?case by (simp add: lru_touch_def lru_move_keeps)
next
  case 5 then show ?case using lru_admit_laws(1,2) by blast
next
  case 6 then show ?case using lru_admit_laws(3,4) by blast
next
  case (7 s h s' ev) then show ?case using lru_admit_laws(5) lru_card_insert [of s h] by simp
next
  case 8 then show ?case
    by (auto simp: lru_remove_def lru_invar_def lru_resident_def
        intro: le_trans [OF length_od_pop_le])
qed

interpretation lru: cache_policy lru_capacity lru_resident lru_contains lru_touch lru_admit lru_remove lru_invar lru_access
proof (unfold_locales, goal_cases)
  case (1 s h) then show ?case
    by (cases "h \<in> lru_resident s")
      (auto simp: lru_access_hit lru_access_miss lru_move_keeps dest: lru_admit_laws(1,2))
next
  case (2 s h) then show ?case
    by (cases "h \<in> lru_resident s") (auto simp: lru_access_hit lru_access_miss)
next
  case (3 s h) then show ?case
    by (cases "h \<in> lru_resident s") (auto simp: lru_access_hit lru_access_miss lru_move_keeps)
next
  case (4 s h i hit s' ev) then show ?case
    using lru_admit_laws(3,4) [of s h s' ev]
    by (cases "h \<in> lru_resident s") (auto simp: lru_access_hit lru_access_miss lru_move_keeps)
qed

interpretation lru: full_only_policy lru_capacity lru_resident lru_invar lru_contains lru_touch lru_admit lru_remove
proof (unfold_locales, goal_cases)
  case (1 s h) then show ?case using lru_admit_laws(5) [OF 1(1) prod.collapse [symmetric], of h] by simp
qed

section \<open>Refinement: the last distinct keys\<close>

text \<open>
  The specification of an LRU cache of capacity \<open>n\<close> after the accesses \<open>hs\<close>: the last
  \<open>n\<close> distinct keys, least recently used first. \<^const>\<open>remdups\<close> keeps the last
  occurrence of each key.
\<close>

definition lastn :: "nat \<Rightarrow> 'a list \<Rightarrow> 'a list" where
  "lastn n xs = drop (length xs - n) xs"

definition recent :: "nat \<Rightarrow> 'a list \<Rightarrow> 'a list" where
  "recent n hs = lastn n (remdups hs)"

lemma lastn_append_long: "n \<le> length v \<Longrightarrow> lastn n (u @ v) = lastn n v"
  by (simp add: lastn_def)

lemma remdups_snoc: "remdups (hs @ [h]) = filter (\<lambda>x. x \<noteq> h) (remdups hs) @ [h]"
  by (induction hs) auto

lemma distinct_recent: "distinct (recent n hs)"
  by (simp add: recent_def lastn_def)

lemma recent_mono: "n \<le> m \<Longrightarrow> set (recent n hs) \<subseteq> set (recent m hs)"
  unfolding recent_def lastn_def by (rule set_drop_subset_set_drop) simp

lemma recent_snoc:
  assumes "0 < n"
  shows "recent n (hs @ [h]) =
    (if h \<in> set (recent n hs) then filter (\<lambda>x. x \<noteq> h) (recent n hs) @ [h]
     else lastn n (recent n hs @ [h]))"
proof -
  define r where "r = remdups hs"
  define a where "a = take (length r - n) r"
  define b where "b = recent n hs"
  have r: "r = a @ b" and b: "b = lastn n r"
    by (simp_all add: a_def b_def recent_def lastn_def r_def)
  have ab: "distinct a" "distinct b" "set a \<inter> set b = {}"
    using r distinct_remdups [of hs] unfolding r_def by (metis distinct_append)+
  have len: "length b = n \<or> a = []" by (auto simp: b lastn_def a_def)
  have step: "recent n (hs @ [h]) = lastn n (filter (\<lambda>x. x \<noteq> h) a @ (filter (\<lambda>x. x \<noteq> h) b @ [h]))"
    by (simp add: recent_def remdups_snoc flip: r_def) (simp add: r)
  show ?thesis
  proof (cases "h \<in> set b")
    case True
    then have "length (filter (\<lambda>x. x \<noteq> h) b @ [h]) = length b"
      using ab(2) by (simp add: distinct_length_filter set_diff_eq [symmetric] Collect_conj_eq
          distinct_card [symmetric] Int_commute)
        (metis Diff_eq card_Suc_Diff1 Collect_neg_eq finite_set singleton_conv)
    moreover have "length b \<le> n" by (simp add: b lastn_def)
    ultimately have "recent n (hs @ [h]) = filter (\<lambda>x. x \<noteq> h) b @ [h]"
      using len by (auto simp: step lastn_append_long) (simp_all add: lastn_def)
    with True show ?thesis by (simp add: b_def)
  next
    case False
    then have "filter (\<lambda>x. x \<noteq> h) b = b" by (auto simp: filter_id_conv)
    with False len show ?thesis
      by (auto simp: step lastn_append_long b_def [symmetric])
  qed
qed

lemma lru_access_keys:
  assumes "lru_access h i s = (hit, s', ev)"
  shows "od_keys (lru_store s') =
      (if h \<in> set (od_keys (lru_store s)) then filter (\<lambda>x. x \<noteq> h) (od_keys (lru_store s)) @ [h]
       else lastn (lru_capacity s) (od_keys (lru_store s) @ [h]))"
proof (cases "h \<in> lru_resident s")
  case True
  with assms show ?thesis by (auto simp: lru_access_hit lru_resident_def od_simps)
next
  case False
  then have keys: "od_keys (od_move_to_end h (od_set h () (lru_store s))) = od_keys (lru_store s) @ [h]"
    by (auto simp: od_keys_move od_keys_set lru_resident_def filter_id_conv)
  then have "length (od_move_to_end h (od_set h () (lru_store s))) = Suc (length (lru_store s))"
    by (metis length_append_singleton length_map)
  with False assms keys show ?thesis
    by (auto simp: lru_access_miss lru_admit_def lru_resident_def od_trim_eq lastn_def Let_def
        simp flip: drop_map)
qed

lemma lru_run_recent_from:
  assumes "lru_invar s" "od_keys (lru_store s) = recent (lru_capacity s) hs"
    and "run_accesses lru_access xs s = (hits, s')"
  shows "od_keys (lru_store s') = recent (lru_capacity s) (hs @ map fst xs)
    \<and> (\<forall>k < length xs. hits ! k \<longleftrightarrow>
          fst (xs ! k) \<in> set (recent (lru_capacity s) (hs @ map fst (take k xs))))"
  using assms
proof (induction xs arbitrary: s hs hits)
  case (Cons x xs)
  from Cons.prems(3) obtain hit s1 ev hits1 where
    a: "lru_access (fst x) (snd x) s = (hit, s1, ev)" and r: "run_accesses lru_access xs s1 = (hits1, s')"
    and hits: "hits = hit # hits1" by (rule run_accesses_ConsE)
  have s1: "lru_invar s1" "lru_capacity s1 = lru_capacity s"
    using lru.access_invar [OF Cons.prems(1) a] by auto
  have "od_keys (lru_store s1) = recent (lru_capacity s1) (hs @ [fst x])"
    using lru_access_keys [OF a] Cons.prems(1,2) by (simp add: recent_snoc s1 lru_invar_def)
  note IH = Cons.IH [OF s1(1) this r, unfolded s1(2)]
  have "hit \<longleftrightarrow> fst x \<in> set (recent (lru_capacity s) hs)"
    using lru.access_hit_iff [OF Cons.prems(1) a] unfolding Cons.prems(2) [symmetric]
    by (simp add: lru_resident_def)
  then have "hits ! k \<longleftrightarrow> fst ((x # xs) ! k) \<in> set (recent (lru_capacity s) (hs @ map fst (take k (x # xs))))"
    if "k < length (x # xs)" for k using that IH by (cases k) (simp_all add: hits)
  with IH show ?case by simp
qed simp

lemma lru_run_recent:
  assumes "lru_init c = Inr s" and "run_accesses lru_access xs s = (hits, s')"
  shows "od_keys (lru_store s') = recent (nat c) (map fst xs)"
    and "k < length xs \<Longrightarrow> hits ! k \<longleftrightarrow> fst (xs ! k) \<in> set (recent (nat c) (map fst (take k xs)))"
proof -
  have s: "s = \<lparr>lru_capacity = nat c, lru_store = []\<rparr>" "0 < c"
    using assms(1) by (auto simp: lru_init_def bind_result_Inr_iff)
  then have "lru_invar s" "od_keys (lru_store s) = recent (lru_capacity s) []"
    by (auto simp: lru_invar_def recent_def lastn_def)
  from lru_run_recent_from [OF this assms(2)]
  show "od_keys (lru_store s') = recent (nat c) (map fst xs)"
    and "k < length xs \<Longrightarrow> hits ! k \<longleftrightarrow> fst (xs ! k) \<in> set (recent (nat c) (map fst (take k xs)))"
    by (auto simp: s)
qed

lemma lru_run_inclusion:
  assumes "lru_init c = Inr s" "run_accesses lru_access xs s = (hits, s')"
    and "lru_init d = Inr t" "run_accesses lru_access xs t = (hits2, t')"
    and "c \<le> d"
  shows "lru_resident s' \<subseteq> lru_resident t' \<and> (\<forall>k < length xs. hits ! k \<longrightarrow> hits2 ! k)"
proof -
  have sub: "set (recent (nat c) hs) \<subseteq> set (recent (nat d) hs)" for hs :: "hash_id list"
    by (rule recent_mono) (use assms(5) in simp)
  have "lru_resident s' = set (recent (nat c) (map fst xs))" "lru_resident t' = set (recent (nat d) (map fst xs))"
    using lru_run_recent(1) [OF assms(1,2)] lru_run_recent(1) [OF assms(3,4)]
    by (simp_all add: lru_resident_def od_dom_def)
  with sub show ?thesis
    using lru_run_recent(2) [OF assms(1,2)] lru_run_recent(2) [OF assms(3,4)] by blast
qed

section \<open>Properties\<close>

text \<open>C5. After any sequence of accesses to a fresh LRU policy of capacity \<open>c\<close>, its store holds
  exactly the last \<open>c\<close> distinct keys, least recently used first, and an access is a hit exactly
  when its key is among the last \<open>c\<close> distinct keys of the accesses before it.\<close>

theorem lru_refines_recent:
  assumes "lru_init c = Inr s" and "run_accesses lru_access xs s = (hits, s')"
  shows "od_keys (lru_store s') = recent (nat c) (map fst xs)
    \<and> hits = map (\<lambda>k. fst (xs ! k) \<in> set (recent (nat c) (map fst (take k xs)))) [0..<length xs]"
proof -
  have "lru_invar s" using lru_init_invar [OF assms(1)] by simp
  then have "length hits = length xs" using lru.run_invar [OF _ assms(2)] by simp
  then show ?thesis
    using lru_run_recent [OF assms] by (auto intro!: nth_equalityI)
qed

theorem lru_refines_recent_witness:
  "run_accesses lru_access [(7, 0), (8, 1), (7, 0), (9, 1), (8, 0)] \<lparr>lru_capacity = 2, lru_store = []\<rparr>
     = ([False, False, True, False, False], \<lparr>lru_capacity = 2, lru_store = [(9, ()), (8, ())]\<rparr>)
   \<and> [9, 8] = recent 2 [7, 8, 7, 9, 8 :: int]"
proof -
  have i: "lru_init 2 = Inr \<lparr>lru_capacity = 2, lru_store = []\<rparr>" by code_simp
  have r: "run_accesses lru_access [(7, 0), (8, 1), (7, 0), (9, 1), (8, 0)] \<lparr>lru_capacity = 2, lru_store = []\<rparr>
     = ([False, False, True, False, False], \<lparr>lru_capacity = 2, lru_store = [(9, ()), (8, ())]\<rparr>)"
    by code_simp
  from lru_refines_recent [OF i r] r show ?thesis by simp
qed

text \<open>A larger LRU policy fed the same accesses never misses where a smaller one hits, and
  keeps every key the smaller one keeps: LRU has no Belady anomaly.\<close>

lemma lru_inclusion:
  assumes "lru_init c = Inr s" "run_accesses lru_access xs s = (hits, s')"
    and "lru_init d = Inr t" "run_accesses lru_access xs t = (hits2, t')"
    and "c \<le> d"
  shows "lru_resident s' \<subseteq> lru_resident t' \<and> (\<forall>k < length xs. hits ! k \<longrightarrow> hits2 ! k)"
  by (rule lru_run_inclusion [OF assms])

end
