(* ===== verification/Sieve_Policy.thy ===== *)
theory Sieve_Policy
  imports Policy_Interface
begin

text \<open>
  The class \<^verbatim>\<open>SievePolicy\<close> of \<^verbatim>\<open>python/bench/policies.py\<close>: a queue in insertion order, a
  visited bit per entry and an eviction hand that clears visited bits until it meets an
  entry without one.
\<close>

section \<open>Model\<close>

record sieve_policy =
  sieve_capacity :: nat
  sieve_store :: "(hash_id, bool) odict"
  sieve_cursor :: "hash_id option"

definition sieve_init :: "int \<Rightarrow> sieve_policy result" where
  "sieve_init capacity =
     bind_result (CachePolicy_init capacity)
       (\<lambda>c. Inr \<lparr>sieve_capacity = c, sieve_store = [], sieve_cursor = None\<rparr>)"

text \<open>Storing \<open>False\<close> over a set bit lowers the number of set bits: the loop ends.\<close>

lemma length_filter_od_set_False:
  "map_of d k = Some True \<Longrightarrow> length (filter snd (od_set k False d)) < length (filter snd d)"
  unfolding od_set_def by (induction d) (auto split: if_splits)

text \<open>
  The loop of \<^verbatim>\<open>_evict\<close>: \<open>keys\<close> is the snapshot of the keys, \<open>i\<close> the hand. It returns the
  store with the passed bits cleared and the position where it stopped.
\<close>

function sieve_scan :: "hash_id list \<Rightarrow> (hash_id, bool) odict \<Rightarrow> nat \<Rightarrow> (hash_id, bool) odict \<times> nat"
where
  "sieve_scan keys d i =
     (let key = keys ! (i mod length keys)
      in if map_of d key = Some True then sieve_scan keys (od_set key False d) (i + 1)
         else (d, i))"
  by pat_completeness auto
termination
  by (relation "measure (\<lambda>(keys, d, i). length (filter snd d))")
    (auto simp: length_filter_od_set_False)

declare sieve_scan.simps [simp del]

definition sieve_start :: "sieve_policy \<Rightarrow> nat" where
  "sieve_start s =
     (case sieve_cursor s of
        None \<Rightarrow> 0
      | Some c \<Rightarrow> if od_contains c (sieve_store s)
                 then length (takeWhile (\<lambda>k. k \<noteq> c) (od_keys (sieve_store s))) else 0)"

definition sieve_evict :: "sieve_policy \<Rightarrow> sieve_policy \<times> hash_id list" where
  "sieve_evict s =
     (let keys = od_keys (sieve_store s)
      in if keys = [] then (s, [])
         else
           (let n = length keys;
                (d, i) = sieve_scan keys (sieve_store s) (sieve_start s);
                key = keys ! (i mod n)
            in (s\<lparr>sieve_cursor := (if n > 1 then Some (keys ! ((i + 1) mod n)) else None),
                  sieve_store := od_pop key d\<rparr>, [key])))"

definition sieve_contains :: "hash_id \<Rightarrow> sieve_policy \<Rightarrow> bool" where
  "sieve_contains h s = od_contains h (sieve_store s)"

definition sieve_touch :: "hash_id \<Rightarrow> sieve_policy \<Rightarrow> sieve_policy" where
  "sieve_touch h s =
     (if od_contains h (sieve_store s) then s\<lparr>sieve_store := od_set h True (sieve_store s)\<rparr> else s)"

definition sieve_admit :: "hash_id \<Rightarrow> sieve_policy \<Rightarrow> sieve_policy \<times> hash_id list" where
  "sieve_admit h s =
     (if od_contains h (sieve_store s) then (s, [])
      else
        (let (s1, evicted) =
               (if length (sieve_store s) \<ge> sieve_capacity s then sieve_evict s else (s, []))
         in (s1\<lparr>sieve_store := od_set h False (sieve_store s1)\<rparr>, evicted)))"

definition sieve_access ::
  "hash_id \<Rightarrow> int \<Rightarrow> sieve_policy \<Rightarrow> bool \<times> sieve_policy \<times> hash_id list" where
  "sieve_access h block_index s =
     (if od_contains h (sieve_store s)
      then (True, s\<lparr>sieve_store := od_set h True (sieve_store s)\<rparr>, [])
      else (let (s', evicted) = sieve_admit h s in (False, s', evicted)))"

definition sieve_remove :: "hash_id \<Rightarrow> sieve_policy \<Rightarrow> bool \<times> sieve_policy" where
  "sieve_remove h s =
     (od_contains h (sieve_store s), s\<lparr>sieve_store := od_pop h (sieve_store s)\<rparr>)"

section \<open>The hand\<close>

lemma od_set_present_keys: "k \<in> od_dom d \<Longrightarrow> od_keys (od_set k v d) = od_keys d"
  by (simp add: od_keys_set)

abbreviation hand_key :: "hash_id list \<Rightarrow> nat \<Rightarrow> hash_id" where
  "hand_key keys i \<equiv> keys ! (i mod length keys)"

lemma sieve_scan_step:
  "map_of d (hand_key keys i) = Some True \<Longrightarrow>
     sieve_scan keys d i = sieve_scan keys (od_set (hand_key keys i) False d) (Suc i)"
  "map_of d (hand_key keys i) \<noteq> Some True \<Longrightarrow> sieve_scan keys d i = (d, i)"
  by (simp_all add: sieve_scan.simps [of keys d i])

lemma sieve_scan_induct [case_names visited stop]:
  assumes "\<And>keys d i. map_of d (hand_key keys i) = Some True \<Longrightarrow>
      P keys (od_set (hand_key keys i) False d) (Suc i) \<Longrightarrow> P keys d i"
    and "\<And>keys d i. map_of d (hand_key keys i) \<noteq> Some True \<Longrightarrow> P keys d i"
  shows "P keys d i"
proof (induction keys d i rule: sieve_scan.induct)
  case (1 keys d i)
  then show ?case using assms by (cases "map_of d (hand_key keys i) = Some True") auto
qed

text \<open>
  What the scan does: it never changes the keys; every entry it passes had its bit set at
  the start; it stops at a clear bit, either clear from the start or cleared by the hand
  itself; and it makes at most as many steps as there are set bits.
\<close>

lemma sieve_scan_keys: "od_keys (fst (sieve_scan keys d i)) = od_keys d"
proof (induction keys d i rule: sieve_scan_induct)
  case (visited keys d i)
  then have "hand_key keys i \<in> od_dom d" using map_of_od_dom [of d] by force
  with visited show ?case by (simp add: sieve_scan_step od_set_present_keys)
qed (simp add: sieve_scan_step)

lemma sieve_scan_steps:
  "i \<le> snd (sieve_scan keys d i) \<and> snd (sieve_scan keys d i) \<le> i + length (filter snd d)"
proof (induction keys d i rule: sieve_scan_induct)
  case (visited keys d i)
  with length_filter_od_set_False [OF visited(1)] show ?case by (simp add: sieve_scan_step)
qed (simp add: sieve_scan_step)

lemma sieve_scan_passed:
  "i \<le> m \<Longrightarrow> m < snd (sieve_scan keys d i) \<Longrightarrow> map_of d (hand_key keys m) = Some True"
proof (induction keys d i rule: sieve_scan_induct)
  case (visited keys d i)
  show ?case
  proof (cases "m = i")
    case False
    with visited have "map_of (od_set (hand_key keys i) False d) (hand_key keys m) = Some True"
      by (simp add: sieve_scan_step)
    then show ?thesis by (simp split: if_splits)
  qed (use visited in simp)
qed (simp add: sieve_scan_step)

lemma sieve_scan_stops:
  "sieve_scan keys d i = (d', i') \<Longrightarrow> map_of d (hand_key keys i') = Some True \<Longrightarrow>
     \<exists>m. i \<le> m \<and> m < i' \<and> hand_key keys m = hand_key keys i'"
proof (induction keys d i rule: sieve_scan_induct)
  case (visited keys d i)
  then have step: "sieve_scan keys (od_set (hand_key keys i) False d) (Suc i) = (d', i')"
    by (simp add: sieve_scan_step)
  have "i < i'" using sieve_scan_steps [of "Suc i" keys] step by (metis Suc_le_eq snd_conv)
  show ?case
  proof (cases "hand_key keys i' = hand_key keys i")
    case True
    with \<open>i < i'\<close> show ?thesis by (intro exI [of _ i]) simp
  next
    case False
    with visited.prems(2) have "map_of (od_set (hand_key keys i) False d) (hand_key keys i') = Some True"
      by simp
    with visited.IH [OF step] show ?thesis using Suc_leD by blast
  qed
qed (simp add: sieve_scan_step)

text \<open>A full turn of the hand passes every key.\<close>

lemma full_turn:
  assumes "i \<le> m" "m < i'" "hand_key keys m = hand_key keys i'" "distinct keys" "k \<in> set keys"
  shows "\<exists>j. i \<le> j \<and> j < i' \<and> hand_key keys j = k"
proof -
  let ?n = "length keys"
  have n: "0 < ?n" using assms(5) by auto
  obtain p where p: "p < ?n" "keys ! p = k" using assms(5) by (auto simp: in_set_conv_nth)
  have "m mod ?n = i' mod ?n"
    using assms(3,4) n by (simp add: nth_eq_iff_index_eq)
  then have "?n dvd i' - m" using assms(2) by (metis mod_eq_dvd_iff_nat less_imp_le)
  then have "m + ?n \<le> i'" using assms(2) by (auto dest: dvd_imp_le)
  moreover obtain q r where m: "m = q * ?n + r" and r: "r < ?n"
    using n by (metis div_mult_mod_eq mod_less_divisor)
  then obtain j where "m \<le> j" "j < m + ?n" "j mod ?n = p"
    using p(1) that [of "(if r \<le> p then q else Suc q) * ?n + p"] by (auto split: if_splits)
  ultimately show ?thesis using assms(1) p by (intro exI [of _ j]) auto
qed

section \<open>Contract\<close>

definition sieve_resident :: "sieve_policy \<Rightarrow> hash_id set" where
  "sieve_resident s = od_dom (sieve_store s)"

definition sieve_invar :: "sieve_policy \<Rightarrow> bool" where
  "sieve_invar s \<longleftrightarrow> od_ok (sieve_store s) \<and> length (sieve_store s) \<le> sieve_capacity s
     \<and> 0 < sieve_capacity s"

lemma sieve_init_invar: "sieve_init c = Inr s \<Longrightarrow>
     sieve_invar s \<and> sieve_resident s = {} \<and> sieve_capacity s = nat c \<and> 0 < c"
  by (auto simp: sieve_init_def bind_result_Inr_iff sieve_invar_def sieve_resident_def)

lemma sieve_evict_laws:
  assumes "od_ok (sieve_store s)" "sieve_store s \<noteq> []"
  obtains d i v where
    "sieve_scan (od_keys (sieve_store s)) (sieve_store s) (sieve_start s) = (d, i)"
    and "v = hand_key (od_keys (sieve_store s)) i"
    and "snd (sieve_evict s) = [v]" "v \<in> od_dom (sieve_store s)"
    and "sieve_store (fst (sieve_evict s)) = od_pop v d" "od_keys d = od_keys (sieve_store s)"
    and "sieve_capacity (fst (sieve_evict s)) = sieve_capacity s"
proof -
  let ?keys = "od_keys (sieve_store s)"
  obtain d i where scan: "sieve_scan ?keys (sieve_store s) (sieve_start s) = (d, i)"
    by (cases "sieve_scan ?keys (sieve_store s) (sieve_start s)")
  have "hand_key ?keys i \<in> set ?keys" using assms(2) by (intro nth_mem) simp
  moreover have "od_keys d = ?keys"
    using sieve_scan_keys [of ?keys "sieve_store s" "sieve_start s"] by (simp add: scan)
  ultimately show ?thesis
    using that [OF scan refl] assms(2) by (simp add: sieve_evict_def scan Let_def)
qed

lemma sieve_admit_laws:
  assumes "sieve_invar s" and "sieve_admit h s = (s', ev)"
  shows "sieve_invar s'" "sieve_capacity s' = sieve_capacity s"
    and "sieve_resident s' \<union> set ev = insert h (sieve_resident s)"
    and "sieve_resident s' \<inter> set ev = {}"
    and "length ev \<le> card (insert h (sieve_resident s)) - sieve_capacity s"
proof -
  have ok: "od_ok (sieve_store s)" using assms(1) by (simp add: sieve_invar_def)
  note card = card_od_dom [OF ok]
  have "sieve_invar s' \<and> sieve_capacity s' = sieve_capacity s
    \<and> sieve_resident s' \<union> set ev = insert h (sieve_resident s)
    \<and> sieve_resident s' \<inter> set ev = {}
    \<and> length ev \<le> card (insert h (sieve_resident s)) - sieve_capacity s"
  proof -
    consider (present) "h \<in> od_dom (sieve_store s)"
      | (room) "h \<notin> od_dom (sieve_store s)" "\<not> length (sieve_store s) \<ge> sieve_capacity s"
      | (full) "h \<notin> od_dom (sieve_store s)" "length (sieve_store s) \<ge> sieve_capacity s" by blast
    then show ?thesis
  proof cases
    case present
    with assms show ?thesis by (auto simp: sieve_admit_def sieve_resident_def insert_absorb)
  next
    case room
    with assms show ?thesis
      by (auto simp: sieve_admit_def sieve_invar_def sieve_resident_def length_od_set)
  next
    case full
    then have ne: "sieve_store s \<noteq> []" using assms(1) by (auto simp: sieve_invar_def)
    from sieve_evict_laws [OF ok ne] obtain d v where
      v: "snd (sieve_evict s) = [v]" "v \<in> od_dom (sieve_store s)"
      and d: "sieve_store (fst (sieve_evict s)) = od_pop v d" "od_keys d = od_keys (sieve_store s)"
      and c: "sieve_capacity (fst (sieve_evict s)) = sieve_capacity s" by (metis (no_types))
    have dom: "od_dom d = od_dom (sieve_store s)" "length d = length (sieve_store s)" "od_ok d"
      using d(2) ok by (metis od_dom_def, metis length_map, simp)
    have "length (od_pop v d) < length d"
      unfolding od_pop_def by (rule length_delete_less) (use v dom in simp)
    moreover have "s' = (fst (sieve_evict s))\<lparr>sieve_store := od_set h False (od_pop v d)\<rparr>" "ev = [v]"
      using full assms(2) v(1) d(1) by (auto simp: sieve_admit_def split: prod.splits)
    ultimately show ?thesis
      using full assms(1) v dom c card
      by (auto simp: sieve_invar_def sieve_resident_def length_od_set od_ok_set od_ok_pop)
  qed
  qed
  then show "sieve_invar s'" "sieve_capacity s' = sieve_capacity s"
    and "sieve_resident s' \<union> set ev = insert h (sieve_resident s)"
    and "sieve_resident s' \<inter> set ev = {}"
    and "length ev \<le> card (insert h (sieve_resident s)) - sieve_capacity s" by auto
qed

lemma sieve_card_insert:
  "sieve_invar s \<Longrightarrow> card (insert h (sieve_resident s)) \<le> Suc (sieve_capacity s)"
  using card_od_dom [of "sieve_store s"]
  by (auto simp: sieve_invar_def sieve_resident_def card_insert_if)

lemma sieve_mark_keeps:
  assumes "h \<in> sieve_resident s"
  shows "sieve_invar s \<Longrightarrow> sieve_invar (s\<lparr>sieve_store := od_set h True (sieve_store s)\<rparr>)"
    and "sieve_resident (s\<lparr>sieve_store := od_set h True (sieve_store s)\<rparr>) = sieve_resident s"
  using assms by (auto simp: sieve_invar_def sieve_resident_def length_od_set)

lemma sieve_access_eq:
  "h \<in> sieve_resident s \<Longrightarrow>
     sieve_access h i s = (True, s\<lparr>sieve_store := od_set h True (sieve_store s)\<rparr>, [])"
  "h \<notin> sieve_resident s \<Longrightarrow> sieve_access h i s = (False, sieve_admit h s)"
  by (auto simp: sieve_access_def sieve_resident_def split: prod.splits)

interpretation sieve: tier_policy sieve_capacity sieve_resident sieve_invar sieve_contains sieve_touch sieve_admit sieve_remove
proof (unfold_locales, goal_cases)
  case 1 then show ?case by (simp add: sieve_resident_def)
next
  case 2 then show ?case by (simp add: sieve_resident_def sieve_invar_def card_od_dom)
next
  case 3 then show ?case by (simp add: sieve_contains_def sieve_resident_def)
next
  case (4 s h) then show ?case using sieve_mark_keeps [of h s]
    by (auto simp: sieve_touch_def sieve_resident_def)
next
  case 5 then show ?case using sieve_admit_laws(1,2) by blast
next
  case 6 then show ?case using sieve_admit_laws(3,4) by blast
next
  case (7 s h s' ev) then show ?case
    using sieve_admit_laws(5) [OF 7] sieve_card_insert [OF 7(1), of h] by simp
next
  case 8 then show ?case
    by (auto simp: sieve_remove_def sieve_invar_def sieve_resident_def
        intro: le_trans [OF length_od_pop_le])
qed

interpretation sieve: cache_policy sieve_capacity sieve_resident sieve_contains sieve_touch sieve_admit sieve_remove sieve_invar sieve_access
proof (unfold_locales, goal_cases)
  case (1 s h) then show ?case
    by (cases "h \<in> sieve_resident s")
      (auto simp: sieve_access_eq sieve_mark_keeps dest: sieve_admit_laws(1,2))
next
  case (2 s h) then show ?case
    by (cases "h \<in> sieve_resident s") (auto simp: sieve_access_eq)
next
  case (3 s h) then show ?case
    by (cases "h \<in> sieve_resident s") (auto simp: sieve_access_eq sieve_mark_keeps)
next
  case (4 s h i hit s' ev) then show ?case
    using sieve_admit_laws(3,4) [of s h s' ev]
    by (cases "h \<in> sieve_resident s") (auto simp: sieve_access_eq sieve_mark_keeps)
qed

interpretation sieve: full_only_policy sieve_capacity sieve_resident sieve_invar sieve_contains sieve_touch sieve_admit sieve_remove
proof (unfold_locales, goal_cases)
  case (1 s h) then show ?case
    using sieve_admit_laws(5) [OF 1(1) prod.collapse [symmetric], of h] by simp
qed

section \<open>Second chance\<close>

text \<open>
  The victim is an entry that has not been visited since the hand last passed it, unless
  every entry has been visited; and the hand makes at most one turn.
\<close>

lemma sieve_evict_second_chance:
  assumes "od_ok (sieve_store s)" "snd (sieve_evict s) = [v]"
  shows "map_of (sieve_store s) v = Some False
    \<or> (\<forall>k \<in> od_dom (sieve_store s). map_of (sieve_store s) k = Some True)"
proof -
  let ?d = "sieve_store s" and ?keys = "od_keys (sieve_store s)"
  have ne: "sieve_store s \<noteq> []" using assms(2) by (auto simp: sieve_evict_def)
  from sieve_evict_laws [OF assms(1) ne] obtain d i where
    scan: "sieve_scan ?keys ?d (sieve_start s) = (d, i)"
    and v: "v = hand_key ?keys i" "v \<in> od_dom ?d"
    using assms(2) by (metis list.inject)
  show ?thesis
  proof (cases "map_of ?d v = Some True")
    case True
    then obtain m where m: "sieve_start s \<le> m" "m < i" "hand_key ?keys m = hand_key ?keys i"
      using sieve_scan_stops [OF scan] v(1) by auto
    have "map_of ?d k = Some True" if "k \<in> od_dom ?d" for k
    proof -
      from that have "k \<in> set ?keys" by simp
      from full_turn [OF m assms(1) this] obtain j where
        "sieve_start s \<le> j" "j < i" "hand_key ?keys j = k" by blast
      with sieve_scan_passed [of "sieve_start s" j ?keys ?d] scan show ?thesis by simp
    qed
    then show ?thesis by blast
  next
    case False
    then show ?thesis using v(2) map_of_od_dom [of ?d v] by (cases "map_of ?d v") auto
  qed
qed

section \<open>Properties\<close>

text \<open>C32. Admitting a new key to a full SIEVE policy evicts exactly one entry, and that entry has
  its visited bit clear unless every entry of the queue has it set; the eviction loop always
  ends, as \<open>sieve_scan\<close> is total.\<close>

theorem sieve_evicts_unvisited:
  assumes "sieve_invar s" "h \<notin> sieve_resident s" "card (sieve_resident s) = sieve_capacity s"
  shows "\<exists>v. snd (sieve_admit h s) = [v] \<and> v \<in> sieve_resident s
    \<and> (map_of (sieve_store s) v = Some False
       \<or> (\<forall>k \<in> sieve_resident s. map_of (sieve_store s) k = Some True))"
proof -
  have ok: "od_ok (sieve_store s)" and "length (sieve_store s) = sieve_capacity s" "sieve_store s \<noteq> []"
    using assms(1,3) by (auto simp: sieve_invar_def sieve_resident_def card_od_dom)
  then have adm: "snd (sieve_admit h s) = snd (sieve_evict s)"
    using assms(2) by (auto simp: sieve_admit_def sieve_resident_def split: prod.splits)
  from sieve_evict_laws [OF ok \<open>sieve_store s \<noteq> []\<close>] obtain v where
    v: "snd (sieve_evict s) = [v]" "v \<in> od_dom (sieve_store s)" by (metis (no_types))
  with sieve_evict_second_chance [OF ok v(1)] adm show ?thesis by (auto simp: sieve_resident_def)
qed

theorem sieve_evicts_unvisited_witness:
  "\<exists>v. snd (sieve_admit 3 \<lparr>sieve_capacity = 2, sieve_store = [(1, True), (2, False)], sieve_cursor = None\<rparr>) = [v]
     \<and> v = 2"
proof -
  let ?s = "\<lparr>sieve_capacity = 2, sieve_store = [(1, True), (2, False)], sieve_cursor = None\<rparr>"
  have "sieve_invar ?s" "3 \<notin> sieve_resident ?s" "card (sieve_resident ?s) = sieve_capacity ?s"
    by code_simp+
  from sieve_evicts_unvisited [OF this] show ?thesis by (auto simp: sieve_resident_def split: if_splits)
qed

end
