(* ===== verification/S3Fifo_Policy.thy ===== *)
theory S3Fifo_Policy
  imports Policy_Interface
begin

text \<open>
  The classes \<^verbatim>\<open>S3FifoPolicy\<close> and \<^verbatim>\<open>S3FifoPrefixPolicy\<close> of \<^verbatim>\<open>python/bench/policies.py\<close>: a
  small queue for new keys, a main queue with second chances for reused ones, and a ghost
  queue that remembers the keys the small queue dropped. The subclass is a record that
  extends the record of its base class, and the operations of the base class are typed
  over every extension.
\<close>

section \<open>Model of S3FifoPolicy\<close>

record s3fifo =
  s3_capacity :: nat
  s3_small_cap :: nat
  s3_main_cap :: nat
  s3_ghost_cap :: nat
  s3_small :: "(hash_id, nat) odict"
  s3_main :: "(hash_id, nat) odict"
  s3_ghost :: "(hash_id, unit) odict"

definition s3_init :: "int \<Rightarrow> s3fifo result" where
  "s3_init capacity =
     bind_result (CachePolicy_init capacity)
       (\<lambda>c. let small_cap = max 1 (c div 10)
            in Inr \<lparr>s3_capacity = c, s3_small_cap = small_cap, s3_main_cap = c - small_cap,
                    s3_ghost_cap = c * 2, s3_small = [], s3_main = [], s3_ghost = []\<rparr>)"

abbreviation freq_sum :: "(hash_id, nat) odict \<Rightarrow> nat" where
  "freq_sum d \<equiv> sum_list (map snd d)"

lemma freq_sum_od_set_le: "freq_sum (od_set k v d) \<le> freq_sum d + v"
  unfolding od_set_def by (induction d) auto

text \<open>
  The loop of \<^verbatim>\<open>_insert_main\<close>: the oldest entry is re-queued with a lower frequency while
  it has one, and evicted otherwise. Every round lowers the length plus the frequencies.
\<close>

function s3_main_loop :: "nat \<Rightarrow> (hash_id, nat) odict \<Rightarrow> (hash_id, nat) odict \<times> hash_id list" where
  "s3_main_loop cap [] = ([], [])"
| "s3_main_loop cap ((victim, freq) # rest) =
     (if length ((victim, freq) # rest) > cap
      then (if freq > 0 then s3_main_loop cap (od_set victim (freq - 1) rest)
            else (let (d, evicted) = s3_main_loop cap rest in (d, victim # evicted)))
      else ((victim, freq) # rest, []))"
  by pat_completeness auto
termination
proof (relation "measure (\<lambda>(cap, d). length d + freq_sum d)", goal_cases)
  case (2 cap victim freq rest)
  then show ?case using freq_sum_od_set_le [of victim "freq - 1" rest] length_od_set [of victim "freq - 1" rest]
    by (auto split: if_splits)
qed auto

definition s3_insert_main ::
  "hash_id \<Rightarrow> 'a s3fifo_scheme \<Rightarrow> 'a s3fifo_scheme \<times> hash_id list" where
  "s3_insert_main key s =
     (let (d, evicted) = s3_main_loop (s3_main_cap s) (od_set key 0 (s3_main s))
      in (s\<lparr>s3_main := d\<rparr>, evicted))"

lemma s3_insert_main_frame [simp]:
  "s3_small (fst (s3_insert_main key s)) = s3_small s"
  "s3_ghost (fst (s3_insert_main key s)) = s3_ghost s"
  "s3_capacity (fst (s3_insert_main key s)) = s3_capacity s"
  "s3_small_cap (fst (s3_insert_main key s)) = s3_small_cap s"
  "s3_main_cap (fst (s3_insert_main key s)) = s3_main_cap s"
  "s3_ghost_cap (fst (s3_insert_main key s)) = s3_ghost_cap s"
  by (simp_all add: s3_insert_main_def split: prod.splits)

text \<open>The loop of \<^verbatim>\<open>_insert_small\<close>.\<close>

function s3_small_loop :: "'a s3fifo_scheme \<Rightarrow> 'a s3fifo_scheme \<times> hash_id list" where
  "s3_small_loop s =
     (if length (s3_small s) > s3_small_cap s
      then
        (case s3_small s of
           [] \<Rightarrow> (s, [])
         | (victim, freq) # rest \<Rightarrow>
             (let s1 = s\<lparr>s3_small := rest\<rparr>
              in if freq > 0
                 then (let r = s3_insert_main victim s1; r' = s3_small_loop (fst r)
                       in (fst r', snd r @ snd r'))
                 else (let r' = s3_small_loop (s1\<lparr>s3_ghost :=
                              fst (od_trim (s3_ghost_cap s1) (od_set victim () (s3_ghost s1)))\<rparr>)
                       in (fst r', victim # snd r'))))
      else (s, []))"
  by pat_completeness auto
termination
  by (relation "measure (\<lambda>s. length (s3_small s))") auto

declare s3_small_loop.simps [simp del]

definition s3_insert_small ::
  "hash_id \<Rightarrow> 'a s3fifo_scheme \<Rightarrow> 'a s3fifo_scheme \<times> hash_id list" where
  "s3_insert_small key s = s3_small_loop (s\<lparr>s3_small := od_set key 0 (s3_small s)\<rparr>)"

definition s3_contains :: "hash_id \<Rightarrow> 'a s3fifo_scheme \<Rightarrow> bool" where
  "s3_contains h s \<longleftrightarrow> od_contains h (s3_small s) \<or> od_contains h (s3_main s)"

text \<open>\<^verbatim>\<open>d[h] = min(d[h] + 1, 3)\<close>, under a test that \<open>h\<close> is in \<open>d\<close>.\<close>

definition bump_freq :: "hash_id \<Rightarrow> (hash_id, nat) odict \<Rightarrow> (hash_id, nat) odict" where
  "bump_freq h d =
     (case map_of d h of None \<Rightarrow> d | Some f \<Rightarrow> od_set h (min (f + 1) 3) d)"

definition s3_touch :: "hash_id \<Rightarrow> 'a s3fifo_scheme \<Rightarrow> 'a s3fifo_scheme" where
  "s3_touch h s =
     (if od_contains h (s3_small s) then s\<lparr>s3_small := bump_freq h (s3_small s)\<rparr>
      else if od_contains h (s3_main s) then s\<lparr>s3_main := bump_freq h (s3_main s)\<rparr>
      else s)"

definition s3_admit :: "hash_id \<Rightarrow> 'a s3fifo_scheme \<Rightarrow> 'a s3fifo_scheme \<times> hash_id list" where
  "s3_admit h s =
     (if s3_contains h s then (s, [])
      else if od_contains h (s3_ghost s)
      then s3_insert_main h (s\<lparr>s3_ghost := od_pop h (s3_ghost s)\<rparr>)
      else s3_insert_small h s)"

definition s3_access ::
  "hash_id \<Rightarrow> int \<Rightarrow> 'a s3fifo_scheme \<Rightarrow> bool \<times> 'a s3fifo_scheme \<times> hash_id list" where
  "s3_access h block_index s =
     (if od_contains h (s3_small s) then (True, s\<lparr>s3_small := bump_freq h (s3_small s)\<rparr>, [])
      else if od_contains h (s3_main s) then (True, s\<lparr>s3_main := bump_freq h (s3_main s)\<rparr>, [])
      else (let (s', evicted) = s3_admit h s in (False, s', evicted)))"

definition s3_remove :: "hash_id \<Rightarrow> 'a s3fifo_scheme \<Rightarrow> bool \<times> 'a s3fifo_scheme" where
  "s3_remove h s =
     (if od_contains h (s3_small s) then (True, s\<lparr>s3_small := od_pop h (s3_small s)\<rparr>)
      else (od_contains h (s3_main s), s\<lparr>s3_main := od_pop h (s3_main s)\<rparr>))"

section \<open>Model of S3FifoPrefixPolicy\<close>

record s3fifo_prefix = s3fifo +
  s3_admit_depth :: nat

definition s3p_init :: "int \<Rightarrow> s3fifo_prefix result" where
  "s3p_init capacity =
     bind_result (s3_init capacity)
       (\<lambda>s. Inr (s3fifo.extend s \<lparr>s3_admit_depth = max 8 (s3_capacity s div 4)\<rparr>))"

definition s3p_access ::
  "hash_id \<Rightarrow> int \<Rightarrow> s3fifo_prefix \<Rightarrow> bool \<times> s3fifo_prefix \<times> hash_id list" where
  "s3p_access h block_index s =
     (if \<not> od_contains h (s3_small s) \<and> \<not> od_contains h (s3_main s)
         \<and> block_index > int (s3_admit_depth s) \<and> \<not> od_contains h (s3_ghost s)
      then (False, s, [])
      else s3_access h block_index s)"

section \<open>The queues\<close>

lemma bump_freq_keeps [simp]:
  "od_keys (bump_freq h d) = od_keys d" "od_dom (bump_freq h d) = od_dom d"
  "length (bump_freq h d) = length d"
proof -
  show k: "od_keys (bump_freq h d) = od_keys d"
    using map_of_od_dom [of d h] by (auto simp: bump_freq_def od_keys_set split: option.splits)
  show "od_dom (bump_freq h d) = od_dom d" using k by (metis od_dom_def)
  show "length (bump_freq h d) = length d" using k by (metis length_map)
qed

lemma s3_main_loop_short: "length d \<le> cap \<Longrightarrow> s3_main_loop cap d = (d, [])"
  by (cases d) auto

definition dec_all :: "(hash_id, nat) odict \<Rightarrow> (hash_id, nat) odict" where
  "dec_all d = map (\<lambda>p. (fst p, snd p - 1)) d"

lemma dec_all_simps [simp]:
  "dec_all [] = []" "dec_all (p # d) = (fst p, snd p - 1) # dec_all d"
  "od_keys (dec_all d) = od_keys d" "length (dec_all d) = length d" "od_dom (dec_all d) = od_dom d"
  by (auto simp: dec_all_def) (auto simp: od_dom_def simp del: set_od_keys)

text \<open>
  One key too many: the entries in front of the first one without a frequency are re-queued
  one lower, and that entry is the victim.
\<close>

lemma s3_main_loop_one:
  assumes "od_ok (xs @ (k, 0) # ys)" "length (xs @ (k, 0) # ys) = Suc cap"
    and "\<forall>p \<in> set xs. 0 < snd p"
  shows "s3_main_loop cap (xs @ (k, 0) # ys) = (ys @ dec_all xs, [k])"
  using assms
proof (induction xs arbitrary: ys)
  case Nil
  then show ?case by (simp add: s3_main_loop_short)
next
  case (Cons p xs)
  obtain v f where p: "p = (v, f)" by (cases p)
  have "v \<notin> od_dom (xs @ (k, 0) # ys)" using Cons.prems(1) by (simp add: p)
  then have "od_set v (f - 1) (xs @ (k, 0) # ys) = xs @ (k, 0) # (ys @ [(v, f - 1)])"
    by (simp add: od_set_fresh)
  moreover have "s3_main_loop cap (xs @ (k, 0) # (ys @ [(v, f - 1)])) =
      ((ys @ [(v, f - 1)]) @ dec_all xs, [k])"
    using Cons.prems by (intro Cons.IH) (auto simp: p)
  ultimately show ?case using Cons.prems by (simp add: p)
qed

lemma split_first_zero:
  assumes "\<exists>p \<in> set d. snd p = (0::nat)"
  obtains xs k ys where "d = xs @ (k, 0) # ys" "\<forall>p \<in> set xs. 0 < snd p"
  using split_list_first_prop [OF assms] by (metis neq0_conv prod.collapse)

definition freq_ok :: "(hash_id, nat) odict \<Rightarrow> bool" where
  "freq_ok d \<longleftrightarrow> (\<forall>p \<in> set d. snd p \<le> 3)"

lemma freq_ok_simps [simp]:
  "freq_ok []" "freq_ok (p # d) \<longleftrightarrow> snd p \<le> 3 \<and> freq_ok d"
  "freq_ok (d @ e) \<longleftrightarrow> freq_ok d \<and> freq_ok e"
  by (auto simp: freq_ok_def)

lemma freq_ok_dec: "freq_ok d \<Longrightarrow> freq_ok (dec_all d)"
  by (induction d) auto

lemma freq_ok_set: "freq_ok d \<Longrightarrow> v \<le> 3 \<Longrightarrow> freq_ok (od_set k v d)"
  unfolding od_set_def by (induction d) auto

lemma freq_ok_bump: "freq_ok d \<Longrightarrow> freq_ok (bump_freq h d)"
  by (auto simp: bump_freq_def freq_ok_set split: option.splits)

lemma freq_ok_pop: "freq_ok d \<Longrightarrow> freq_ok (od_pop h d)"
  by (auto simp: freq_ok_def od_pop_def AList.delete_eq)

lemma s3_main_loop_insert:
  assumes "od_ok d" "k \<notin> od_dom d" "length d \<le> cap" "freq_ok d"
    and "s3_main_loop cap (od_set k 0 d) = (d', ev)"
  shows "od_ok d'" "od_dom d' \<union> set ev = insert k (od_dom d)" "od_dom d' \<inter> set ev = {}"
    and "length d' \<le> cap" "length ev \<le> 1" "freq_ok d'"
proof -
  have set: "od_set k 0 d = d @ [(k, 0)]" by (rule od_set_fresh [OF assms(2)])
  have ok: "od_ok (d @ [(k, 0)])" using assms(1,2) by simp
  have "od_ok d' \<and> od_dom d' \<union> set ev = insert k (od_dom d) \<and> od_dom d' \<inter> set ev = {}
    \<and> length d' \<le> cap \<and> length ev \<le> 1 \<and> freq_ok d'"
  proof (cases "length d < cap")
    case True
    with assms(4,5) ok show ?thesis by (auto simp: set s3_main_loop_short)
  next
    case False
    obtain xs z ys where split: "d @ [(k, 0)] = xs @ (z, 0) # ys" and pos: "\<forall>p \<in> set xs. 0 < snd p"
      by (rule split_first_zero [of "d @ [(k, 0)]"]) auto
    have len: "length (xs @ (z, 0) # ys) = Suc cap" using False assms(3) split [symmetric] by simp
    have "s3_main_loop cap (od_set k 0 d) = (ys @ dec_all xs, [z])"
      unfolding set split by (rule s3_main_loop_one) (use ok split len pos in auto)
    then have d': "d' = ys @ dec_all xs" and ev: "ev = [z]"
      using assms(5) by auto
    have dis: "distinct (od_keys xs @ z # od_keys ys)" using ok split by simp
    moreover have "insert k (od_dom d) = od_dom (xs @ (z, 0) # ys)" unfolding split [symmetric] by simp
    moreover have "freq_ok (d @ [(k, 0)])" using assms(4) by simp
    then have "freq_ok d'" unfolding split d' using freq_ok_dec [of xs] by simp
    ultimately show ?thesis using len by (auto simp: d' ev)
  qed
  then show "od_ok d'" "od_dom d' \<union> set ev = insert k (od_dom d)" "od_dom d' \<inter> set ev = {}"
    and "length d' \<le> cap" "length ev \<le> 1" "freq_ok d'" by auto
qed

section \<open>Invariant\<close>

definition s3_resident :: "'a s3fifo_scheme \<Rightarrow> hash_id set" where
  "s3_resident s = od_dom (s3_small s) \<union> od_dom (s3_main s)"

definition s3_invar :: "'a s3fifo_scheme \<Rightarrow> bool" where
  "s3_invar s \<longleftrightarrow>
     od_ok (s3_small s) \<and> od_ok (s3_main s) \<and> od_ok (s3_ghost s)
     \<and> od_dom (s3_small s) \<inter> od_dom (s3_main s) = {}
     \<and> od_dom (s3_ghost s) \<inter> s3_resident s = {}
     \<and> length (s3_small s) \<le> s3_small_cap s \<and> length (s3_main s) \<le> s3_main_cap s
     \<and> length (s3_ghost s) \<le> s3_ghost_cap s
     \<and> 0 < s3_small_cap s \<and> s3_small_cap s + s3_main_cap s = s3_capacity s
     \<and> freq_ok (s3_small s) \<and> freq_ok (s3_main s)"

lemma s3_init_invar: "s3_init c = Inr s \<Longrightarrow>
     s3_invar s \<and> s3_resident s = {} \<and> s3_capacity s = nat c \<and> 0 < c"
  by (auto simp: s3_init_def bind_result_Inr_iff s3_invar_def s3_resident_def Let_def)

lemma s3p_init_invar: "s3p_init c = Inr s \<Longrightarrow>
     s3_invar s \<and> s3_resident s = {} \<and> s3_capacity s = nat c \<and> 0 < c"
  by (auto simp: s3p_init_def bind_result_Inr_iff s3_invar_def s3_resident_def s3fifo.extend_def
      dest!: s3_init_invar)

text \<open>What \<^verbatim>\<open>_insert_small\<close> does to a key that is nowhere, when the small queue is in bounds.\<close>

lemma s3_small_loop_short: "length (s3_small s) \<le> s3_small_cap s \<Longrightarrow> s3_small_loop s = (s, [])"
  by (simp add: s3_small_loop.simps)

lemma s3_insert_small_room:
  assumes "h \<notin> od_dom (s3_small s)" "length (s3_small s) < s3_small_cap s"
  shows "s3_insert_small h s = (s\<lparr>s3_small := s3_small s @ [(h, 0)]\<rparr>, [])"
  using assms by (simp add: s3_insert_small_def od_set_fresh s3_small_loop_short)

lemma s3_insert_small_full:
  assumes "h \<notin> od_dom (s3_small s)" "length (s3_small s) = s3_small_cap s"
    and "s3_small s = (v, f) # rest"
  shows "s3_insert_small h s =
     (let s1 = s\<lparr>s3_small := rest @ [(h, 0)]\<rparr>
      in if f > 0 then s3_insert_main v s1
         else (s1\<lparr>s3_ghost := fst (od_trim (s3_ghost_cap s) (od_set v () (s3_ghost s)))\<rparr>, [v]))"
proof -
  let ?s = "s\<lparr>s3_small := (v, f) # rest @ [(h, 0)]\<rparr>"
  have "s3_insert_small h s = s3_small_loop ?s"
    using assms by (simp add: s3_insert_small_def od_set_fresh)
  also have "\<dots> = (let s1 = s\<lparr>s3_small := rest @ [(h, 0)]\<rparr>
      in if f > 0 then s3_insert_main v s1
         else (s1\<lparr>s3_ghost := fst (od_trim (s3_ghost_cap s) (od_set v () (s3_ghost s)))\<rparr>, [v]))"
    using assms(2,3) by (subst s3_small_loop.simps) (simp add: s3_small_loop_short Let_def)
  finally show ?thesis .
qed

section \<open>Admission\<close>

text \<open>
  The outcome of an admission, the same for every path: the invariant, the capacities, and
  the split of the old keys and the new one into residents and at most one victim.
\<close>

definition s3_admitted ::
  "hash_id \<Rightarrow> 'a s3fifo_scheme \<Rightarrow> 'a s3fifo_scheme \<times> hash_id list \<Rightarrow> bool" where
  "s3_admitted h s r \<longleftrightarrow>
     s3_invar (fst r) \<and> s3_capacity (fst r) = s3_capacity s
     \<and> s3_resident (fst r) \<union> set (snd r) = insert h (s3_resident s)
     \<and> s3_resident (fst r) \<inter> set (snd r) = {} \<and> length (snd r) \<le> 1"

lemma s3_insert_main_laws:
  assumes "s3_invar s" "k \<notin> s3_resident s" "k \<notin> od_dom (s3_ghost s)"
  shows "s3_admitted k s (s3_insert_main k s)"
proof -
  obtain d ev where l: "s3_main_loop (s3_main_cap s) (od_set k 0 (s3_main s)) = (d, ev)"
    by (cases "s3_main_loop (s3_main_cap s) (od_set k 0 (s3_main s))")
  have "od_ok (s3_main s)" "k \<notin> od_dom (s3_main s)" "length (s3_main s) \<le> s3_main_cap s"
    "freq_ok (s3_main s)" using assms by (auto simp: s3_invar_def s3_resident_def)
  note laws = s3_main_loop_insert [OF this l]
  have "od_dom d \<subseteq> insert k (od_dom (s3_main s))" "set ev \<subseteq> insert k (od_dom (s3_main s))"
    using laws(2) by blast+
  with laws assms show ?thesis
    unfolding s3_admitted_def s3_insert_main_def l s3_invar_def s3_resident_def by simp blast
qed

lemma s3_small_drop:
  assumes "s3_invar s" "s3_small s = (v, f) # rest" "h \<notin> s3_resident s" "h \<notin> od_dom (s3_ghost s)"
  shows "s3_invar (s\<lparr>s3_small := rest @ [(h, 0)]\<rparr>)" "v \<notin> s3_resident (s\<lparr>s3_small := rest @ [(h, 0)]\<rparr>)"
    "v \<notin> od_dom (s3_ghost s)" "v \<noteq> h"
    "s3_resident s = insert v (s3_resident (s\<lparr>s3_small := rest\<rparr>))"
    "s3_resident (s\<lparr>s3_small := rest @ [(h, 0)]\<rparr>) = insert h (s3_resident (s\<lparr>s3_small := rest\<rparr>))"
  using assms by (auto simp: s3_invar_def s3_resident_def)

lemma s3_insert_small_laws:
  assumes "s3_invar s" "h \<notin> s3_resident s" "h \<notin> od_dom (s3_ghost s)"
  shows "s3_admitted h s (s3_insert_small h s)"
proof (cases "length (s3_small s) < s3_small_cap s")
  case True
  with assms show ?thesis
    by (auto simp: s3_insert_small_room s3_admitted_def s3_invar_def s3_resident_def)
next
  case False
  then have len: "length (s3_small s) = s3_small_cap s" "s3_small s \<noteq> []"
    using assms(1) by (auto simp: s3_invar_def)
  then obtain v f rest where small: "s3_small s = (v, f) # rest" by (metis neq_Nil_conv prod.collapse)
  let ?s1 = "s\<lparr>s3_small := rest @ [(h, 0)]\<rparr>"
  note drop = s3_small_drop [OF assms(1) small assms(2,3)]
  have h: "h \<notin> od_dom (s3_small s)" using assms(2) by (simp add: s3_resident_def)
  show ?thesis
  proof (cases "f > 0")
    case True
    have "s3_admitted v ?s1 (s3_insert_main v ?s1)"
      using s3_insert_main_laws [OF drop(1,2)] drop(3) by simp
    with True drop(5,6) show ?thesis
      by (simp add: s3_insert_small_full [OF h len(1) small] s3_admitted_def insert_commute)
  next
    case False
    obtain g popped where t: "od_trim (s3_ghost_cap s) (od_set v () (s3_ghost s)) = (g, popped)"
      by (cases "od_trim (s3_ghost_cap s) (od_set v () (s3_ghost s))")
    have "od_dom g \<subseteq> insert v (od_dom (s3_ghost s))" "length g \<le> s3_ghost_cap s" "od_ok g"
      using od_trim_sets(1,3,4) [OF t] assms(1) by (auto simp: s3_invar_def)
    with drop have "s3_invar (?s1\<lparr>s3_ghost := g\<rparr>)"
      by (auto simp: s3_invar_def s3_resident_def)
    moreover have "s3_resident (?s1\<lparr>s3_ghost := g\<rparr>) = s3_resident ?s1" by (simp add: s3_resident_def)
    ultimately show ?thesis using False drop
      by (auto simp: s3_insert_small_full [OF h len(1) small] s3_admitted_def t)
  qed
qed

lemma s3_admit_laws:
  assumes "s3_invar s"
  shows "s3_admitted h s (s3_admit h s)"
proof -
  let ?s1 = "s\<lparr>s3_ghost := od_pop h (s3_ghost s)\<rparr>"
  consider "h \<in> s3_resident s" | (ghost) "h \<notin> s3_resident s" "h \<in> od_dom (s3_ghost s)"
    | (fresh) "h \<notin> s3_resident s" "h \<notin> od_dom (s3_ghost s)" by blast
  then show ?thesis
  proof cases
    case ghost
    have "s3_invar ?s1" using assms le_trans [OF length_od_pop_le, of "s3_ghost s"]
      by (auto simp: s3_invar_def s3_resident_def)
    moreover have "s3_resident ?s1 = s3_resident s" by (simp add: s3_resident_def)
    ultimately have "s3_admitted h ?s1 (s3_insert_main h ?s1)"
      by (intro s3_insert_main_laws) (use ghost in simp_all)
    with ghost show ?thesis by (auto simp: s3_admit_def s3_contains_def s3_admitted_def s3_resident_def)
  next
    case fresh
    with s3_insert_small_laws [OF assms fresh] show ?thesis
      by (auto simp: s3_admit_def s3_contains_def s3_resident_def)
  qed (use assms in \<open>auto simp: s3_admit_def s3_contains_def s3_admitted_def s3_resident_def insert_absorb\<close>)
qed

lemma s3_access_eq:
  "h \<notin> s3_resident s \<Longrightarrow> s3_access h i s = (False, s3_admit h s)"
  "h \<in> s3_resident s \<Longrightarrow> s3_access h i s = (True, s3_touch h s, [])"
  by (auto simp: s3_access_def s3_touch_def s3_resident_def split: prod.splits)

lemma s3_touch_keeps:
  "s3_invar s \<Longrightarrow> s3_invar (s3_touch h s) \<and> s3_capacity (s3_touch h s) = s3_capacity s
     \<and> s3_resident (s3_touch h s) = s3_resident s"
  by (auto simp: s3_touch_def s3_invar_def s3_resident_def freq_ok_bump)

lemma s3_remove_laws:
  assumes "s3_invar s" "s3_remove h s = (b, s')"
  shows "s3_invar s' \<and> s3_capacity s' = s3_capacity s \<and> s3_resident s' = s3_resident s - {h}
     \<and> b = (h \<in> s3_resident s)"
  using assms by (auto simp: s3_remove_def s3_invar_def s3_resident_def freq_ok_pop
      intro: le_trans [OF length_od_pop_le] split: if_splits)

lemma s3_bound: "s3_invar s \<Longrightarrow> card (s3_resident s) \<le> s3_capacity s"
  using card_Un_le [of "od_dom (s3_small s)" "od_dom (s3_main s)"]
  by (auto simp: s3_invar_def s3_resident_def card_od_dom)

lemma s3_admittedD:
  assumes "s3_invar s" "s3_admit h s = (s', ev)"
  shows "s3_invar s'" "s3_capacity s' = s3_capacity s"
    and "s3_resident s' \<union> set ev = insert h (s3_resident s)"
    and "s3_resident s' \<inter> set ev = {}" and "length ev \<le> 1"
  using s3_admit_laws [OF assms(1), of h] assms(2) by (auto simp: s3_admitted_def)

lemma s3_access_laws:
  assumes "s3_invar s" "s3_access h i s = (hit, s', ev)"
  shows "s3_invar s' \<and> s3_capacity s' = s3_capacity s" "hit \<longleftrightarrow> h \<in> s3_resident s"
    and "hit \<Longrightarrow> s3_resident s' = s3_resident s \<and> ev = []"
    and "s3_resident s \<subseteq> s3_resident s' \<union> set ev \<and> s3_resident s' \<union> set ev \<subseteq> insert h (s3_resident s)
          \<and> s3_resident s' \<inter> set ev = {}"
  using assms s3_touch_keeps [OF assms(1), of h] s3_admittedD [OF assms(1), of h s' ev]
  by (cases "h \<in> s3_resident s"; auto simp: s3_access_eq)+

interpretation s3: tier_policy s3_capacity s3_resident s3_invar s3_contains s3_touch s3_admit s3_remove
proof (unfold_locales, goal_cases)
  case 1 then show ?case by (simp add: s3_resident_def)
next
  case 2 then show ?case by (rule s3_bound)
next
  case 3 then show ?case by (simp add: s3_contains_def s3_resident_def)
next
  case 4 then show ?case by (rule s3_touch_keeps)
next
  case 5 then show ?case using s3_admittedD(1,2) by blast
next
  case 6 then show ?case using s3_admittedD(3,4) by blast
next
  case 7 then show ?case by (rule s3_admittedD(5))
next
  case 8 then show ?case by (rule s3_remove_laws)
qed

interpretation s3: cache_policy s3_capacity s3_resident s3_contains s3_touch s3_admit s3_remove s3_invar s3_access
proof (unfold_locales, goal_cases)
  case 1 then show ?case by (rule s3_access_laws(1))
next
  case 2 then show ?case by (rule s3_access_laws(2))
next
  case 3 then show ?case using s3_access_laws(3) by blast
next
  case 4 then show ?case by (rule s3_access_laws(4))
qed

text \<open>The prefix-aware variant shares the tier operations and overrides \<^verbatim>\<open>access\<close>.\<close>

lemma s3p_access_cases:
  "s3p_access h i s =
     (if h \<notin> s3_resident s \<and> h \<notin> od_dom (s3_ghost s) \<and> i > int (s3_admit_depth s)
      then (False, s, []) else s3_access h i s)"
  by (auto simp: s3p_access_def s3_resident_def)

lemma s3p_access_laws:
  assumes "s3_invar s" "s3p_access h i s = (hit, s', ev)"
  shows "s3_invar s' \<and> s3_capacity s' = s3_capacity s" "hit \<longleftrightarrow> h \<in> s3_resident s"
    and "hit \<Longrightarrow> s3_resident s' = s3_resident s \<and> ev = []"
    and "s3_resident s \<subseteq> s3_resident s' \<union> set ev \<and> s3_resident s' \<union> set ev \<subseteq> insert h (s3_resident s)
          \<and> s3_resident s' \<inter> set ev = {}"
  using assms s3_access_laws [OF assms(1), of h i hit s' ev]
  by (auto simp: s3p_access_cases split: if_splits)

interpretation s3p: cache_policy s3_capacity s3_resident s3_contains s3_touch s3_admit s3_remove
  s3_invar s3p_access
proof (unfold_locales, goal_cases)
  case 1 then show ?case by (rule s3p_access_laws(1))
next
  case 2 then show ?case by (rule s3p_access_laws(2))
next
  case 3 then show ?case using s3p_access_laws(3) by blast
next
  case 4 then show ?case by (rule s3p_access_laws(4))
qed

section \<open>Ghost hits\<close>

text \<open>
  A key of the ghost queue goes to the main queue, and stays there exactly when the main
  queue has room or holds an entry without a frequency: otherwise every older entry gets
  its second chance and the new key, whose frequency is 0, is the victim.
\<close>

lemma s3_ghost_admit:
  assumes "s3_invar s" "h \<in> od_dom (s3_ghost s)"
  shows "h \<in> od_dom (s3_main (fst (s3_admit h s))) \<longleftrightarrow>
      length (s3_main s) < s3_main_cap s \<or> (\<exists>p \<in> set (s3_main s). snd p = 0)"
    and "h \<notin> od_dom (s3_ghost (fst (s3_admit h s)))"
    and "s3_small (fst (s3_admit h s)) = s3_small s"
proof -
  have fresh: "h \<notin> od_dom (s3_small s)" "h \<notin> od_dom (s3_main s)"
    using assms by (auto simp: s3_invar_def s3_resident_def)
  have adm: "s3_admit h s = s3_insert_main h (s\<lparr>s3_ghost := od_pop h (s3_ghost s)\<rparr>)"
    using assms(2) fresh by (simp add: s3_admit_def s3_contains_def)
  show "h \<notin> od_dom (s3_ghost (fst (s3_admit h s)))" and "s3_small (fst (s3_admit h s)) = s3_small s"
    by (simp_all add: adm)
  have main: "s3_main (fst (s3_admit h s)) = fst (s3_main_loop (s3_main_cap s) (s3_main s @ [(h, 0)]))"
    using fresh by (simp add: adm s3_insert_main_def od_set_fresh split: prod.splits)
  show "h \<in> od_dom (s3_main (fst (s3_admit h s))) \<longleftrightarrow>
      length (s3_main s) < s3_main_cap s \<or> (\<exists>p \<in> set (s3_main s). snd p = 0)"
  proof (cases "length (s3_main s) < s3_main_cap s")
    case True
    then show ?thesis by (simp add: main s3_main_loop_short)
  next
    case False
    have ok: "od_ok (s3_main s @ [(h, 0)])" "length (s3_main s @ [(h, 0)]) = Suc (s3_main_cap s)"
      using assms(1) False fresh by (auto simp: s3_invar_def)
    show ?thesis
    proof (cases "\<exists>p \<in> set (s3_main s). snd p = 0")
      case True
      then obtain xs z ys where d: "s3_main s = xs @ (z, 0) # ys" "\<forall>p \<in> set xs. 0 < snd p"
        by (rule split_first_zero)
      have "s3_main_loop (s3_main_cap s) (xs @ (z, 0) # (ys @ [(h, 0)])) = ((ys @ [(h, 0)]) @ dec_all xs, [z])"
        by (rule s3_main_loop_one) (use ok d in simp_all)
      with True show ?thesis by (simp add: main d(1))
    next
      case none: False
      have "s3_main_loop (s3_main_cap s) (s3_main s @ (h, 0) # []) = ([] @ dec_all (s3_main s), [h])"
        by (rule s3_main_loop_one) (use ok none in auto)
      with none False fresh show ?thesis by (simp add: main)
    qed
  qed
qed

section \<open>Scans\<close>

text \<open>
  A scan is a run over distinct keys the cache has never seen. While the small queue holds
  only keys without a frequency, a scan passes through the small queue and leaves the main
  queue untouched.
\<close>

definition s3_scan_ready :: "hash_id set \<Rightarrow> 'a s3fifo_scheme \<Rightarrow> bool" where
  "s3_scan_ready ks s \<longleftrightarrow> s3_invar s \<and> (\<forall>p \<in> set (s3_small s). snd p = 0)
     \<and> ks \<inter> (s3_resident s \<union> od_dom (s3_ghost s)) = {}"

lemma s3_scan_step:
  assumes "s3_scan_ready (insert h ks) s" "h \<notin> ks" and a: "s3_access h i s = (hit, s', ev)"
  shows "\<not> hit \<and> s3_main s' = s3_main s \<and> s3_scan_ready ks s'"
proof -
  have h: "s3_invar s" "h \<notin> s3_resident s" "h \<notin> od_dom (s3_ghost s)" "h \<notin> od_dom (s3_small s)"
    and zero: "\<forall>p \<in> set (s3_small s). snd p = 0"
    and ks: "ks \<inter> (s3_resident s \<union> od_dom (s3_ghost s)) = {}"
    using assms(1) by (auto simp: s3_scan_ready_def s3_resident_def)
  have adm: "s3_admit h s = s3_insert_small h s"
    using h by (auto simp: s3_admit_def s3_contains_def s3_resident_def)
  have ins: "\<not> hit" "s3_insert_small h s = (s', ev)" using a h(2) by (auto simp: s3_access_eq adm)
  have inv: "s3_invar s'" using s3_access_laws(1) [OF h(1) a] by simp
  show ?thesis
  proof (cases "length (s3_small s) < s3_small_cap s")
    case True
    with ins(2) h(4) have "s' = s\<lparr>s3_small := s3_small s @ [(h, 0)]\<rparr>"
      by (simp add: s3_insert_small_room)
    with inv zero ks assms(2) ins(1) show ?thesis
      by (auto simp: s3_scan_ready_def s3_resident_def)
  next
    case False
    then have len: "length (s3_small s) = s3_small_cap s" "s3_small s \<noteq> []"
      using h(1) by (auto simp: s3_invar_def)
    then obtain v rest where small: "s3_small s = (v, 0) # rest"
      using zero by (cases "s3_small s") auto
    obtain g popped where t: "od_trim (s3_ghost_cap s) (od_set v () (s3_ghost s)) = (g, popped)"
      by (cases "od_trim (s3_ghost_cap s) (od_set v () (s3_ghost s))")
    have "s' = s\<lparr>s3_small := rest @ [(h, 0)], s3_ghost := g\<rparr>"
      using ins(2) by (simp add: s3_insert_small_full [OF h(4) len(1) small] t)
    moreover have "od_dom g \<subseteq> insert v (od_dom (s3_ghost s))"
      using od_trim_sets(1) [OF t] by auto
    moreover have "v \<notin> ks" using ks by (auto simp: s3_resident_def small)
    ultimately show ?thesis using inv zero ks assms(2) ins(1)
      by (auto simp: s3_scan_ready_def s3_resident_def small)
  qed
qed

lemma s3_scan_run:
  assumes "s3_scan_ready (fst ` set xs) s" "distinct (map fst xs)"
    and "run_accesses s3_access xs s = (hits, s')"
  shows "s3_main s' = s3_main s \<and> (\<forall>b \<in> set hits. \<not> b)"
  using assms
proof (induction xs arbitrary: s hits)
  case (Cons x xs)
  from Cons.prems(3) obtain hit s1 ev hs where
    a: "s3_access (fst x) (snd x) s = (hit, s1, ev)" and r: "run_accesses s3_access xs s1 = (hs, s')"
    and hits: "hits = hit # hs" by (rule run_accesses_ConsE)
  have "\<not> hit \<and> s3_main s1 = s3_main s \<and> s3_scan_ready (fst ` set xs) s1"
    by (rule s3_scan_step [OF _ _ a]) (use Cons.prems in auto)
  with Cons.IH [of s1 hs] Cons.prems(2) r hits show ?case by auto
qed simp

section \<open>What no operation changes\<close>

definition s3_config :: "'a s3fifo_scheme \<Rightarrow> nat \<times> nat \<times> nat \<times> 'a" where
  "s3_config s = (s3_small_cap s, s3_main_cap s, s3_ghost_cap s, s3fifo.more s)"

lemma s3_config_updates [simp]:
  "s3_config (s\<lparr>s3_small := a\<rparr>) = s3_config s" "s3_config (s\<lparr>s3_main := b\<rparr>) = s3_config s"
  "s3_config (s\<lparr>s3_ghost := g\<rparr>) = s3_config s"
  by (simp_all add: s3_config_def)

lemma s3_config_insert_main [simp]: "s3_config (fst (s3_insert_main k s)) = s3_config s"
  by (simp add: s3_insert_main_def split: prod.splits)

lemma s3_config_small_loop [simp]: "s3_config (fst (s3_small_loop s)) = s3_config s"
proof (induction "length (s3_small s)" arbitrary: s rule: less_induct)
  case less
  show ?case
    by (subst s3_small_loop.simps) (auto simp: Let_def less split: list.split prod.split)
qed

lemma s3_config_access:
  assumes "s3_access h i s = (hit, s', ev)"
  shows "s3_config s' = s3_config s"
proof -
  have "s3_config (fst (s3_admit h s)) = s3_config s"
    by (simp add: s3_admit_def s3_insert_small_def)
  with assms show ?thesis by (auto simp: s3_access_def split: if_splits prod.splits)
qed

lemma s3_config_run:
  "run_accesses s3_access xs s = (hits, s') \<Longrightarrow> s3_config s' = s3_config s"
proof (induction xs arbitrary: s hits)
  case (Cons x xs)
  from Cons.prems obtain hit s1 ev hs where
    a: "s3_access (fst x) (snd x) s = (hit, s1, ev)" and r: "run_accesses s3_access xs s1 = (hs, s')"
    by (rule run_accesses_ConsE)
  from Cons.IH [OF r] s3_config_access [OF a] show ?case by simp
qed simp

lemma s3_admit_depth_config:
  "s3_config s = s3_config (s' :: s3fifo_prefix) \<Longrightarrow> s3_admit_depth s = s3_admit_depth s'"
  by (cases s; cases s') (simp add: s3_config_def)

section \<open>The accesses that reach S3-FIFO\<close>

text \<open>
  What the prefix-aware variant is meant to be, over plain S3-FIFO: the keys the three queues
  remember, and for each access of a trace whether it reaches S3-FIFO at all. An access does
  when it is no deeper than the admission depth or when the S3-FIFO run over the accesses
  before it, of those that reached it, remembers the key. The function does not use the
  variant's own \<^verbatim>\<open>access\<close>.
\<close>

definition s3_remembered :: "'a s3fifo_scheme \<Rightarrow> hash_id set" where
  "s3_remembered s = s3_resident s \<union> od_dom (s3_ghost s)"

fun s3_reaching :: "nat \<Rightarrow> 'a s3fifo_scheme \<Rightarrow> (hash_id \<times> int) list \<Rightarrow> bool list" where
  "s3_reaching depth s [] = []"
| "s3_reaching depth s ((h, i) # xs) =
     (if i \<le> int depth \<or> h \<in> s3_remembered s
      then True # s3_reaching depth (fst (snd (s3_access h i s))) xs
      else False # s3_reaching depth s xs)"

abbreviation selected :: "bool list \<Rightarrow> 'b list \<Rightarrow> 'b list" where
  "selected flags xs \<equiv> map snd (filter fst (zip flags xs))"

lemma length_s3_reaching [simp]: "length (s3_reaching depth s xs) = length xs"
  by (induction depth s xs rule: s3_reaching.induct) simp_all

lemma s3_insert_small_remembers:
  assumes "s3_invar s" "h \<notin> s3_remembered s"
  shows "od_dom (s3_ghost (fst (s3_insert_small h s))) \<subseteq> s3_remembered s"
proof (cases "length (s3_small s) < s3_small_cap s")
  case True
  with assms show ?thesis by (auto simp: s3_insert_small_room s3_remembered_def s3_resident_def)
next
  case False
  then have len: "length (s3_small s) = s3_small_cap s" "s3_small s \<noteq> []"
    using assms(1) by (auto simp: s3_invar_def)
  then obtain v f rest where small: "s3_small s = (v, f) # rest" by (metis neq_Nil_conv prod.collapse)
  obtain g popped where t: "od_trim (s3_ghost_cap s) (od_set v () (s3_ghost s)) = (g, popped)"
    by (cases "od_trim (s3_ghost_cap s) (od_set v () (s3_ghost s))")
  have h: "h \<notin> od_dom (s3_small s)" using assms(2) by (simp add: s3_remembered_def s3_resident_def)
  have "od_dom (s3_ghost (fst (s3_insert_small h s))) \<subseteq> insert v (od_dom (s3_ghost s))"
    using od_trim_sets(1) [OF t] by (auto simp: s3_insert_small_full [OF h len(1) small] t Let_def)
  then show ?thesis by (auto simp: s3_remembered_def s3_resident_def small)
qed

lemma s3_access_remembers:
  assumes "s3_invar s" "s3_access h i s = (hit, s', ev)"
  shows "s3_remembered s' \<subseteq> insert h (s3_remembered s)"
proof -
  have "s3_resident s' \<subseteq> insert h (s3_resident s)"
    using s3_access_laws(4) [OF assms] by blast
  moreover have "od_dom (s3_ghost s') \<subseteq> s3_remembered s"
  proof (cases "h \<in> s3_remembered s")
    case False
    then have "s3_access h i s = (False, s3_insert_small h s)"
      by (auto simp: s3_access_eq s3_admit_def s3_contains_def s3_remembered_def s3_resident_def)
    with assms(2) s3_insert_small_remembers [OF assms(1) False] show ?thesis by auto
  next
    case True
    have touch: "s3_ghost (s3_touch h s) = s3_ghost s" by (simp add: s3_touch_def)
    show ?thesis
    proof (cases "h \<in> s3_resident s")
      case True
      with assms(2) touch show ?thesis by (auto simp: s3_access_eq s3_remembered_def)
    next
      case False
      then have "od_dom (s3_ghost (fst (s3_admit h s))) \<subseteq> od_dom (s3_ghost s)"
        using True by (auto simp: s3_admit_def s3_contains_def s3_remembered_def s3_resident_def)
      with False assms(2) show ?thesis by (auto simp: s3_access_eq s3_remembered_def)
    qed
  qed
  ultimately show ?thesis by (auto simp: s3_remembered_def)
qed

lemma s3p_run_reaching:
  assumes "run_accesses s3p_access xs s = (hits, s')" "s3_admit_depth s = depth"
  shows "run_accesses s3_access (selected (s3_reaching depth s xs) xs) s = (selected (s3_reaching depth s xs) hits, s')
    \<and> (\<forall>k < length xs. \<not> s3_reaching depth s xs ! k \<longrightarrow> \<not> hits ! k \<and> int depth < snd (xs ! k))"
  using assms
proof (induction xs arbitrary: s hits)
  case (Cons x xs)
  obtain h i where x: "x = (h, i)" by (cases x)
  from Cons.prems(1) obtain hit s1 ev hs where
    a: "s3p_access h i s = (hit, s1, ev)" and r: "run_accesses s3p_access xs s1 = (hs, s')"
    and hits: "hits = hit # hs" by (rule run_accesses_ConsE) (simp add: x)
  show ?case
  proof (cases "i \<le> int depth \<or> h \<in> s3_remembered s")
    case True
    with a Cons.prems(2) have acc: "s3_access h i s = (hit, s1, ev)"
      by (auto simp: s3p_access_cases s3_remembered_def split: if_splits)
    moreover have "s3_admit_depth s1 = depth"
      using s3_admit_depth_config [OF s3_config_access [OF acc]] Cons.prems(2) by simp
    ultimately show ?thesis using Cons.IH [OF r] True
      by (auto simp: x hits nth_Cons split: nat.splits)
  next
    case False
    with a Cons.prems(2) have "hit = False" "s1 = s"
      by (auto simp: s3p_access_cases s3_remembered_def split: if_splits)
    with Cons.IH [OF r] Cons.prems(2) False show ?thesis
      by (auto simp: x hits nth_Cons split: nat.splits)
  qed
qed simp

text \<open>A remembered key was remembered at the start or has had an access within the depth.\<close>

lemma s3p_hit_after_shallow:
  assumes "s3_invar s" "run_accesses s3p_access xs s = (hits, s')" "s3_admit_depth s = depth"
    and "k < length xs" "hits ! k"
  shows "fst (xs ! k) \<in> s3_remembered s \<or> (\<exists>j<k. fst (xs ! j) = fst (xs ! k) \<and> snd (xs ! j) \<le> int depth)"
  using assms
proof (induction xs arbitrary: s hits k)
  case (Cons x xs)
  obtain h i where x: "x = (h, i)" by (cases x)
  from Cons.prems(2) obtain hit s1 ev hs where
    a: "s3p_access h i s = (hit, s1, ev)" and r: "run_accesses s3p_access xs s1 = (hs, s')"
    and hits: "hits = hit # hs" by (rule run_accesses_ConsE) (simp add: x)
  have d1: "s3_admit_depth s1 = depth"
    using a Cons.prems(3) s3_admit_depth_config [OF s3_config_access]
    by (auto simp: s3p_access_cases split: if_splits)
  have rem: "s3_remembered s1 \<subseteq> (if i \<le> int depth then insert h (s3_remembered s) else s3_remembered s)"
    using a Cons.prems(3) s3_access_remembers [OF Cons.prems(1)]
    by (fastforce simp: s3p_access_cases s3_remembered_def split: if_splits)
  show ?case
  proof (cases k)
    case 0
    with Cons.prems(5) s3p_access_laws(2) [OF Cons.prems(1) a] show ?thesis
      by (simp add: hits x s3_remembered_def)
  next
    case (Suc j)
    have inv: "s3_invar s1" using s3p_access_laws(1) [OF Cons.prems(1) a] by simp
    have "j < length xs" "hs ! j" using Cons.prems(4,5) Suc hits by auto
    from Cons.IH [OF inv r d1 this]
    consider "fst (xs ! j) \<in> s3_remembered s1"
      | m where "m < j" "fst (xs ! m) = fst (xs ! j)" "snd (xs ! m) \<le> int depth" by blast
    then show ?thesis
    proof cases
      case 1
      with rem have "fst (xs ! j) \<in> s3_remembered s \<or> (fst (xs ! j) = h \<and> i \<le> int depth)"
        by (auto split: if_splits)
      then show ?thesis using Suc x by force
    next
      case (2 m)
      then have "Suc m < k" "fst ((x # xs) ! Suc m) = fst ((x # xs) ! k)"
        "snd ((x # xs) ! Suc m) \<le> int depth" using Suc by auto
      then show ?thesis by blast
    qed
  qed
qed simp

lemma s3p_init_depth:
  "s3p_init c = Inr s \<Longrightarrow> s3_admit_depth s = max 8 (nat c div 4) \<and> s3_remembered s = {}"
  by (auto simp: s3p_init_def s3_init_def bind_result_Inr_iff s3_remembered_def s3_resident_def
      s3fifo.extend_def Let_def)

section \<open>Properties\<close>

text \<open>C6. After any sequence of accesses to a fresh S3-FIFO policy of capacity \<open>c\<close> the small queue
  holds at most a tenth of the capacity (at least one key), the main queue the rest, the ghost
  queue at most twice the capacity; no key is in two queues and every frequency is at most 3.\<close>

theorem s3_queues_bounded:
  assumes "s3_init c = Inr s" "run_accesses s3_access xs s = (hits, s')"
  shows "length (s3_small s') \<le> max 1 (nat c div 10)
    \<and> length (s3_main s') \<le> nat c - max 1 (nat c div 10)
    \<and> length (s3_ghost s') \<le> 2 * nat c
    \<and> distinct (od_keys (s3_small s') @ od_keys (s3_main s') @ od_keys (s3_ghost s'))
    \<and> (\<forall>p \<in> set (s3_small s' @ s3_main s'). snd p \<le> 3)"
proof -
  have "s3_config s = (max 1 (nat c div 10), nat c - max 1 (nat c div 10), nat c * 2, ())"
    using assms(1) by (auto simp: s3_init_def bind_result_Inr_iff Let_def s3_config_def)
  then have cfg: "s3_small_cap s' = max 1 (nat c div 10)" "s3_main_cap s' = nat c - max 1 (nat c div 10)"
    "s3_ghost_cap s' = 2 * nat c"
    using s3_config_run [OF assms(2)] by (simp_all add: s3_config_def)
  have "s3_invar s" using s3_init_invar [OF assms(1)] by simp
  then have "s3_invar s'" using s3.run_invar [OF _ assms(2)] by simp
  then show ?thesis unfolding s3_invar_def cfg freq_ok_def s3_resident_def by auto
qed

theorem s3_queues_bounded_witness:
  "length (s3_ghost (snd (run_accesses s3_access [(1, 0), (2, 1), (3, 2), (1, 0)]
     \<lparr>s3_capacity = 2, s3_small_cap = 1, s3_main_cap = 1, s3_ghost_cap = 4,
      s3_small = [], s3_main = [], s3_ghost = []\<rparr>))) \<le> 4"
proof -
  have "s3_init 2 = Inr \<lparr>s3_capacity = 2, s3_small_cap = 1, s3_main_cap = 1, s3_ghost_cap = 4,
      s3_small = [], s3_main = [], s3_ghost = []\<rparr>" by code_simp
  from s3_queues_bounded [OF this prod.collapse [symmetric], where xs = "[(1, 0), (2, 1), (3, 2), (1, 0)]"]
  show ?thesis by simp
qed

text \<open>A key that the ghost queue remembers is admitted to the main queue and forgotten by the
  ghost queue; it stays in the main queue exactly when that queue had room or held an entry of
  frequency 0. Otherwise every entry is re-queued and the new key itself is evicted.\<close>

lemma s3_ghost_hit_main:
  assumes "s3_invar s" "h \<in> od_dom (s3_ghost s)"
  shows "(h \<in> od_dom (s3_main (fst (s3_admit h s))) \<longleftrightarrow>
        length (s3_main s) < s3_main_cap s \<or> (\<exists>p \<in> set (s3_main s). snd p = 0))
    \<and> h \<notin> od_dom (s3_ghost (fst (s3_admit h s)))
    \<and> s3_small (fst (s3_admit h s)) = s3_small s
    \<and> (snd (s3_admit h s) = [h] \<longleftrightarrow> h \<notin> od_dom (s3_main (fst (s3_admit h s))))"
proof -
  have fresh: "h \<notin> od_dom (s3_small s)" using assms by (auto simp: s3_invar_def s3_resident_def)
  obtain s' ev where a: "s3_admit h s = (s', ev)" by (cases "s3_admit h s")
  note l = s3_admittedD [OF assms(1) a]
  have "h \<in> s3_resident s' \<union> set ev" using l(3) by simp
  moreover have "s3_small s' = s3_small s" using s3_ghost_admit(3) [OF assms] by (simp add: a)
  ultimately have "h \<in> set ev \<longleftrightarrow> h \<notin> od_dom (s3_main s')"
    using l(4) fresh by (auto simp: s3_resident_def)
  moreover have "h \<in> set ev \<longleftrightarrow> ev = [h]" using l(5) by (cases ev) auto
  ultimately have "ev = [h] \<longleftrightarrow> h \<notin> od_dom (s3_main s')" by simp
  then show ?thesis using s3_ghost_admit [OF assms] by (simp add: a)
qed

text \<open>C30. Scan resistance: a run over distinct keys that the policy has not seen, starting while the
  small queue holds only keys that were not reused, never changes the main queue and never hits.\<close>

theorem s3_scan_resistant:
  assumes "s3_invar s" "\<forall>p \<in> set (s3_small s). snd p = 0"
    and "distinct (map fst xs)" "fst ` set xs \<inter> (s3_resident s \<union> od_dom (s3_ghost s)) = {}"
    and "run_accesses s3_access xs s = (hits, s')"
  shows "s3_main s' = s3_main s \<and> (\<forall>b \<in> set hits. \<not> b)"
proof (rule s3_scan_run [OF _ assms(3,5)])
  show "s3_scan_ready (fst ` set xs) s" using assms(1,2,4) unfolding s3_scan_ready_def by blast
qed

theorem s3_scan_resistant_witness:
  "s3_main (snd (run_accesses s3_access [(11, 0), (12, 1), (13, 2)]
     \<lparr>s3_capacity = 2, s3_small_cap = 1, s3_main_cap = 1, s3_ghost_cap = 4,
      s3_small = [(4, 0)], s3_main = [(5, 2)], s3_ghost = [(9, ())]\<rparr>)) = [(5, 2)]"
proof -
  let ?s = "\<lparr>s3_capacity = 2, s3_small_cap = 1, s3_main_cap = 1, s3_ghost_cap = 4,
     s3_small = [(4, 0)], s3_main = [(5, 2)], s3_ghost = [(9, ())]\<rparr>"
  let ?xs = "[(11, 0), (12, 1), (13, 2)] :: (hash_id \<times> int) list"
  have "s3_invar ?s" "\<forall>p \<in> set (s3_small ?s). snd p = 0" "distinct (map fst ?xs)"
    "fst ` set ?xs \<inter> (s3_resident ?s \<union> od_dom (s3_ghost ?s)) = {}"
    by code_simp+
  from s3_scan_resistant [OF this prod.collapse [symmetric]] show ?thesis by simp
qed

text \<open>C31. The prefix-aware variant of a capacity \<open>c\<close> bypasses only deep tails that S3-FIFO does not
  remember. Over any accesses to a fresh policy its state is the one that S3-FIFO reaches on the
  accesses that are no deeper than the admission depth (a quarter of the capacity, at least 8) or
  whose key S3-FIFO remembers at that point, in a queue or as a ghost, and these accesses hit
  exactly as they do in S3-FIFO, at whatever depth; every other access is deeper than the
  admission depth and misses. And a hit, at any depth, has an earlier access of the same key that
  was within the admission depth: a key only ever seen deep in a prompt never takes room.\<close>

theorem s3p_bypasses_only_deep:
  assumes "s3p_init c = Inr s" "run_accesses s3p_access xs s = (hits, s')" "depth = max 8 (nat c div 4)"
  shows "run_accesses s3_access (selected (s3_reaching depth s xs) xs) s = (selected (s3_reaching depth s xs) hits, s')
    \<and> (\<forall>k < length xs. \<not> s3_reaching depth s xs ! k \<longrightarrow> \<not> hits ! k \<and> int depth < snd (xs ! k))
    \<and> (\<forall>k < length xs. hits ! k \<longrightarrow> (\<exists>j<k. fst (xs ! j) = fst (xs ! k) \<and> snd (xs ! j) \<le> int depth))"
proof -
  have d: "s3_admit_depth s = depth" and none: "s3_remembered s = {}"
    using s3p_init_depth [OF assms(1)] assms(3) by auto
  have "s3_invar s" using s3p_init_invar [OF assms(1)] by simp
  from s3p_hit_after_shallow [OF this assms(2) d] s3p_run_reaching [OF assms(2) d] none
  show ?thesis by blast
qed

text \<open>A deep access of key 7 is passed by; after a shallow one the same deep access hits.\<close>

theorem s3p_bypasses_only_deep_witness:
  "\<exists>s s'. s3p_init 4 = Inr s
     \<and> run_accesses s3p_access [(7, 9), (7, 8), (7, 9)] s = ([False, False, True], s')
     \<and> run_accesses s3_access [(7, 8), (7, 9)] s = ([False, True], s')"
proof -
  obtain s where s: "s3p_init 4 = Inr s"
    and h: "fst (run_accesses s3p_access [(7, 9), (7, 8), (7, 9)] s) = [False, False, True]"
    and f: "s3_reaching 8 s [(7, 9), (7, 8), (7, 9)] = [False, True, True]"
  proof
    let ?s = "\<lparr>s3_capacity = 4, s3_small_cap = 1, s3_main_cap = 3, s3_ghost_cap = 8,
      s3_small = [], s3_main = [], s3_ghost = [], s3_admit_depth = 8\<rparr>"
    show "s3p_init 4 = Inr ?s" by code_simp
    show "fst (run_accesses s3p_access [(7, 9), (7, 8), (7, 9)] ?s) = [False, False, True]" by code_simp
    show "s3_reaching 8 ?s [(7, 9), (7, 8), (7, 9)] = [False, True, True]" by code_simp
  qed
  have "8 = max 8 (nat 4 div 4)" by simp
  from s3p_bypasses_only_deep [OF s prod.collapse [symmetric] this, where xs = "[(7, 9), (7, 8), (7, 9)]"]
  have "run_accesses s3_access [(7, 8), (7, 9)] s =
      ([False, True], snd (run_accesses s3p_access [(7, 9), (7, 8), (7, 9)] s))"
    unfolding h f by (simp del: run_accesses.simps s3_reaching.simps)
  then show ?thesis using s h by (metis prod.collapse)
qed

end
