(* ===== verification/Prefix_LRU_Policy.thy ===== *)
theory Prefix_LRU_Policy
  imports Policy_Interface
begin

text \<open>
  The class \<^verbatim>\<open>PrefixAwareLRUPolicy\<close> of \<^verbatim>\<open>python/bench/policies.py\<close>: an LRU order with the
  block depth of every entry; the victim is the deepest of the sixteen oldest entries.
\<close>

section \<open>Model\<close>

record prefix_lru_policy =
  plru_capacity :: nat
  plru_store :: "(hash_id, int) odict"

definition CANDIDATE_WINDOW :: nat where
  "CANDIDATE_WINDOW = 16"

definition plru_init :: "int \<Rightarrow> prefix_lru_policy result" where
  "plru_init capacity =
     bind_result (CachePolicy_init capacity) (\<lambda>c. Inr \<lparr>plru_capacity = c, plru_store = []\<rparr>)"

text \<open>Python's \<^verbatim>\<open>max(xs, key=f)\<close> on a non-empty list: the first of the largest.\<close>

fun max_by :: "('a \<Rightarrow> int) \<Rightarrow> 'a \<Rightarrow> 'a list \<Rightarrow> 'a" where
  "max_by f m [] = m"
| "max_by f m (x # xs) = max_by f (if f x > f m then x else m) xs"

text \<open>
  The victim of \<^verbatim>\<open>_evict\<close>. On an empty store \<^verbatim>\<open>max\<close> would raise; the loop of \<^verbatim>\<open>admit\<close> calls
  it on stores with more entries than the capacity only.
\<close>

definition plru_victim :: "(hash_id, int) odict \<Rightarrow> hash_id option" where
  "plru_victim d =
     (case take CANDIDATE_WINDOW (od_keys d) of
        [] \<Rightarrow> None
      | k # ks \<Rightarrow> Some (max_by (\<lambda>k. case map_of d k of Some depth \<Rightarrow> depth | None \<Rightarrow> 0) k ks))"

lemma max_by_in: "max_by f m xs \<in> insert m (set xs)"
  by (induction xs arbitrary: m) (auto split: if_splits)

lemma plru_victim_in:
  assumes "plru_victim d = Some v"
  shows "v \<in> set (take CANDIDATE_WINDOW (od_keys d))"
proof -
  obtain k ks where "take CANDIDATE_WINDOW (od_keys d) = k # ks"
    and "v = max_by (\<lambda>k. case map_of d k of Some depth \<Rightarrow> depth | None \<Rightarrow> 0) k ks"
    using assms by (auto simp: plru_victim_def split: list.splits)
  then show ?thesis by (metis max_by_in list.simps(15))
qed

lemma plru_victim_dom: "plru_victim d = Some v \<Longrightarrow> v \<in> od_dom d"
  using in_set_takeD [OF plru_victim_in] by simp

lemma plru_victim_less [simp]:
  "plru_victim d = Some v \<Longrightarrow> length (od_pop v d) < length d"
  unfolding od_pop_def by (rule length_delete_less) (auto dest: plru_victim_dom)

text \<open>The loop of \<^verbatim>\<open>admit\<close>.\<close>

function plru_loop :: "nat \<Rightarrow> (hash_id, int) odict \<Rightarrow> (hash_id, int) odict \<times> hash_id list" where
  "plru_loop cap d =
     (if length d > cap
      then (case plru_victim d of
              None \<Rightarrow> (d, [])
            | Some v \<Rightarrow> (let (d', evicted) = plru_loop cap (od_pop v d) in (d', v # evicted)))
      else (d, []))"
  by pat_completeness auto
termination
  by (relation "measure (\<lambda>(cap, d). length d)") auto

declare plru_loop.simps [simp del]

definition plru_contains :: "hash_id \<Rightarrow> prefix_lru_policy \<Rightarrow> bool" where
  "plru_contains h s = od_contains h (plru_store s)"

definition plru_touch :: "hash_id \<Rightarrow> prefix_lru_policy \<Rightarrow> prefix_lru_policy" where
  "plru_touch h s =
     (if od_contains h (plru_store s) then s\<lparr>plru_store := od_move_to_end h (plru_store s)\<rparr> else s)"

definition plru_admit_at ::
  "hash_id \<Rightarrow> int \<Rightarrow> prefix_lru_policy \<Rightarrow> prefix_lru_policy \<times> hash_id list" where
  "plru_admit_at h block_index s =
     (let d = od_move_to_end h (od_set h block_index (plru_store s));
          (d', evicted) = plru_loop (plru_capacity s) d
      in (s\<lparr>plru_store := d'\<rparr>, evicted))"

text \<open>\<^verbatim>\<open>admit\<close> called without a block index, as the tiers do.\<close>

definition plru_admit :: "hash_id \<Rightarrow> prefix_lru_policy \<Rightarrow> prefix_lru_policy \<times> hash_id list" where
  "plru_admit h s = plru_admit_at h 0 s"

definition plru_access ::
  "hash_id \<Rightarrow> int \<Rightarrow> prefix_lru_policy \<Rightarrow> bool \<times> prefix_lru_policy \<times> hash_id list" where
  "plru_access h block_index s =
     (let hit = od_contains h (plru_store s)
      in if hit
         then (hit, s\<lparr>plru_store := od_set h block_index (od_move_to_end h (plru_store s))\<rparr>, [])
         else (let (s', evicted) = plru_admit_at h block_index s in (hit, s', evicted)))"

definition plru_remove :: "hash_id \<Rightarrow> prefix_lru_policy \<Rightarrow> bool \<times> prefix_lru_policy" where
  "plru_remove h s = (od_contains h (plru_store s), s\<lparr>plru_store := od_pop h (plru_store s)\<rparr>)"

section \<open>Contract\<close>

definition plru_resident :: "prefix_lru_policy \<Rightarrow> hash_id set" where
  "plru_resident s = od_dom (plru_store s)"

definition plru_invar :: "prefix_lru_policy \<Rightarrow> bool" where
  "plru_invar s \<longleftrightarrow> od_ok (plru_store s) \<and> length (plru_store s) \<le> plru_capacity s
     \<and> 0 < plru_capacity s"

lemma plru_init_invar: "plru_init c = Inr s \<Longrightarrow>
     plru_invar s \<and> plru_resident s = {} \<and> plru_capacity s = nat c \<and> 0 < c"
  by (auto simp: plru_init_def bind_result_Inr_iff plru_invar_def plru_resident_def)

lemma plru_victim_Some: "d \<noteq> [] \<Longrightarrow> \<exists>v. plru_victim d = Some v"
  by (cases d) (auto simp: plru_victim_def CANDIDATE_WINDOW_def)

lemma plru_loop_short: "length d \<le> cap \<Longrightarrow> plru_loop cap d = (d, [])"
  by (simp add: plru_loop.simps)

lemma plru_loop_one:
  assumes "length d = Suc cap"
  obtains v where "plru_victim d = Some v" "v \<in> od_dom d" "plru_loop cap d = (od_pop v d, [v])"
    and "length (od_pop v d) \<le> cap"
proof -
  obtain v where v: "plru_victim d = Some v" using plru_victim_Some [of d] assms by fastforce
  then have "length (od_pop v d) \<le> cap" using plru_victim_less assms by fastforce
  moreover have "v \<in> od_dom d" by (rule plru_victim_dom [OF v])
  ultimately show ?thesis
    using v assms that by (simp add: plru_loop.simps [of cap d] plru_loop_short)
qed

lemma plru_admit_at_laws:
  assumes "plru_invar s" and "plru_admit_at h b s = (s', ev)"
  shows "plru_invar s'" "plru_capacity s' = plru_capacity s"
    and "plru_resident s' \<union> set ev = insert h (plru_resident s)"
    and "plru_resident s' \<inter> set ev = {}"
    and "length ev = card (insert h (plru_resident s)) - plru_capacity s"
proof -
  let ?d = "od_move_to_end h (od_set h b (plru_store s))"
  have ok: "od_ok ?d" using assms(1) by (auto simp: plru_invar_def)
  have len: "length ?d = card (insert h (plru_resident s))"
    using card_od_dom [OF ok] by (simp add: plru_resident_def)
  also have "\<dots> \<le> Suc (plru_capacity s)"
    using card_od_dom [of "plru_store s"] assms(1)
    by (auto simp: plru_invar_def plru_resident_def card_insert_if)
  finally have le: "length ?d \<le> Suc (plru_capacity s)" .
  obtain d' where l: "plru_loop (plru_capacity s) ?d = (d', ev)" and s': "s' = s\<lparr>plru_store := d'\<rparr>"
    using assms(2) by (auto simp: plru_admit_at_def Let_def split: prod.splits)
  have "od_ok d' \<and> length d' \<le> plru_capacity s \<and> od_dom d' \<union> set ev = od_dom ?d
    \<and> od_dom d' \<inter> set ev = {} \<and> length ev = length ?d - plru_capacity s"
  proof (cases "length ?d \<le> plru_capacity s")
    case True
    with l ok show ?thesis by (auto simp: plru_loop_short)
  next
    case False
    with le obtain v where "v \<in> od_dom ?d" "plru_loop (plru_capacity s) ?d = (od_pop v ?d, [v])"
      and "length (od_pop v ?d) \<le> plru_capacity s" by (metis plru_loop_one not_less_eq_eq le_antisym)
    with l ok le False show ?thesis by auto
  qed
  then show "plru_invar s'" "plru_capacity s' = plru_capacity s"
    and "plru_resident s' \<union> set ev = insert h (plru_resident s)"
    and "plru_resident s' \<inter> set ev = {}"
    and "length ev = card (insert h (plru_resident s)) - plru_capacity s"
    using assms(1) len by (auto simp: s' plru_invar_def plru_resident_def)
qed

lemma plru_card_insert:
  "plru_invar s \<Longrightarrow> card (insert h (plru_resident s)) \<le> Suc (plru_capacity s)"
  using card_od_dom [of "plru_store s"]
  by (auto simp: plru_invar_def plru_resident_def card_insert_if)

lemma plru_access_eq:
  "h \<in> plru_resident s \<Longrightarrow> plru_access h i s =
     (True, s\<lparr>plru_store := od_set h i (od_move_to_end h (plru_store s))\<rparr>, [])"
  "h \<notin> plru_resident s \<Longrightarrow> plru_access h i s = (False, plru_admit_at h i s)"
  by (auto simp: plru_access_def plru_resident_def split: prod.splits)

lemma plru_refresh_keeps:
  assumes "plru_invar s" "h \<in> plru_resident s"
  shows "plru_invar (s\<lparr>plru_store := od_set h i (od_move_to_end h (plru_store s))\<rparr>)"
    and "plru_resident (s\<lparr>plru_store := od_set h i (od_move_to_end h (plru_store s))\<rparr>) = plru_resident s"
  using assms by (auto simp: plru_invar_def plru_resident_def length_od_set)

interpretation plru: tier_policy plru_capacity plru_resident plru_invar plru_contains plru_touch
  plru_admit plru_remove
proof (unfold_locales, goal_cases)
  case 1 then show ?case by (simp add: plru_resident_def)
next
  case 2 then show ?case by (simp add: plru_resident_def plru_invar_def card_od_dom)
next
  case 3 then show ?case by (simp add: plru_contains_def plru_resident_def)
next
  case 4 then show ?case by (auto simp: plru_touch_def plru_invar_def plru_resident_def)
next
  case 5 then show ?case using plru_admit_at_laws(1,2) unfolding plru_admit_def by blast
next
  case 6 then show ?case using plru_admit_at_laws(3,4) unfolding plru_admit_def by blast
next
  case (7 s h s' ev) then show ?case
    using plru_admit_at_laws(5) plru_card_insert [OF 7(1), of h] unfolding plru_admit_def by simp
next
  case 8 then show ?case
    by (auto simp: plru_remove_def plru_invar_def plru_resident_def
        intro: le_trans [OF length_od_pop_le])
qed

interpretation plru: cache_policy plru_capacity plru_resident plru_contains plru_touch plru_admit
  plru_remove plru_invar plru_access
proof (unfold_locales, goal_cases)
  case (1 s h) then show ?case
    by (cases "h \<in> plru_resident s")
      (auto simp: plru_access_eq plru_refresh_keeps dest: plru_admit_at_laws(1,2))
next
  case (2 s h) then show ?case
    by (cases "h \<in> plru_resident s") (auto simp: plru_access_eq)
next
  case (3 s h) then show ?case
    by (cases "h \<in> plru_resident s") (auto simp: plru_access_eq plru_refresh_keeps)
next
  case (4 s h i hit s' ev) then show ?case
    using plru_admit_at_laws(3,4) [of s h i s' ev]
    by (cases "h \<in> plru_resident s") (auto simp: plru_access_eq plru_refresh_keeps)
qed

interpretation plru: full_only_policy plru_capacity plru_resident plru_invar plru_contains plru_touch
  plru_admit plru_remove
proof (unfold_locales, goal_cases)
  case (1 s h) then show ?case
    using plru_admit_at_laws(5) [OF 1(1) prod.collapse [symmetric], of h 0]
    by (simp add: plru_admit_def)
qed

section \<open>The victim\<close>

lemma max_by_ge_start: "f m \<le> f (max_by f m xs)"
proof (induction xs arbitrary: m)
  case (Cons x xs)
  show ?case using Cons.IH [of m] Cons.IH [of x] by auto
qed simp

lemma max_by_greatest: "x \<in> insert m (set xs) \<Longrightarrow> f x \<le> f (max_by f m xs)"
proof (induction xs arbitrary: m)
  case (Cons y xs)
  then consider "x = m" | "x = y" | "x \<in> set xs" by auto
  then show ?case
    using Cons.IH [of m] Cons.IH [of y] max_by_ge_start [of f m xs] max_by_ge_start [of f y xs]
    by cases auto
qed simp

text \<open>Among the sixteen oldest keys the victim has the greatest depth.\<close>

lemma plru_victim_deepest:
  assumes "plru_victim d = Some v" "od_ok d" "k \<in> set (take CANDIDATE_WINDOW (od_keys d))"
  obtains dk dv where "map_of d k = Some dk" "map_of d v = Some dv" "dk \<le> dv"
proof -
  let ?f = "\<lambda>k. case map_of d k of Some depth \<Rightarrow> depth | None \<Rightarrow> 0"
  obtain c cs where t: "take CANDIDATE_WINDOW (od_keys d) = c # cs" and v: "v = max_by ?f c cs"
    using assms(1) by (auto simp: plru_victim_def split: list.splits)
  have "k \<in> od_dom d" "v \<in> od_dom d"
    using in_set_takeD [OF assms(3)] plru_victim_dom [OF assms(1)] by simp_all
  then obtain dk dv where "map_of d k = Some dk" "map_of d v = Some dv"
    using map_of_od_dom [of d] by (metis not_None_eq)
  moreover have "?f k \<le> ?f v" unfolding v by (rule max_by_greatest) (use assms(3) t in simp)
  ultimately show ?thesis using that by simp
qed

section \<open>Properties\<close>

text \<open>C33. Admitting a new key to a full prefix-aware LRU policy evicts exactly one key: one of the
  sixteen oldest of the queue with the new key at its end, and none of those sixteen lies
  deeper. With a capacity of at least sixteen the new key itself always stays.\<close>

theorem plru_evicts_deepest:
  fixes i :: int
  assumes "plru_invar s" "h \<notin> plru_resident s" "card (plru_resident s) = plru_capacity s"
  defines "d \<equiv> plru_store s @ [(h, i)]"
  shows "\<exists>v. snd (plru_admit_at h i s) = [v] \<and> v \<in> set (take 16 (od_keys d))
    \<and> (\<forall>k \<in> set (take 16 (od_keys d)). \<exists>dk dv. map_of d k = Some dk \<and> map_of d v = Some dv \<and> dk \<le> dv)
    \<and> (16 \<le> plru_capacity s \<longrightarrow> h \<in> plru_resident (fst (plru_admit_at h i s)))"
proof -
  have s: "od_ok (plru_store s)" "length (plru_store s) = plru_capacity s" "h \<notin> od_dom (plru_store s)"
    using assms(1-3) by (auto simp: plru_invar_def plru_resident_def card_od_dom)
  then have d: "od_move_to_end h (od_set h i (plru_store s)) = d" by (simp add: d_def od_move_set_fresh)
  have ok: "od_ok d" using s by (simp add: d_def)
  obtain v where v: "plru_victim d = Some v" and l: "plru_loop (plru_capacity s) d = (od_pop v d, [v])"
    by (rule plru_loop_one [of d "plru_capacity s"]) (use s in \<open>auto simp: d_def\<close>)
  have adm: "plru_admit_at h i s = (s\<lparr>plru_store := od_pop v d\<rparr>, [v])"
    by (simp add: plru_admit_at_def d l)
  note w = plru_victim_in [OF v, unfolded CANDIDATE_WINDOW_def]
  have "h \<in> plru_resident (fst (plru_admit_at h i s))" if "16 \<le> plru_capacity s"
  proof -
    have "take 16 (od_keys d) = take 16 (od_keys (plru_store s))" using that s(2) by (simp add: d_def)
    with w have "v \<in> set (od_keys (plru_store s))" by (metis in_set_takeD)
    with s(3) have "v \<noteq> h" by auto
    then show ?thesis by (simp add: adm plru_resident_def) (simp add: d_def)
  qed
  moreover have "\<exists>dk dv. map_of d k = Some dk \<and> map_of d v = Some dv \<and> dk \<le> dv"
    if "k \<in> set (take 16 (od_keys d))" for k
    by (rule plru_victim_deepest [OF v ok]) (use that in \<open>auto simp: CANDIDATE_WINDOW_def\<close>)
  ultimately show ?thesis using w by (auto simp: adm)
qed

theorem plru_evicts_deepest_witness:
  "\<exists>v. snd (plru_admit_at 3 1 \<lparr>plru_capacity = 2, plru_store = [(1, 0), (2, 5)]\<rparr>) = [v] \<and> v = 2"
proof -
  let ?s = "\<lparr>plru_capacity = 2, plru_store = [(1, 0), (2, 5)]\<rparr>"
  have "plru_invar ?s" "3 \<notin> plru_resident ?s" "card (plru_resident ?s) = plru_capacity ?s"
    by code_simp+
  from plru_evicts_deepest [OF this, of 1] show ?thesis by (auto split: if_splits)
qed

end
