(* ===== verification/Policies.thy ===== *)
theory Policies
  imports LRU_Policy Sieve_Policy S3Fifo_Policy Prefix_LRU_Policy
begin

text \<open>
  The registry \<^verbatim>\<open>POLICIES\<close> and the factory \<^verbatim>\<open>make_policy\<close> of \<^verbatim>\<open>python/bench/policies.py\<close>.
  A policy object is a value of one of the five classes; calling a method dispatches on the
  class. The contract holds for the dispatched operations because it holds for each class.
\<close>

section \<open>Model\<close>

datatype policy =
    LRUPolicy lru_policy
  | SievePolicy sieve_policy
  | S3FifoPolicy s3fifo
  | PrefixAwareLRUPolicy prefix_lru_policy
  | S3FifoPrefixPolicy s3fifo_prefix

definition POLICIES :: "(string \<times> (int \<Rightarrow> policy result)) list" where
  "POLICIES =
     [(''lru'', \<lambda>c. map_sum id LRUPolicy (lru_init c)),
      (''sieve'', \<lambda>c. map_sum id SievePolicy (sieve_init c)),
      (''s3fifo'', \<lambda>c. map_sum id S3FifoPolicy (s3_init c)),
      (''prefix_lru'', \<lambda>c. map_sum id PrefixAwareLRUPolicy (plru_init c)),
      (''s3fifo_prefix'', \<lambda>c. map_sum id S3FifoPrefixPolicy (s3p_init c))]"

definition make_policy :: "string \<Rightarrow> int \<Rightarrow> policy result" where
  "make_policy name capacity =
     (case map_of POLICIES name of
        None \<Rightarrow> Inl ValueError
      | Some cls \<Rightarrow> cls capacity)"

fun policy_contains :: "hash_id \<Rightarrow> policy \<Rightarrow> bool" where
  "policy_contains h (LRUPolicy s) = lru_contains h s"
| "policy_contains h (SievePolicy s) = sieve_contains h s"
| "policy_contains h (S3FifoPolicy s) = s3_contains h s"
| "policy_contains h (PrefixAwareLRUPolicy s) = plru_contains h s"
| "policy_contains h (S3FifoPrefixPolicy s) = s3_contains h s"

fun policy_touch :: "hash_id \<Rightarrow> policy \<Rightarrow> policy" where
  "policy_touch h (LRUPolicy s) = LRUPolicy (lru_touch h s)"
| "policy_touch h (SievePolicy s) = SievePolicy (sieve_touch h s)"
| "policy_touch h (S3FifoPolicy s) = S3FifoPolicy (s3_touch h s)"
| "policy_touch h (PrefixAwareLRUPolicy s) = PrefixAwareLRUPolicy (plru_touch h s)"
| "policy_touch h (S3FifoPrefixPolicy s) = S3FifoPrefixPolicy (s3_touch h s)"

fun policy_admit :: "hash_id \<Rightarrow> policy \<Rightarrow> policy \<times> hash_id list" where
  "policy_admit h (LRUPolicy s) = map_prod LRUPolicy id (lru_admit h s)"
| "policy_admit h (SievePolicy s) = map_prod SievePolicy id (sieve_admit h s)"
| "policy_admit h (S3FifoPolicy s) = map_prod S3FifoPolicy id (s3_admit h s)"
| "policy_admit h (PrefixAwareLRUPolicy s) = map_prod PrefixAwareLRUPolicy id (plru_admit h s)"
| "policy_admit h (S3FifoPrefixPolicy s) = map_prod S3FifoPrefixPolicy id (s3_admit h s)"

fun policy_remove :: "hash_id \<Rightarrow> policy \<Rightarrow> bool \<times> policy" where
  "policy_remove h (LRUPolicy s) = map_prod id LRUPolicy (lru_remove h s)"
| "policy_remove h (SievePolicy s) = map_prod id SievePolicy (sieve_remove h s)"
| "policy_remove h (S3FifoPolicy s) = map_prod id S3FifoPolicy (s3_remove h s)"
| "policy_remove h (PrefixAwareLRUPolicy s) = map_prod id PrefixAwareLRUPolicy (plru_remove h s)"
| "policy_remove h (S3FifoPrefixPolicy s) = map_prod id S3FifoPrefixPolicy (s3_remove h s)"

fun policy_access :: "hash_id \<Rightarrow> int \<Rightarrow> policy \<Rightarrow> bool \<times> policy \<times> hash_id list" where
  "policy_access h i (LRUPolicy s) = map_prod id (map_prod LRUPolicy id) (lru_access h i s)"
| "policy_access h i (SievePolicy s) = map_prod id (map_prod SievePolicy id) (sieve_access h i s)"
| "policy_access h i (S3FifoPolicy s) = map_prod id (map_prod S3FifoPolicy id) (s3_access h i s)"
| "policy_access h i (PrefixAwareLRUPolicy s) =
     map_prod id (map_prod PrefixAwareLRUPolicy id) (plru_access h i s)"
| "policy_access h i (S3FifoPrefixPolicy s) =
     map_prod id (map_prod S3FifoPrefixPolicy id) (s3p_access h i s)"

section \<open>Contract\<close>

fun policy_capacity :: "policy \<Rightarrow> nat" where
  "policy_capacity (LRUPolicy s) = lru_capacity s"
| "policy_capacity (SievePolicy s) = sieve_capacity s"
| "policy_capacity (S3FifoPolicy s) = s3_capacity s"
| "policy_capacity (PrefixAwareLRUPolicy s) = plru_capacity s"
| "policy_capacity (S3FifoPrefixPolicy s) = s3_capacity s"

fun policy_resident :: "policy \<Rightarrow> hash_id set" where
  "policy_resident (LRUPolicy s) = lru_resident s"
| "policy_resident (SievePolicy s) = sieve_resident s"
| "policy_resident (S3FifoPolicy s) = s3_resident s"
| "policy_resident (PrefixAwareLRUPolicy s) = plru_resident s"
| "policy_resident (S3FifoPrefixPolicy s) = s3_resident s"

fun policy_invar :: "policy \<Rightarrow> bool" where
  "policy_invar (LRUPolicy s) = lru_invar s"
| "policy_invar (SievePolicy s) = sieve_invar s"
| "policy_invar (S3FifoPolicy s) = s3_invar s"
| "policy_invar (PrefixAwareLRUPolicy s) = plru_invar s"
| "policy_invar (S3FifoPrefixPolicy s) = s3_invar s"

lemma map_prod_eq_iff: "map_prod f g p = (a, b) \<longleftrightarrow> (\<exists>x y. p = (x, y) \<and> a = f x \<and> b = g y)"
  by (cases p) auto

interpretation pol: tier_policy policy_capacity policy_resident policy_invar policy_contains
  policy_touch policy_admit policy_remove
proof (unfold_locales, goal_cases)
  case (1 s) then show ?case
    by (cases s) (simp_all add: lru.finite_resident sieve.finite_resident s3.finite_resident plru.finite_resident)
next
  case (2 s) then show ?case
    by (cases s) (simp_all add: lru.bound sieve.bound s3.bound plru.bound)
next
  case (3 s) then show ?case
    by (cases s) (simp_all add: lru.contains_iff sieve.contains_iff s3.contains_iff plru.contains_iff)
next
  case (4 s) then show ?case
    by (cases s) (simp_all add: lru.touch_keeps sieve.touch_keeps s3.touch_keeps plru.touch_keeps)
next
  case (5 s) then show ?case
    by (cases s) (auto simp: map_prod_eq_iff
        dest: lru.admit_invar sieve.admit_invar s3.admit_invar plru.admit_invar)
next
  case (6 s) then show ?case
    by (cases s) (simp_all add: map_prod_eq_iff, (elim exE conjE, hypsubst, simp,
        (erule (1) lru.admit_conserves | erule (1) sieve.admit_conserves
         | erule (1) s3.admit_conserves | erule (1) plru.admit_conserves))+)
next
  case (7 s) then show ?case
    by (cases s) (auto simp: map_prod_eq_iff
        dest: lru.admit_evicts_one sieve.admit_evicts_one s3.admit_evicts_one plru.admit_evicts_one)
next
  case (8 s) then show ?case
    by (cases s) (auto simp: map_prod_eq_iff
        dest: lru.remove_removes sieve.remove_removes s3.remove_removes plru.remove_removes)
qed

interpretation pol: cache_policy policy_capacity policy_resident policy_contains policy_touch
  policy_admit policy_remove policy_invar policy_access
proof (unfold_locales, goal_cases)
  case (1 s) then show ?case
    by (cases s) (auto simp: map_prod_eq_iff dest: lru.access_invar sieve.access_invar
        s3.access_invar plru.access_invar s3p.access_invar)
next
  case (2 s) then show ?case
    by (cases s) (auto simp: map_prod_eq_iff dest: lru.access_hit_iff sieve.access_hit_iff
        s3.access_hit_iff plru.access_hit_iff s3p.access_hit_iff)
next
  case (3 s) then show ?case
    by (cases s) (auto simp: map_prod_eq_iff dest: lru.access_hit_keeps sieve.access_hit_keeps
        s3.access_hit_keeps plru.access_hit_keeps s3p.access_hit_keeps)
next
  case (4 s) then show ?case
    by (cases s) (simp_all add: map_prod_eq_iff, (elim exE conjE, hypsubst, simp,
        (drule (1) lru.access_conserves | drule (1) sieve.access_conserves
         | drule (1) s3.access_conserves | drule (1) plru.access_conserves
         | drule (1) s3p.access_conserves), blast)+)
qed

lemma make_policy_invar:
  assumes "make_policy name c = Inr p"
  shows "policy_invar p \<and> policy_resident p = {} \<and> policy_capacity p = nat c \<and> 0 < c"
proof -
  have "map_sum id f r = Inr p \<Longrightarrow> \<exists>s. r = Inr s \<and> p = f s" for f and r :: "'x result"
    by (cases r) auto
  note D = this
  show ?thesis using assms
    unfolding make_policy_def POLICIES_def
    by (auto split: if_splits dest!: D
        dest: lru_init_invar sieve_init_invar s3_init_invar plru_init_invar s3p_init_invar)
qed

text \<open>Which names and capacities the factory accepts.\<close>

lemma make_policy_ok:
  "(\<exists>p. make_policy name c = Inr p) \<longleftrightarrow>
     0 < c \<and> name \<in> {''lru'', ''sieve'', ''s3fifo'', ''prefix_lru'', ''s3fifo_prefix''}"
  by (auto simp: make_policy_def POLICIES_def lru_init_def sieve_init_def s3_init_def plru_init_def
      s3p_init_def CachePolicy_init_def Let_def)

lemma make_policy_error: "make_policy name c = Inl e \<Longrightarrow> e = ValueError"
  by (auto simp: make_policy_def POLICIES_def lru_init_def sieve_init_def s3_init_def plru_init_def
      s3p_init_def CachePolicy_init_def Let_def split: if_splits)

section \<open>Policies with one queue\<close>

fun single_queue :: "policy \<Rightarrow> bool" where
  "single_queue (LRUPolicy s) = True"
| "single_queue (SievePolicy s) = True"
| "single_queue (S3FifoPolicy s) = False"
| "single_queue (PrefixAwareLRUPolicy s) = True"
| "single_queue (S3FifoPrefixPolicy s) = False"

lemma single_queue_ops [simp]:
  "single_queue (policy_touch h p) = single_queue p"
  "single_queue (fst (policy_admit h p)) = single_queue p"
  "single_queue (snd (policy_remove h p)) = single_queue p"
  by (cases p; simp)+

definition queue_invar :: "policy \<Rightarrow> bool" where
  "queue_invar p \<longleftrightarrow> policy_invar p \<and> single_queue p"

lemma queue_invarD: "queue_invar p \<Longrightarrow> policy_invar p"
  by (simp add: queue_invar_def)

interpretation queue: full_only_policy policy_capacity policy_resident queue_invar policy_contains
  policy_touch policy_admit policy_remove
proof (unfold_locales, goal_cases)
  case 1 then show ?case by (rule pol.finite_resident [OF queue_invarD])
next
  case 2 then show ?case by (rule pol.bound [OF queue_invarD])
next
  case 3 then show ?case by (rule pol.contains_iff [OF queue_invarD])
next
  case 4 then show ?case by (simp add: queue_invar_def pol.touch_keeps)
next
  case (5 s h s' ev) then show ?case
    using pol.admit_invar [of s h s' ev] single_queue_ops(2) [of h s] by (simp add: queue_invar_def)
next
  case 6 then show ?case by (rule pol.admit_conserves [OF queue_invarD])
next
  case 7 then show ?case by (rule pol.admit_evicts_one [OF queue_invarD])
next
  case (8 s h b s') then show ?case
    using pol.remove_removes [of s h b s'] single_queue_ops(3) [of h s] by (simp add: queue_invar_def)
next
  case (9 s h) then show ?case
    by (cases s) (simp_all add: queue_invar_def lru.admit_below sieve.admit_below plru.admit_below)
qed

section \<open>Reachable policy states\<close>

text \<open>The states a client can bring a policy of the factory into, by any mix of its methods.\<close>

inductive policy_reach :: "string \<Rightarrow> int \<Rightarrow> policy \<Rightarrow> bool" for name :: string and c :: int where
  made: "make_policy name c = Inr p \<Longrightarrow> policy_reach name c p"
| accessed: "policy_reach name c p \<Longrightarrow> policy_access h i p = (hit, p', ev) \<Longrightarrow> policy_reach name c p'"
| touched: "policy_reach name c p \<Longrightarrow> policy_reach name c (policy_touch h p)"
| admitted: "policy_reach name c p \<Longrightarrow> policy_admit h p = (p', ev) \<Longrightarrow> policy_reach name c p'"
| removed: "policy_reach name c p \<Longrightarrow> policy_remove h p = (b, p') \<Longrightarrow> policy_reach name c p'"

lemma policy_reach_invar:
  "policy_reach name c p \<Longrightarrow> policy_invar p \<and> policy_capacity p = nat c"
proof (induction rule: policy_reach.induct)
  case (made p) then show ?case using make_policy_invar by blast
next
  case (accessed p h i hit p' ev) then show ?case using pol.access_invar [of p h i hit p' ev] by simp
next
  case (touched p h) then show ?case using pol.touch_keeps [of p h] by simp
next
  case (admitted p h p' ev) then show ?case using pol.admit_invar [of p h p' ev] by simp
next
  case (removed p h b p') then show ?case using pol.remove_removes [of p h b p'] by simp
qed

section \<open>Properties\<close>

text \<open>The factory builds a policy exactly for the five registered names and a positive capacity;
  any other call raises \<^verbatim>\<open>ValueError\<close>.\<close>

lemma make_policy_accepts:
  "(case make_policy name c of
      Inr p \<Rightarrow> 0 < c \<and> name \<in> {''lru'', ''sieve'', ''s3fifo'', ''prefix_lru'', ''s3fifo_prefix''}
        \<and> policy_resident p = {} \<and> policy_capacity p = nat c
    | Inl e \<Rightarrow> e = ValueError
        \<and> \<not> (0 < c \<and> name \<in> {''lru'', ''sieve'', ''s3fifo'', ''prefix_lru'', ''s3fifo_prefix''}))"
proof (cases "make_policy name c")
  case (Inl e)
  then have "\<not> (\<exists>p. make_policy name c = Inr p)" by simp
  with Inl make_policy_error [OF Inl] show ?thesis unfolding make_policy_ok by simp
next
  case (Inr p)
  then have "\<exists>p. make_policy name c = Inr p" by simp
  with Inr make_policy_invar [OF Inr] show ?thesis unfolding make_policy_ok by simp
qed

text \<open>C10. No policy of the factory ever holds more blocks than its capacity, whatever mix of accesses,
  touches, admissions and removals it is driven with, and \<^verbatim>\<open>contains\<close> answers for exactly the
  blocks it holds.\<close>

theorem policy_never_overflows:
  assumes "policy_reach name c p"
  shows "finite (policy_resident p) \<and> card (policy_resident p) \<le> nat c
    \<and> (policy_contains h p \<longleftrightarrow> h \<in> policy_resident p)"
  using policy_reach_invar [OF assms] pol.finite_resident [of p] pol.bound [of p] pol.contains_iff [of p h]
  by simp

theorem policy_never_overflows_witness:
  "card (policy_resident (fst (policy_admit 3 (policy_touch 2 (LRUPolicy \<lparr>lru_capacity = 1, lru_store = []\<rparr>))))) \<le> 1"
proof -
  have "make_policy ''lru'' 1 = Inr (LRUPolicy \<lparr>lru_capacity = 1, lru_store = []\<rparr>)" by code_simp
  from policy_reach.admitted [OF policy_reach.touched [OF policy_reach.made [OF this]] prod.collapse [symmetric]]
  show ?thesis using policy_never_overflows by fastforce
qed

text \<open>An access reports a hit exactly when the block is held. A hit moves nothing. A miss announces
  to \<^verbatim>\<open>on_evict\<close> every block that leaves, and announces no block that stays.\<close>

lemma policy_access_accounts:
  assumes "policy_reach name c p" "policy_access h i p = (hit, p', ev)"
  shows "(hit \<longleftrightarrow> h \<in> policy_resident p)
    \<and> (hit \<longrightarrow> policy_resident p' = policy_resident p \<and> ev = [])
    \<and> policy_resident p - policy_resident p' \<subseteq> set ev
    \<and> set ev \<inter> policy_resident p' = {}
    \<and> policy_resident p' \<union> set ev \<subseteq> insert h (policy_resident p)"
proof -
  have inv: "policy_invar p" using policy_reach_invar [OF assms(1)] by simp
  note c = pol.access_conserves [OF inv assms(2)] pol.access_hit_iff [OF inv assms(2)]
  moreover have "hit \<longrightarrow> policy_resident p' = policy_resident p \<and> ev = []"
    using pol.access_hit_keeps [OF inv] assms(2) by (cases hit) auto
  ultimately show ?thesis by blast
qed

text \<open>Over any sequence of accesses to a fresh policy, a hit needs an earlier access to the same
  block: the first access to a block is always a miss.\<close>

lemma policy_hits_are_reuses:
  assumes "make_policy name c = Inr p" "run_accesses policy_access xs p = (hits, p')"
    and "k < length xs" "hits ! k"
  shows "\<exists>j < k. fst (xs ! j) = fst (xs ! k)"
proof -
  have "policy_invar p" "policy_resident p = {}" using make_policy_invar [OF assms(1)] by auto
  from pol.run_hit_sound [OF this(1) assms(2-4)] this(2)
  have "fst (xs ! k) \<in> set (map fst (take k xs))" by (simp only: list.set_map Un_empty_left)
  then obtain j where "j < length (map fst (take k xs))" "map fst (take k xs) ! j = fst (xs ! k)"
    by (metis in_set_conv_nth)
  then show ?thesis using assms(3) by (intro exI [of _ j]) simp
qed

end
