(* ===== verification/Float64.thy ===== *)
theory Float64
  imports Complex_Main "HOL-Library.Log_Nat" Prelude
begin

text \<open>
  Python's \<^verbatim>\<open>float\<close> is IEEE 754 binary64. A finite float is a rational number, and every
  arithmetic operation is the exact result rounded to 53 significant bits, ties to even.
  The exponent range is left unbounded: most quantities of the modelled code (block counts,
  milliseconds, ratios of counts) stay far from overflow and from the subnormal range. Integers
  of a trace and weights of a caller need not: the theories \<^verbatim>\<open>Framework\<close> and \<^verbatim>\<open>Fair_Share\<close> say
  what happens to them.
\<close>

type_synonym pyfloat = rat

section \<open>Rounding\<close>

text \<open>The exponent of the leading bit of a positive number.\<close>

definition ilog2 :: "rat \<Rightarrow> int" where
  "ilog2 x = (if 1 \<le> x then bitlen \<lfloor>x\<rfloor> - 1 else - bitlen (\<lceil>1 / x\<rceil> - 1))"

text \<open>Round to the nearest integer, ties to the even one.\<close>

definition round_half_even :: "rat \<Rightarrow> int" where
  "round_half_even x =
     (let f = \<lfloor>x\<rfloor>; r = x - of_int f
      in if r < 1 / 2 then f else if 1 / 2 < r then f + 1 else if even f then f else f + 1)"

definition fl_pos :: "rat \<Rightarrow> rat" where
  "fl_pos x = (let e = ilog2 x - 52 in of_int (round_half_even (x / 2 powi e)) * 2 powi e)"

definition fl :: "rat \<Rightarrow> pyfloat" where
  "fl x = (if x = 0 then 0 else if 0 < x then fl_pos x else - fl_pos (- x))"

text \<open>The operations, and the conversion of an integer operand.\<close>

definition fadd :: "pyfloat \<Rightarrow> pyfloat \<Rightarrow> pyfloat" where
  "fadd a b = fl (a + b)"

definition fmul :: "pyfloat \<Rightarrow> pyfloat \<Rightarrow> pyfloat" where
  "fmul a b = fl (a * b)"

definition fdiv :: "pyfloat \<Rightarrow> pyfloat \<Rightarrow> pyfloat" where
  "fdiv a b = fl (a / b)"

definition int_to_float :: "int \<Rightarrow> pyfloat" where
  "int_to_float n = fl (of_int n)"

section \<open>The contract of a rounding\<close>

locale rounding =
  fixes rnd :: "rat \<Rightarrow> rat"
  assumes rnd_mono: "x \<le> y \<Longrightarrow> rnd x \<le> rnd y"
    and rnd_idem: "rnd (rnd x) = rnd x"
    and rnd_int: "\<bar>n\<bar> \<le> 2 ^ 53 \<Longrightarrow> rnd (of_int n) = of_int n"
begin

lemma rnd_0 [simp]: "rnd 0 = 0" and rnd_1 [simp]: "rnd 1 = 1"
  using rnd_int [of 0] rnd_int [of 1] by simp_all

lemma rnd_nonneg: "0 \<le> x \<Longrightarrow> 0 \<le> rnd x"
  using rnd_mono [of 0 x] by simp

lemma rnd_unit: "0 \<le> x \<Longrightarrow> x \<le> 1 \<Longrightarrow> 0 \<le> rnd x \<and> rnd x \<le> 1"
  using rnd_mono [of 0 x] rnd_mono [of x 1] by simp

text \<open>Rounding never crosses a representable number.\<close>

lemma rnd_le_fixed: "rnd z = z \<Longrightarrow> x \<le> z \<Longrightarrow> rnd x \<le> z"
  using rnd_mono [of x z] by simp

lemma rnd_ge_fixed: "rnd z = z \<Longrightarrow> z \<le> x \<Longrightarrow> z \<le> rnd x"
  using rnd_mono [of z x] by simp

end

section \<open>binary64 satisfies it\<close>

lemma bitlen_ge_1: "0 < n \<Longrightarrow> 1 \<le> bitlen n"
  using bitlen_bounds [of n] by (cases "bitlen n \<le> 0") auto

lemma powi_scale: "(2::rat) powi (e + int n) = 2 ^ n * 2 powi e"
  by (simp add: power_int_add)

lemma powi_ilog2:
  "(2::rat) powi e = 2 ^ 52 * 2 powi (e - 52)" "(2::rat) powi (e + 1) = 2 ^ 53 * 2 powi (e - 52)"
  using powi_scale [of "e - 52" 52] powi_scale [of "e - 52" 53] by (simp_all add: algebra_simps)

lemma ilog2_bounds:
  assumes "0 < x"
  shows "2 powi (ilog2 x) \<le> x" and "x < 2 powi (ilog2 x + 1)"
proof -
  have "2 powi (ilog2 x) \<le> x \<and> x < 2 powi (ilog2 x + 1)"
  proof (cases "1 \<le> x")
    case True
    let ?n = "\<lfloor>x\<rfloor>"
    have n: "0 < ?n" using True by simp
    have b: "1 \<le> bitlen ?n" by (rule bitlen_ge_1 [OF n])
    note bb = bitlen_bounds [OF n]
    have "2 powi (bitlen ?n - 1) = (of_int (2 ^ nat (bitlen ?n - 1)) :: rat)"
      using b by (simp add: power_int_def)
    also have "\<dots> \<le> of_int ?n" using bb by (subst of_int_le_iff) simp
    also have "\<dots> \<le> x" by (rule of_int_floor_le)
    finally have lo: "2 powi (bitlen ?n - 1) \<le> x" .
    have "x < of_int ?n + 1" by linarith
    also have "\<dots> \<le> of_int (2 ^ nat (bitlen ?n))"
    proof -
      have "?n + 1 \<le> 2 ^ nat (bitlen ?n)" using bb by simp
      then have "(of_int (?n + 1) :: rat) \<le> of_int (2 ^ nat (bitlen ?n))" by (subst of_int_le_iff)
      then show ?thesis by simp
    qed
    also have "\<dots> = 2 powi (bitlen ?n)" using b by (simp add: power_int_def)
    finally show ?thesis using lo True by (simp add: ilog2_def)
  next
    case False
    let ?m = "\<lceil>1 / x\<rceil>"
    have y: "1 < 1 / x" using False assms by simp
    then have m: "0 < ?m - 1" by (simp add: less_ceiling_iff)
    let ?b = "bitlen (?m - 1)"
    note bb = bitlen_bounds [OF m]
    have b0: "0 < ?b" using bitlen_ge_1 [OF m] by simp
    have "1 / x \<le> of_int ?m" by (rule le_of_int_ceiling)
    also have "\<dots> \<le> of_int (2 ^ nat ?b)" using bb by (subst of_int_le_iff) simp
    also have "\<dots> = 2 powi ?b" using b0 by (simp add: power_int_def)
    finally have "1 / x \<le> 2 powi ?b" .
    then have lo: "2 powi (- ?b) \<le> x"
      using assms by (simp add: power_int_minus field_simps)
    have "2 powi (?b - 1) = (of_int (2 ^ nat (?b - 1)) :: rat)"
      using b0 by (simp add: power_int_def)
    also have "\<dots> \<le> of_int (?m - 1)" using bb by (subst of_int_le_iff) simp
    also have "\<dots> < 1 / x" by linarith
    finally have "x < 1 / 2 powi (?b - 1)" using assms by (simp add: field_simps)
    also have "\<dots> = 2 powi (- ?b + 1)"
      by (simp add: power_int_minus [symmetric] inverse_eq_divide [symmetric])
    finally show ?thesis using lo False by (simp add: ilog2_def)
  qed
  then show "2 powi (ilog2 x) \<le> x" and "x < 2 powi (ilog2 x + 1)" by auto
qed

lemma round_half_even_mono: "x \<le> y \<Longrightarrow> round_half_even x \<le> round_half_even y"
proof -
  assume xy: "x \<le> y"
  then have "\<lfloor>x\<rfloor> \<le> \<lfloor>y\<rfloor>" by (rule floor_mono)
  then show ?thesis
  proof (cases "\<lfloor>x\<rfloor> = \<lfloor>y\<rfloor>")
    case True
    with xy show ?thesis by (auto simp: round_half_even_def Let_def)
  next
    case False
    with \<open>\<lfloor>x\<rfloor> \<le> \<lfloor>y\<rfloor>\<close> show ?thesis by (auto simp: round_half_even_def Let_def)
  qed
qed

lemma round_half_even_int [simp]: "round_half_even (of_int n) = n"
  by (simp add: round_half_even_def)

lemma round_half_even_down:
  assumes "of_int n \<le> x" "x < of_int n + 1 / 2"
  shows "round_half_even x = n"
proof -
  have "\<lfloor>x\<rfloor> = n" using assms by (intro floor_unique) auto
  then show ?thesis using assms by (simp add: round_half_even_def Let_def)
qed

lemma ilog2_ge: "0 < x \<Longrightarrow> 2 powi k \<le> x \<Longrightarrow> k \<le> ilog2 x"
proof (rule ccontr)
  assume "0 < x" "2 powi k \<le> x" "\<not> k \<le> ilog2 x"
  then have "2 powi (ilog2 x + 1) \<le> (2::rat) powi k" by (intro power_int_increasing) auto
  with ilog2_bounds(2) [OF \<open>0 < x\<close>] \<open>2 powi k \<le> x\<close> show False by linarith
qed

lemma ilog2_less: "0 < x \<Longrightarrow> x < 2 powi k \<Longrightarrow> ilog2 x < k"
proof (rule ccontr)
  assume "0 < x" "x < 2 powi k" "\<not> ilog2 x < k"
  then have "2 powi k \<le> (2::rat) powi (ilog2 x)" by (intro power_int_increasing) auto
  with ilog2_bounds(1) [OF \<open>0 < x\<close>] \<open>x < 2 powi k\<close> show False by linarith
qed

lemma powi_pos [simp]: "0 < (2::rat) powi k"
  by simp

text \<open>The scaled significand lies between \<open>2 ^ 52\<close> and \<open>2 ^ 53\<close>.\<close>

lemma significand_bounds:
  assumes "0 < x"
  defines "q \<equiv> x / 2 powi (ilog2 x - 52)"
  shows "2 ^ 52 \<le> round_half_even q" and "round_half_even q \<le> 2 ^ 53"
proof -
  have "of_int (2 ^ 52) \<le> q"
    using ilog2_bounds(1) [OF assms(1)] powi_ilog2(1) [of "ilog2 x"]
    by (simp add: q_def pos_le_divide_eq)
  from round_half_even_mono [OF this] show "2 ^ 52 \<le> round_half_even q"
    by (simp only: round_half_even_int)
  have "q \<le> of_int (2 ^ 53)"
    using ilog2_bounds(2) [OF assms(1)] powi_ilog2(2) [of "ilog2 x"]
    by (simp add: q_def pos_divide_le_eq)
  from round_half_even_mono [OF this] show "round_half_even q \<le> 2 ^ 53"
    by (simp only: round_half_even_int)
qed

lemma fl_pos_bounds:
  assumes "0 < x"
  shows "2 powi (ilog2 x) \<le> fl_pos x" and "fl_pos x \<le> 2 powi (ilog2 x + 1)"
proof -
  let ?e = "ilog2 x - 52"
  let ?n = "round_half_even (x / 2 powi ?e)"
  have n: "of_int (2 ^ 52) \<le> (of_int ?n :: rat)" "(of_int ?n :: rat) \<le> of_int (2 ^ 53)"
    using significand_bounds [OF assms] by (simp_all only: of_int_le_iff)
  show "2 powi (ilog2 x) \<le> fl_pos x"
    using n(1) powi_ilog2(1) [of "ilog2 x"] by (simp add: fl_pos_def Let_def)
  show "fl_pos x \<le> 2 powi (ilog2 x + 1)"
    using n(2) powi_ilog2(2) [of "ilog2 x"] by (simp add: fl_pos_def Let_def)
qed

lemma fl_pos_pos: "0 < x \<Longrightarrow> 0 < fl_pos x"
  using fl_pos_bounds(1) [of x] powi_pos [of "ilog2 x"] by linarith

lemma fl_pos_mono:
  assumes "0 < x" "x \<le> y"
  shows "fl_pos x \<le> fl_pos y"
proof (cases "ilog2 x = ilog2 y")
  case True
  have "x / 2 powi (ilog2 y - 52) \<le> y / 2 powi (ilog2 y - 52)"
    using assms(2) by (simp add: divide_right_mono)
  from round_half_even_mono [OF this] show ?thesis
    by (simp add: fl_pos_def Let_def True)
next
  case False
  have y: "0 < y" using assms by linarith
  have "2 powi (ilog2 x) \<le> y" using ilog2_bounds(1) [OF assms(1)] assms(2) by linarith
  then have "ilog2 x \<le> ilog2 y" by (rule ilog2_ge [OF y])
  with False have "2 powi (ilog2 x + 1) \<le> (2::rat) powi (ilog2 y)"
    by (intro power_int_increasing) auto
  with fl_pos_bounds(2) [OF assms(1)] fl_pos_bounds(1) [OF y] show ?thesis by linarith
qed

text \<open>A number with at most 53 significant bits is its own rounding.\<close>

lemma fl_pos_exact:
  assumes "0 < m" "m < 2 ^ 53"
  shows "fl_pos (of_int m * 2 powi k) = of_int m * 2 powi k"
proof -
  let ?x = "of_int m * 2 powi k :: rat"
  have x: "0 < ?x" using assms(1) by simp
  have "(of_int m :: rat) < of_int (2 ^ 53)" using assms(2) by (simp only: of_int_less_iff)
  then have "?x < 2 powi (k + int 53)" unfolding powi_scale by simp
  then have "ilog2 ?x < k + int 53" by (rule ilog2_less [OF x])
  moreover define e where "e = ilog2 ?x - 52"
  moreover define j where "j = nat (k - e)"
  ultimately have k: "2 powi k = (2::rat) ^ j * 2 powi e"
    using powi_scale [of e j] by simp
  have "fl_pos ?x = of_int (round_half_even (?x / 2 powi e)) * 2 powi e"
    by (simp only: fl_pos_def Let_def e_def)
  also have "?x / 2 powi e = of_int (m * 2 ^ j)" by (simp add: k)
  also have "of_int (round_half_even (of_int (m * 2 ^ j))) * 2 powi e = ?x"
    by (simp only: round_half_even_int) (simp add: k)
  finally show ?thesis .
qed

lemma fl_pos_exact_le:
  assumes "0 < m" "m \<le> 2 ^ 53"
  shows "fl_pos (of_int m * 2 powi k) = of_int m * 2 powi k"
proof (cases "m = 2 ^ 53")
  case True
  have "of_int m * 2 powi k = (of_int 1 * 2 powi (k + int 53) :: rat)"
    unfolding powi_scale by (simp add: True)
  then show ?thesis using fl_pos_exact [of 1 "k + int 53"] by simp
qed (use assms fl_pos_exact in auto)

lemma fl_exact:
  assumes "\<bar>m\<bar> \<le> 2 ^ 53"
  shows "fl (of_int m * 2 powi k) = of_int m * 2 powi k"
proof -
  consider "m = 0" | "0 < m" | "m < 0" by linarith
  then show ?thesis
  proof cases
    case 2
    then show ?thesis using fl_pos_exact_le [of m k] assms by (simp add: fl_def)
  next
    case 3
    then have "of_int m * (2::rat) powi k < 0" by (simp add: mult_neg_pos)
    then show ?thesis using fl_pos_exact_le [of "- m" k] assms 3 by (simp add: fl_def)
  qed (simp add: fl_def)
qed

text \<open>An excess below half a unit in the last place of an integer is rounded away.\<close>

lemma fl_near_int:
  assumes "0 < k" "k < 2 ^ 52" "of_int k \<le> x" "x \<le> of_int k + of_int k / 2 ^ 54"
  shows "fl x = of_int k"
proof -
  define e where "e = ilog2 (of_int k :: rat)"
  have k0: "0 < (of_int k :: rat)" using assms(1) by simp
  have x0: "0 < x" using k0 assms(3) by linarith
  have lo: "2 powi e \<le> (of_int k :: rat)" and hi: "(of_int k :: rat) < 2 powi (e + 1)"
    using ilog2_bounds [OF k0] by (simp_all add: e_def)
  have e0: "0 \<le> e" unfolding e_def by (rule ilog2_ge [OF k0]) (use assms(1) in simp)
  have "(of_int k :: rat) < of_int (2 ^ 52)" using assms(2) by (simp only: of_int_less_iff)
  then have e52: "e < 52" unfolding e_def by (intro ilog2_less [OF k0]) (simp add: power_int_def)
  define n where "n = nat (52 - e)"
  have step: "2 powi (e + 1) = (of_int (2 ^ nat (e + 1)) :: rat)" using e0 by (simp add: power_int_def)
  have "k + 1 \<le> 2 ^ nat (e + 1)" using hi unfolding step by (simp only: of_int_less_iff)
  then have k1: "of_int k + 1 \<le> (2::rat) powi (e + 1)"
    unfolding step by (metis of_int_1 of_int_add of_int_le_iff)
  have "of_int k / 2 ^ 54 < (1::rat)"
    using \<open>(of_int k :: rat) < of_int (2 ^ 52)\<close> by simp
  then have xhi: "x < 2 powi (e + 1)" using assms(4) k1 by linarith
  have "ilog2 x = e"
    using ilog2_ge [OF x0, of e] ilog2_less [OF x0 xhi] lo assms(3) by linarith
  moreover have scale: "(2::rat) powi (e - 52) = 1 / 2 ^ n"
    using e52 by (simp add: n_def power_int_def inverse_eq_divide power_one_over)
  ultimately have f: "fl x = of_int (round_half_even (x * 2 ^ n)) / 2 ^ n"
    using x0 by (simp add: fl_def fl_pos_def Let_def)
  have "(2::rat) powi (e + 1) * 2 ^ n = 2 powi (e + 1 + int n)"
    by (simp add: power_int_add)
  also have "\<dots> = 2 ^ 53" using e52 by (simp add: n_def power_int_def)
  finally have "of_int k * 2 ^ n < (2 ^ 53 :: rat)"
    using mult_strict_right_mono [OF hi, of "2 ^ n"] by simp
  moreover have "x * 2 ^ n \<le> of_int k * 2 ^ n + of_int k * 2 ^ n / 2 ^ 54"
    using mult_right_mono [OF assms(4), of "2 ^ n"] by (simp add: algebra_simps)
  moreover have "\<And>a y :: rat. a < 2 ^ 53 \<Longrightarrow> y \<le> a + a / 2 ^ 54 \<Longrightarrow> y < a + 1 / 2" by simp
  ultimately have "x * 2 ^ n < of_int k * 2 ^ n + 1 / 2" by blast
  then have "x * 2 ^ n < of_int (k * 2 ^ n) + 1 / 2" by simp
  moreover have "of_int (k * 2 ^ n) \<le> x * 2 ^ n"
    using mult_right_mono [OF assms(3), of "2 ^ n"] by simp
  ultimately have "round_half_even (x * 2 ^ n) = k * 2 ^ n"
    by (intro round_half_even_down)
  then show ?thesis by (simp add: f)
qed

lemma fl_pos_idem: "0 < x \<Longrightarrow> fl_pos (fl_pos x) = fl_pos x"
  using significand_bounds [of x]
    fl_pos_exact_le [of "round_half_even (x / 2 powi (ilog2 x - 52))" "ilog2 x - 52"]
  by (simp add: fl_pos_def [of x] Let_def)

interpretation f64: rounding fl
proof (unfold_locales, goal_cases)
  case (1 x y)
  consider "0 < x" | "y < 0" | "x \<le> 0" "0 \<le> y" by linarith
  then show ?case
    using 1 fl_pos_mono [of x y] fl_pos_mono [of "- y" "- x"] fl_pos_pos [of "- x"] fl_pos_pos [of y]
    by cases (auto simp: fl_def)
next
  case (2 x)
  then show ?case
    using fl_pos_idem [of x] fl_pos_idem [of "- x"] fl_pos_pos [of x] fl_pos_pos [of "- x"]
    by (auto simp: fl_def)
next
  case (3 n)
  then show ?case using fl_exact [of n 0] by simp
qed

lemma fl_gt_0: "0 < x \<Longrightarrow> 0 < fl x"
  by (simp add: fl_def fl_pos_pos)

lemma fadd_pos: "0 \<le> a \<Longrightarrow> 0 < b \<Longrightarrow> 0 < fadd a b"
  by (simp add: fadd_def fl_gt_0)

lemma fdiv_pos: "0 < a \<Longrightarrow> 0 < b \<Longrightarrow> 0 < fdiv a b"
  by (simp add: fdiv_def fl_gt_0)

lemma fl_max: "fl a = a \<Longrightarrow> fl b = b \<Longrightarrow> fl (max a b) = max a b"
  by (simp add: max_def)

end
