(* ===== verification/Tiered.thy ===== *)
theory Tiered
  imports Policies Float64
begin

text \<open>
  The two-tier simulator of \<^verbatim>\<open>python/bench/tiered.py\<close>: a fast and a slow policy wired so
  that the fast tier's victims are demoted into the slow one, a successor graph over the
  blocks of past requests, and the prefetch that follows it.
\<close>

section \<open>Model\<close>

record TieredCosts =
  prefill_ms_per_block :: pyfloat
  promote_ms_per_block :: pyfloat
  decode_ms_per_token :: pyfloat

definition default_costs :: TieredCosts where
  "default_costs =
     \<lparr>prefill_ms_per_block = 4, promote_ms_per_block = 1 / 2, decode_ms_per_token = fl (5 / 100)\<rparr>"

record RequestOutcome =
  fast_hits :: nat
  slow_hits :: nat
  misses :: nat
  ttft_ms :: pyfloat
  block_hits :: "bool list"

record TieredSimulator =
  sim_fast :: policy
  sim_slow :: policy
  sim_successor :: "hash_id \<rightharpoonup> hash_id"
  sim_prefetch_depth :: int
  sim_costs :: TieredCosts

definition TieredSimulator_init ::
  "int \<Rightarrow> int \<Rightarrow> string \<Rightarrow> int \<Rightarrow> TieredCosts \<Rightarrow> string \<Rightarrow> TieredSimulator result" where
  "TieredSimulator_init fast_blocks slow_blocks policy_name prefetch_depth costs slow_policy_name =
     bind_result (make_policy policy_name fast_blocks) (\<lambda>fast.
     bind_result
       (make_policy (if slow_policy_name = [] then policy_name else slow_policy_name) slow_blocks)
       (\<lambda>slow. Inr \<lparr>sim_fast = fast, sim_slow = slow, sim_successor = Map.empty,
                    sim_prefetch_depth = prefetch_depth, sim_costs = costs\<rparr>))"

text \<open>
  \<^verbatim>\<open>self._fast.admit(h)\<close>, whose \<^verbatim>\<open>on_evict\<close> is \<^verbatim>\<open>self._slow.admit\<close>; and the pair of calls
  \<^verbatim>\<open>self._slow.remove(h)\<close>, \<^verbatim>\<open>self._fast.admit(h)\<close> that promotes a block.
\<close>

definition fast_admit :: "hash_id \<Rightarrow> TieredSimulator \<Rightarrow> TieredSimulator" where
  "fast_admit h sim =
     (let (fast, evicted) = policy_admit h (sim_fast sim)
      in sim\<lparr>sim_fast := fast, sim_slow := demote_all policy_admit (sim_slow sim) evicted\<rparr>)"

definition promote :: "hash_id \<Rightarrow> TieredSimulator \<Rightarrow> TieredSimulator" where
  "promote h sim = fast_admit h (sim\<lparr>sim_slow := snd (policy_remove h (sim_slow sim))\<rparr>)"

text \<open>The inner and the outer loop of \<^verbatim>\<open>_prefetch_for_request\<close>; both count the promotions.\<close>

fun prefetch_chain :: "nat \<Rightarrow> hash_id \<Rightarrow> TieredSimulator \<Rightarrow> nat \<times> TieredSimulator" where
  "prefetch_chain 0 cursor sim = (0, sim)"
| "prefetch_chain (Suc budget) cursor sim =
     (case sim_successor sim cursor of
        None \<Rightarrow> (0, sim)
      | Some nxt \<Rightarrow>
          if policy_contains nxt (sim_slow sim)
          then (let (n, sim') = prefetch_chain budget nxt (promote nxt sim) in (n + 1, sim'))
          else prefetch_chain budget nxt sim)"

fun prefetch_anchors :: "nat \<Rightarrow> hash_id list \<Rightarrow> TieredSimulator \<Rightarrow> nat \<times> TieredSimulator" where
  "prefetch_anchors budget [] sim = (0, sim)"
| "prefetch_anchors budget (anchor # anchors) sim =
     (if policy_contains anchor (sim_fast sim) \<or> policy_contains anchor (sim_slow sim)
      then (let (n, sim1) = prefetch_chain budget anchor sim;
                (m, sim2) = prefetch_anchors budget anchors sim1
            in (n + m, sim2))
      else prefetch_anchors budget anchors sim)"

definition prefetch_for_request :: "hash_id list \<Rightarrow> TieredSimulator \<Rightarrow> nat \<times> TieredSimulator" where
  "prefetch_for_request hash_ids sim =
     (if sim_prefetch_depth sim \<le> 0 \<or> hash_ids = [] then (0, sim)
      else prefetch_anchors (nat (int (length hash_ids) + sim_prefetch_depth sim)) hash_ids sim)"

text \<open>The counters of \<^verbatim>\<open>process_request\<close> and its loop over the blocks of a request.\<close>

record tally =
  t_fast :: nat
  t_slow :: nat
  t_miss :: nat
  t_hits :: "bool list"

definition serve_block :: "hash_id \<Rightarrow> tally \<Rightarrow> TieredSimulator \<Rightarrow> tally \<times> TieredSimulator" where
  "serve_block h t sim =
     (if policy_contains h (sim_fast sim)
      then (t\<lparr>t_fast := t_fast t + 1, t_hits := t_hits t @ [True]\<rparr>,
            sim\<lparr>sim_fast := policy_touch h (sim_fast sim)\<rparr>)
      else if policy_contains h (sim_slow sim)
      then (t\<lparr>t_slow := t_slow t + 1, t_hits := t_hits t @ [True]\<rparr>, promote h sim)
      else (t\<lparr>t_miss := t_miss t + 1, t_hits := t_hits t @ [False]\<rparr>, fast_admit h sim))"

fun serve_blocks ::
  "hash_id list \<Rightarrow> hash_id option \<Rightarrow> tally \<Rightarrow> TieredSimulator \<Rightarrow> tally \<times> TieredSimulator" where
  "serve_blocks [] prev t sim = (t, sim)"
| "serve_blocks (h # hs) prev t sim =
     (let (t1, sim1) = serve_block h t sim;
          sim2 = (case prev of
                    None \<Rightarrow> sim1
                  | Some p \<Rightarrow> sim1\<lparr>sim_successor := (sim_successor sim1)(p \<mapsto> h)\<rparr>)
      in serve_blocks hs (Some h) t1 sim2)"

definition request_ttft :: "TieredCosts \<Rightarrow> nat \<Rightarrow> nat \<Rightarrow> pyfloat" where
  "request_ttft costs n_misses n_slow =
     max (fadd (fmul (int_to_float (int n_misses)) (prefill_ms_per_block costs))
               (fmul (int_to_float (int n_slow)) (promote_ms_per_block costs)))
         (prefill_ms_per_block costs)"

definition process_request ::
  "hash_id list \<Rightarrow> TieredSimulator \<Rightarrow> RequestOutcome \<times> TieredSimulator" where
  "process_request hash_ids sim =
     (let (prefetched, sim1) = prefetch_for_request hash_ids sim;
          (t, sim2) = serve_blocks hash_ids None
                        \<lparr>t_fast = 0, t_slow = 0, t_miss = 0, t_hits = []\<rparr> sim1
      in (\<lparr>fast_hits = t_fast t, slow_hits = t_slow t, misses = t_miss t,
           ttft_ms = request_ttft (sim_costs sim2) (t_miss t) (t_slow t),
           block_hits = t_hits t\<rparr>, sim2))"

text \<open>A sequence of requests, as the replay and the tests drive the simulator.\<close>

fun process_requests ::
  "hash_id list list \<Rightarrow> TieredSimulator \<Rightarrow> RequestOutcome list \<times> TieredSimulator" where
  "process_requests [] sim = ([], sim)"
| "process_requests (r # rs) sim =
     (let (out, sim1) = process_request r sim; (outs, sim2) = process_requests rs sim1
      in (out # outs, sim2))"

section \<open>Invariant\<close>

definition tiered_invar :: "TieredSimulator \<Rightarrow> bool" where
  "tiered_invar sim \<longleftrightarrow> policy_invar (sim_fast sim) \<and> policy_invar (sim_slow sim)
     \<and> policy_resident (sim_fast sim) \<inter> policy_resident (sim_slow sim) = {}"

definition held :: "TieredSimulator \<Rightarrow> hash_id set" where
  "held sim = policy_resident (sim_fast sim) \<union> policy_resident (sim_slow sim)"

text \<open>What every step keeps besides the invariant.\<close>

definition same_config :: "TieredSimulator \<Rightarrow> TieredSimulator \<Rightarrow> bool" where
  "same_config sim sim' \<longleftrightarrow>
     policy_capacity (sim_fast sim') = policy_capacity (sim_fast sim)
     \<and> policy_capacity (sim_slow sim') = policy_capacity (sim_slow sim)
     \<and> single_queue (sim_slow sim') = single_queue (sim_slow sim)
     \<and> sim_costs sim' = sim_costs sim \<and> sim_prefetch_depth sim' = sim_prefetch_depth sim"

lemma same_config_refl [simp]: "same_config sim sim"
  by (simp add: same_config_def)

lemma same_config_trans: "same_config a b \<Longrightarrow> same_config b c \<Longrightarrow> same_config a c"
  by (simp add: same_config_def)

lemma single_queue_demote_all [simp]:
  "single_queue (demote_all policy_admit p ev) = single_queue p"
  by (induction ev arbitrary: p) (simp_all add: demote_all_def)

lemma fast_admit_laws:
  assumes "tiered_invar sim" "h \<notin> policy_resident (sim_slow sim)"
  shows "tiered_invar (fast_admit h sim)" "same_config sim (fast_admit h sim)"
    and "held (fast_admit h sim) \<subseteq> insert h (held sim)"
    and "sim_successor (fast_admit h sim) = sim_successor sim"
proof -
  obtain f ev where a: "policy_admit h (sim_fast sim) = (f, ev)"
    by (cases "policy_admit h (sim_fast sim)")
  have inv: "policy_invar (sim_fast sim)" "policy_invar (sim_slow sim)"
    "policy_resident (sim_fast sim) \<inter> policy_resident (sim_slow sim) = {}"
    using assms(1) by (auto simp: tiered_invar_def)
  note f = pol.admit_invar [OF inv(1) a] pol.admit_conserves [OF inv(1) a]
  note s = pol.demote_all_keeps [OF inv(2), of ev]
  have "policy_resident f \<inter> policy_resident (demote_all policy_admit (sim_slow sim) ev) = {}"
    by (rule pol.admit_demote_exclusive [OF inv assms(2) a])
  with f s show "tiered_invar (fast_admit h sim)" "same_config sim (fast_admit h sim)"
    by (auto simp: fast_admit_def a tiered_invar_def same_config_def)
  show "held (fast_admit h sim) \<subseteq> insert h (held sim)"
    using f s by (auto simp: fast_admit_def a held_def)
  show "sim_successor (fast_admit h sim) = sim_successor sim"
    by (simp add: fast_admit_def a)
qed

lemma promote_laws:
  assumes "tiered_invar sim" "h \<in> policy_resident (sim_slow sim)"
  shows "tiered_invar (promote h sim)" "same_config sim (promote h sim)"
    and "held (promote h sim) \<subseteq> held sim"
    and "sim_successor (promote h sim) = sim_successor sim"
proof -
  let ?sim = "sim\<lparr>sim_slow := snd (policy_remove h (sim_slow sim))\<rparr>"
  have inv: "policy_invar (sim_slow sim)" using assms(1) by (simp add: tiered_invar_def)
  note r = pol.remove_removes [OF inv prod.collapse [symmetric], of h]
  have "tiered_invar ?sim" "same_config sim ?sim"
    using r assms(1) by (auto simp: tiered_invar_def same_config_def)
  moreover have "h \<notin> policy_resident (sim_slow ?sim)" "insert h (held ?sim) = held sim"
    using r assms(2) by (auto simp: held_def)
  ultimately show "tiered_invar (promote h sim)" "same_config sim (promote h sim)"
    and "held (promote h sim) \<subseteq> held sim"
    and "sim_successor (promote h sim) = sim_successor sim"
    using fast_admit_laws [of ?sim h] same_config_trans [of sim ?sim]
    by (simp_all add: promote_def)
qed

text \<open>With a one-queue slow tier a promotion loses nothing.\<close>

lemma promote_lossless:
  assumes "tiered_invar sim" "single_queue (sim_slow sim)" "h \<in> policy_resident (sim_slow sim)"
  shows "held (promote h sim) = held sim"
proof -
  obtain f ev where a: "policy_admit h (sim_fast sim) = (f, ev)"
    by (cases "policy_admit h (sim_fast sim)")
  obtain b s1 where r: "policy_remove h (sim_slow sim) = (b, s1)"
    by (cases "policy_remove h (sim_slow sim)")
  have fi: "policy_invar (sim_fast sim)" and q: "queue_invar (sim_slow sim)"
    using assms(1,2) by (auto simp: tiered_invar_def queue_invar_def)
  note c = pol.admit_conserves [OF fi a]
  have "policy_resident (demote_all policy_admit s1 ev) = (policy_resident (sim_slow sim) - {h}) \<union> set ev"
    by (rule queue.swap_lossless [OF q assms(3) r pol.admit_evicts_one [OF fi a]])
  with c assms(3) show ?thesis by (auto simp: held_def promote_def fast_admit_def a r)
qed

section \<open>Prefetch\<close>

text \<open>A step that only moves blocks between the tiers, dropping some at worst.\<close>

definition moved :: "TieredSimulator \<Rightarrow> TieredSimulator \<Rightarrow> bool" where
  "moved sim sim' \<longleftrightarrow> tiered_invar sim' \<and> same_config sim sim'
     \<and> sim_successor sim' = sim_successor sim \<and> held sim' \<subseteq> held sim
     \<and> (single_queue (sim_slow sim) \<longrightarrow> held sim' = held sim)"

lemma moved_refl: "tiered_invar sim \<Longrightarrow> moved sim sim"
  by (simp add: moved_def)

lemma moved_trans: "moved a b \<Longrightarrow> moved b c \<Longrightarrow> moved a c"
  by (auto simp: moved_def same_config_def)

lemma promote_moved:
  "tiered_invar sim \<Longrightarrow> h \<in> policy_resident (sim_slow sim) \<Longrightarrow> moved sim (promote h sim)"
  by (simp add: moved_def promote_laws promote_lossless)

lemma tiered_contains:
  assumes "tiered_invar sim"
  shows "policy_contains h (sim_fast sim) \<longleftrightarrow> h \<in> policy_resident (sim_fast sim)"
    and "policy_contains h (sim_slow sim) \<longleftrightarrow> h \<in> policy_resident (sim_slow sim)"
  using assms by (auto simp: tiered_invar_def pol.contains_iff)

lemma prefetch_chain_moved:
  "tiered_invar sim \<Longrightarrow> moved sim (snd (prefetch_chain budget cursor sim))
     \<and> fst (prefetch_chain budget cursor sim) \<le> budget"
proof (induction budget arbitrary: cursor sim)
  case (Suc budget)
  show ?case
  proof (cases "sim_successor sim cursor")
    case (Some nxt)
    show ?thesis
    proof (cases "policy_contains nxt (sim_slow sim)")
      case True
      then have m: "moved sim (promote nxt sim)"
        using Suc.prems by (intro promote_moved) (simp_all add: tiered_contains)
      then have "tiered_invar (promote nxt sim)" by (simp add: moved_def)
      from Suc.IH [OF this, of nxt] True Some show ?thesis
        by (auto split: prod.splits intro: moved_trans [OF m])
    qed (use Suc Some in \<open>auto simp: le_SucI\<close>)
  qed (simp add: moved_refl Suc.prems)
qed (simp add: moved_refl)

lemma prefetch_anchors_moved:
  "tiered_invar sim \<Longrightarrow> moved sim (snd (prefetch_anchors budget anchors sim))"
proof (induction anchors arbitrary: sim)
  case (Cons a anchors)
  have c: "moved sim (snd (prefetch_chain budget a sim))" using prefetch_chain_moved Cons.prems by blast
  then have "tiered_invar (snd (prefetch_chain budget a sim))" by (simp add: moved_def)
  from Cons.IH [OF this] c Cons.IH [OF Cons.prems] show ?case
    by (auto split: prod.splits intro: moved_trans)
qed (simp add: moved_refl)

lemma prefetch_moved:
  "tiered_invar sim \<Longrightarrow> moved sim (snd (prefetch_for_request hash_ids sim))"
  by (simp add: prefetch_for_request_def prefetch_anchors_moved moved_refl)

section \<open>Serving a request\<close>

definition tally_ok :: "tally \<Rightarrow> bool" where
  "tally_ok t \<longleftrightarrow> t_fast t + t_slow t + t_miss t = length (t_hits t)
     \<and> length (filter id (t_hits t)) = t_fast t + t_slow t"

lemma serve_block_eq:
  assumes "tiered_invar sim"
  shows "h \<in> policy_resident (sim_fast sim) \<Longrightarrow> serve_block h t sim =
      (t\<lparr>t_fast := t_fast t + 1, t_hits := t_hits t @ [True]\<rparr>,
       sim\<lparr>sim_fast := policy_touch h (sim_fast sim)\<rparr>)"
    and "h \<notin> policy_resident (sim_fast sim) \<Longrightarrow> h \<in> policy_resident (sim_slow sim) \<Longrightarrow>
      serve_block h t sim =
      (t\<lparr>t_slow := t_slow t + 1, t_hits := t_hits t @ [True]\<rparr>, promote h sim)"
    and "h \<notin> held sim \<Longrightarrow> serve_block h t sim =
      (t\<lparr>t_miss := t_miss t + 1, t_hits := t_hits t @ [False]\<rparr>, fast_admit h sim)"
  by (simp_all add: serve_block_def held_def tiered_contains [OF assms])

lemma serve_block_tally:
  assumes "tiered_invar sim" "serve_block h t sim = (t', sim')"
  shows "tally_ok t \<Longrightarrow> tally_ok t'" "t_hits t' = t_hits t @ [h \<in> held sim]"
  using assms(2) unfolding serve_block_def tiered_contains [OF assms(1)]
  by (simp_all add: tally_ok_def held_def split: if_splits) auto

lemma serve_block_laws:
  assumes "tiered_invar sim" "serve_block h t sim = (t', sim')"
  shows "tiered_invar sim' \<and> same_config sim sim' \<and> held sim' \<subseteq> insert h (held sim)"
proof -
  consider (fast) "h \<in> policy_resident (sim_fast sim)"
    | (slow) "h \<notin> policy_resident (sim_fast sim)" "h \<in> policy_resident (sim_slow sim)"
    | (miss) "h \<notin> held sim" by (auto simp: held_def)
  then show ?thesis
  proof cases
    case fast
    have "sim' = sim\<lparr>sim_fast := policy_touch h (sim_fast sim)\<rparr>"
      using assms(2) serve_block_eq(1) [OF assms(1) fast] by simp
    moreover have "policy_invar (sim_fast sim)" using assms(1) by (simp add: tiered_invar_def)
    note pol.touch_keeps [OF this, of h]
    ultimately show ?thesis using assms(1)
      by (simp add: tiered_invar_def same_config_def held_def subset_insertI)
  next
    case slow
    have "sim' = promote h sim" using assms(2) serve_block_eq(2) [OF assms(1) slow] by simp
    with promote_laws [OF assms(1) slow(2)] show ?thesis by blast
  next
    case miss
    have "sim' = fast_admit h sim" using assms(2) serve_block_eq(3) [OF assms(1) miss] by simp
    with fast_admit_laws [OF assms(1), of h] miss show ?thesis by (simp add: held_def)
  qed
qed

lemma tiered_invar_successor [simp]:
  "tiered_invar (sim\<lparr>sim_successor := g\<rparr>) = tiered_invar sim"
  "same_config s0 (sim\<lparr>sim_successor := g\<rparr>) = same_config s0 sim"
  "held (sim\<lparr>sim_successor := g\<rparr>) = held sim"
  by (simp_all add: tiered_invar_def same_config_def held_def)

text \<open>
  The whole loop. The last conclusion is about every block: it is a hit only if it was
  held when the loop began or came earlier in the same request.
\<close>

lemma serve_blocks_laws:
  assumes "tiered_invar sim" "serve_blocks hs prev t sim = (t', sim')"
  shows "tiered_invar sim' \<and> same_config sim sim' \<and> held sim' \<subseteq> held sim \<union> set hs
    \<and> (tally_ok t \<longrightarrow> tally_ok t')
    \<and> (\<exists>new. t_hits t' = t_hits t @ new \<and> length new = length hs
          \<and> (\<forall>k < length hs. new ! k \<longrightarrow> hs ! k \<in> held sim \<union> set (take k hs)))"
  using assms
proof (induction hs arbitrary: prev t sim)
  case (Cons h hs)
  obtain t1 sim1 where b: "serve_block h t sim = (t1, sim1)" by (cases "serve_block h t sim")
  define sim2 where "sim2 = (case prev of None \<Rightarrow> sim1
      | Some p \<Rightarrow> sim1\<lparr>sim_successor := (sim_successor sim1)(p \<mapsto> h)\<rparr>)"
  have r: "serve_blocks hs (Some h) t1 sim2 = (t', sim')"
    using Cons.prems(2) by (simp add: b sim2_def)
  note l = serve_block_laws [OF Cons.prems(1) b]
  note tl = serve_block_tally [OF Cons.prems(1) b]
  have s2: "tiered_invar sim2" "same_config sim sim2" "held sim2 \<subseteq> insert h (held sim)"
    using l by (simp_all add: sim2_def split: option.splits)
  from Cons.IH [OF s2(1) r] obtain new where
    IH: "tiered_invar sim'" "same_config sim2 sim'" "held sim' \<subseteq> held sim2 \<union> set hs"
      "tally_ok t1 \<longrightarrow> tally_ok t'" "t_hits t' = t_hits t1 @ new" "length new = length hs"
      "\<forall>k < length hs. new ! k \<longrightarrow> hs ! k \<in> held sim2 \<union> set (take k hs)" by blast
  have "((h \<in> held sim) # new) ! k \<longrightarrow> (h # hs) ! k \<in> held sim \<union> set (take k (h # hs))"
    if "k < length (h # hs)" for k
    using that IH(7) s2(3) by (cases k) auto
  moreover have "t_hits t' = t_hits t @ ((h \<in> held sim) # new)" using IH(5) tl(2) by simp
  moreover have "tally_ok t \<longrightarrow> tally_ok t'" using tl(1) IH(4) by blast
  moreover have "held sim' \<subseteq> held sim \<union> set (h # hs)" using IH(3) s2(3) by auto
  ultimately show ?case
    using IH(1,6) same_config_trans [OF s2(2) IH(2)] by (intro conjI exI [of _ "(h \<in> held sim) # new"]) auto
qed simp

lemma process_request_laws:
  assumes "tiered_invar sim" "process_request hs sim = (out, sim')"
  shows "tiered_invar sim'" "same_config sim sim'" "held sim' \<subseteq> held sim \<union> set hs"
    and "fast_hits out + slow_hits out + misses out = length hs"
    and "length (filter id (block_hits out)) = fast_hits out + slow_hits out"
    and "length (block_hits out) = length hs"
    and "k < length hs \<Longrightarrow> block_hits out ! k \<Longrightarrow> hs ! k \<in> held sim \<union> set (take k hs)"
    and "ttft_ms out = request_ttft (sim_costs sim) (misses out) (slow_hits out)"
proof -
  let ?t0 = "\<lparr>t_fast = 0, t_slow = 0, t_miss = 0, t_hits = []\<rparr>"
  obtain n sim1 where p: "prefetch_for_request hs sim = (n, sim1)"
    by (cases "prefetch_for_request hs sim")
  obtain t sim2 where b: "serve_blocks hs None ?t0 sim1 = (t, sim2)"
    by (cases "serve_blocks hs None ?t0 sim1")
  have out: "sim' = sim2" "fast_hits out = t_fast t" "slow_hits out = t_slow t" "misses out = t_miss t"
    "block_hits out = t_hits t" "ttft_ms out = request_ttft (sim_costs sim2) (t_miss t) (t_slow t)"
    using assms(2) by (auto simp: process_request_def p b)
  have m: "moved sim sim1" using prefetch_moved [OF assms(1), of hs] by (simp add: p)
  then have s1: "tiered_invar sim1" "same_config sim sim1" "held sim1 \<subseteq> held sim"
    by (auto simp: moved_def)
  from serve_blocks_laws [OF s1(1) b] obtain new where
    L: "tiered_invar sim2" "same_config sim1 sim2" "held sim2 \<subseteq> held sim1 \<union> set hs"
      "tally_ok ?t0 \<longrightarrow> tally_ok t" "t_hits t = new" "length new = length hs"
      "\<forall>k < length hs. new ! k \<longrightarrow> hs ! k \<in> held sim1 \<union> set (take k hs)" by auto
  have ok: "tally_ok t" using L(4) by (simp add: tally_ok_def)
  show "tiered_invar sim'" using L(1) out by simp
  show c: "same_config sim sim'" using same_config_trans [OF s1(2) L(2)] out by simp
  show "held sim' \<subseteq> held sim \<union> set hs" using L(3) s1(3) out by auto
  show "fast_hits out + slow_hits out + misses out = length hs"
    and "length (filter id (block_hits out)) = fast_hits out + slow_hits out"
    and "length (block_hits out) = length hs"
    using ok L(5,6) out by (auto simp: tally_ok_def)
  show "k < length hs \<Longrightarrow> block_hits out ! k \<Longrightarrow> hs ! k \<in> held sim \<union> set (take k hs)"
    using L(5,7) s1(3) out by auto
  show "ttft_ms out = request_ttft (sim_costs sim) (misses out) (slow_hits out)"
    using out c by (simp add: same_config_def)
qed

lemma process_requests_laws:
  assumes "tiered_invar sim" "process_requests rs sim = (outs, sim')"
  shows "tiered_invar sim' \<and> same_config sim sim' \<and> held sim' \<subseteq> held sim \<union> set (concat rs)
    \<and> length outs = length rs"
  using assms
proof (induction rs arbitrary: sim outs)
  case (Cons r rs)
  obtain out sim1 where a: "process_request r sim = (out, sim1)" by (cases "process_request r sim")
  obtain outs' sim2 where b: "process_requests rs sim1 = (outs', sim2)" by (cases "process_requests rs sim1")
  note l = process_request_laws(1,2,3) [OF Cons.prems(1) a]
  have "sim' = sim2" "outs = out # outs'" using Cons.prems(2) by (auto simp: a b)
  with Cons.IH [OF l(1), of outs'] b l(3) same_config_trans [OF l(2), of sim2] show ?case by auto
qed simp

lemma TieredSimulator_init_laws:
  assumes "TieredSimulator_init fb sb name depth costs sname = Inr sim"
  shows "tiered_invar sim" "held sim = {}" "policy_capacity (sim_fast sim) = nat fb"
    and "policy_capacity (sim_slow sim) = nat sb" "sim_costs sim = costs" "0 < fb" "0 < sb"
    and "sim_prefetch_depth sim = depth"
proof -
  obtain f sl where f: "make_policy name fb = Inr f"
    and sl: "make_policy (if sname = [] then name else sname) sb = Inr sl"
    and sim: "sim = \<lparr>sim_fast = f, sim_slow = sl, sim_successor = Map.empty,
      sim_prefetch_depth = depth, sim_costs = costs\<rparr>"
    using assms by (auto simp: TieredSimulator_init_def bind_result_Inr_iff)
  show "tiered_invar sim" "held sim = {}" "policy_capacity (sim_fast sim) = nat fb"
    and "policy_capacity (sim_slow sim) = nat sb" "sim_costs sim = costs" "0 < fb" "0 < sb"
    and "sim_prefetch_depth sim = depth"
    using make_policy_invar [OF f] make_policy_invar [OF sl]
    by (simp_all add: sim tiered_invar_def held_def)
qed

section \<open>Amount of prefetching\<close>

lemma prefetch_anchors_bound:
  "tiered_invar sim \<Longrightarrow> fst (prefetch_anchors budget anchors sim) \<le> length anchors * budget"
proof (induction anchors arbitrary: sim)
  case (Cons a anchors)
  obtain n sim1 where c: "prefetch_chain budget a sim = (n, sim1)" by (cases "prefetch_chain budget a sim")
  have "n \<le> budget" "tiered_invar sim1"
    using prefetch_chain_moved [OF Cons.prems, of budget a] by (auto simp: c moved_def)
  with Cons.IH [of sim1] Cons.IH [OF Cons.prems] show ?case
    by (auto simp: c split: prod.splits)
qed simp

section \<open>Time to first token\<close>

text \<open>With the default costs the two products and their sum are exact.\<close>

lemma request_ttft_exact:
  assumes "m \<le> 2 ^ 49" "n \<le> 2 ^ 49"
  shows "request_ttft default_costs m n = max (4 * of_nat m + of_nat n / 2) 4"
proof -
  have i: "int_to_float (int k) = of_nat k" if "k \<le> 2 ^ 49" for k
    using that f64.rnd_int [of "int k"] by (simp add: int_to_float_def)
  have "fl (of_int (int m) * 2 powi 2) = of_int (int m) * 2 powi 2"
    "fl (of_int (int n) * 2 powi (- 1)) = of_int (int n) * 2 powi (- 1)"
    "fl (of_int (int (8 * m + n)) * 2 powi (- 1)) = of_int (int (8 * m + n)) * 2 powi (- 1)"
    using assms by (intro fl_exact; simp)+
  then have e: "fl (of_nat m * 4) = of_nat m * 4" "fl (of_nat n * (1 / 2)) = of_nat n * (1 / 2)"
    "fl (of_nat m * 4 + of_nat n * (1 / 2)) = of_nat m * 4 + of_nat n * (1 / 2)"
    by (simp_all add: power_int_def field_simps)
  show ?thesis
    unfolding request_ttft_def default_costs_def fmul_def fadd_def TieredCosts.select_convs
      i [OF assms(1)] i [OF assms(2)] e by (simp add: mult.commute)
qed

section \<open>Properties\<close>

text \<open>C1. Whatever requests a new simulator serves, its two tiers stay exclusive and within their
  capacities, and together they hold only blocks that some request named.\<close>

theorem tiers_exclusive_and_bounded:
  assumes "TieredSimulator_init fast_blocks slow_blocks name depth costs slow_name = Inr sim"
    and "process_requests rs sim = (outs, sim')"
  shows "policy_resident (sim_fast sim') \<inter> policy_resident (sim_slow sim') = {}
    \<and> card (policy_resident (sim_fast sim')) \<le> nat fast_blocks
    \<and> card (policy_resident (sim_slow sim')) \<le> nat slow_blocks
    \<and> held sim' \<subseteq> set (concat rs)"
proof -
  note i = TieredSimulator_init_laws [OF assms(1)]
  have l: "tiered_invar sim'" "same_config sim sim'" "held sim' \<subseteq> held sim \<union> set (concat rs)"
    using process_requests_laws [OF i(1) assms(2)] by auto
  have "policy_invar (sim_fast sim')" "policy_invar (sim_slow sim')"
    using l(1) by (auto simp: tiered_invar_def)
  note pol.bound [OF this(1)] pol.bound [OF this(2)]
  moreover have "policy_capacity (sim_fast sim') = nat fast_blocks" "policy_capacity (sim_slow sim') = nat slow_blocks"
    using l(2) i(3,4) by (auto simp: same_config_def)
  ultimately show ?thesis using l(1,3) i(2) by (simp add: tiered_invar_def)
qed

theorem tiers_exclusive_and_bounded_witness:
  "\<exists>sim. TieredSimulator_init 1 2 ''lru'' 8 default_costs [] = Inr sim
     \<and> card (policy_resident (sim_slow (snd (process_requests [[1, 2], [3, 4]] sim)))) \<le> 2"
proof -
  let ?sim = "\<lparr>sim_fast = LRUPolicy \<lparr>lru_capacity = 1, lru_store = []\<rparr>,
    sim_slow = LRUPolicy \<lparr>lru_capacity = 2, lru_store = []\<rparr>, sim_successor = Map.empty,
    sim_prefetch_depth = 8, sim_costs = default_costs\<rparr>"
  have i: "TieredSimulator_init 1 2 ''lru'' 8 default_costs [] = Inr ?sim"
    by (simp add: TieredSimulator_init_def make_policy_def POLICIES_def lru_init_def CachePolicy_init_def)
  from tiers_exclusive_and_bounded [OF i prod.collapse [symmetric], of "[[1, 2], [3, 4]]"] i
  show ?thesis by (intro exI [of _ ?sim]) simp
qed

text \<open>Every block of a request is counted once, as a fast hit, a slow hit or a miss; the hit flags
  come in block order, and a block is flagged a hit only if the tiers held it when the request
  came or the same request named it earlier.\<close>

lemma request_accounts_every_block:
  assumes "tiered_invar sim" "process_request hs sim = (out, sim')"
  shows "fast_hits out + slow_hits out + misses out = length hs
    \<and> length (block_hits out) = length hs
    \<and> length (filter id (block_hits out)) = fast_hits out + slow_hits out
    \<and> (\<forall>k < length hs. block_hits out ! k \<longrightarrow> hs ! k \<in> held sim \<union> set (take k hs))
    \<and> tiered_invar sim'"
  using process_request_laws [OF assms] by blast

text \<open>C34. The prefetch for a request keeps the tiers exclusive and within capacity and brings in no block
  from outside. When the slow tier evicts only if full (LRU, SIEVE, prefix-aware LRU) it loses no
  block either: it only moves blocks between the tiers. It never touches the successor graph.\<close>

theorem prefetch_only_moves_blocks:
  assumes "tiered_invar sim" "prefetch_for_request hs sim = (n, sim')"
  shows "tiered_invar sim' \<and> held sim' \<subseteq> held sim \<and> sim_successor sim' = sim_successor sim
    \<and> (single_queue (sim_slow sim) \<longrightarrow> held sim' = held sim)"
  using prefetch_moved [OF assms(1), of hs] assms(2) by (simp add: moved_def)

theorem prefetch_only_moves_blocks_witness:
  "\<exists>sim n sim'. tiered_invar sim \<and> prefetch_for_request [1] sim = (n, sim') \<and> n = 1
     \<and> policy_contains 2 (sim_fast sim') \<and> held sim' = held sim"
proof -
  let ?sim = "\<lparr>sim_fast = LRUPolicy \<lparr>lru_capacity = 1, lru_store = [(1, ())]\<rparr>,
    sim_slow = LRUPolicy \<lparr>lru_capacity = 2, lru_store = [(2, ())]\<rparr>, sim_successor = [1 \<mapsto> 2],
    sim_prefetch_depth = 1, sim_costs = default_costs\<rparr>"
  have t: "tiered_invar ?sim" by (simp add: tiered_invar_def lru_invar_def lru_resident_def)
  obtain n sim' where r: "prefetch_for_request [1] ?sim = (n, sim')"
    by (cases "prefetch_for_request [1] ?sim")
  moreover from r have "n = 1" "policy_contains 2 (sim_fast sim')"
    by (auto simp: prefetch_for_request_def numeral_2_eq_2 promote_def fast_admit_def lru_contains_def
        lru_admit_def lru_remove_def od_contains_def od_set_def od_pop_def od_move_to_end_def demote_all_def)
  ultimately show ?thesis using prefetch_only_moves_blocks [OF t r] t by auto
qed

text \<open>A prefetch promotes at most one block per anchor and step, so at most the number of blocks of the
  request times that number plus the depth; with a depth of zero or less it does nothing.\<close>

lemma prefetch_bounded:
  assumes "tiered_invar sim" "prefetch_for_request hs sim = (n, sim')"
  shows "n \<le> length hs * nat (int (length hs) + sim_prefetch_depth sim)
    \<and> (sim_prefetch_depth sim \<le> 0 \<longrightarrow> n = 0 \<and> sim' = sim)"
  using prefetch_anchors_bound [OF assms(1), of "nat (int (length hs) + sim_prefetch_depth sim)" hs] assms(2)
  by (auto simp: prefetch_for_request_def split: if_splits)

text \<open>With the default costs the time to the first token of a request is exactly 4 ms per missed block
  plus half a millisecond per promoted block, and at least 4 ms: the binary64 arithmetic does not
  round as long as the counts stay below \<open>2 ^ 49\<close>.\<close>

lemma ttft_is_exact:
  assumes "tiered_invar sim" "sim_costs sim = default_costs" "process_request hs sim = (out, sim')"
    and "length hs \<le> 2 ^ 49"
  shows "ttft_ms out = max (4 * of_nat (misses out) + of_nat (slow_hits out) / 2) 4"
  using process_request_laws(4,8) [OF assms(1,3)] assms(2,4) request_ttft_exact [of "misses out" "slow_hits out"]
  by simp

end
