(* ===== verification/Metrics.thy ===== *)
theory Metrics
  imports Float64
begin

text \<open>
  The trace data and the pure metrics of \<^verbatim>\<open>python/bench/framework.py\<close>: replay plans, the
  nearest-rank percentiles and the hit and reuse rates, in binary64 arithmetic.
\<close>

section \<open>Model\<close>

record TraceRecord =
  timestamp :: int
  input_length :: int
  output_length :: int
  hash_ids :: "hash_id list"

record ReplayStep =
  arrival_index :: nat
  record_of :: TraceRecord

record Percentiles =
  p50 :: pyfloat
  p90 :: pyfloat
  p99 :: pyfloat

record AccessEvent =
  ev_hash_id :: hash_id
  ev_hit :: bool

record AccessLog =
  log_events :: "AccessEvent list"

definition build_replay_plan :: "TraceRecord list \<Rightarrow> ReplayStep list" where
  "build_replay_plan records =
     map (\<lambda>(i, r). \<lparr>arrival_index = i, record_of = r\<rparr>) (List.enumerate 0 records)"

text \<open>
  The rank is computed in floating point: \<^verbatim>\<open>max(1, math.ceil(p / 100.0 * len(ordered)))\<close>.
\<close>

definition nearest_rank_index :: "int \<Rightarrow> nat \<Rightarrow> int" where
  "nearest_rank_index p n =
     max 1 \<lceil>fmul (fdiv (int_to_float p) 100) (int_to_float (int n))\<rceil>"

definition nearest_rank :: "pyfloat list \<Rightarrow> int \<Rightarrow> pyfloat result" where
  "nearest_rank ordered p =
     (let i = nearest_rank_index p (length ordered) - 1
      in if i < int (length ordered) then Inr (ordered ! nat i) else Inl IndexError)"

definition percentiles :: "pyfloat list \<Rightarrow> Percentiles result" where
  "percentiles samples =
     (if samples = [] then Inl ValueError
      else
        (let ordered = sort samples
         in bind_result (nearest_rank ordered 50) (\<lambda>a.
            bind_result (nearest_rank ordered 90) (\<lambda>b.
            bind_result (nearest_rank ordered 99) (\<lambda>c.
            Inr \<lparr>p50 = a, p90 = b, p99 = c\<rparr>)))))"

text \<open>\<^verbatim>\<open>a / b\<close> of two integers is the correctly rounded quotient.\<close>

definition int_truediv :: "nat \<Rightarrow> nat \<Rightarrow> pyfloat" where
  "int_truediv a b = fl (of_nat a / of_nat b)"

definition rates_step :: "hash_id set \<times> hash_id set \<Rightarrow> AccessEvent \<Rightarrow> hash_id set \<times> hash_id set" where
  "rates_step acc event =
     (let (seen, reused) = acc;
          seen' = insert (ev_hash_id event) seen
      in (seen', if ev_hit event then insert (ev_hash_id event) reused else reused))"

definition rates :: "AccessLog \<Rightarrow> pyfloat \<times> pyfloat" where
  "rates access_log =
     (let events = log_events access_log
      in if events = [] then (0, 0)
         else
           (let hits = length (filter ev_hit events);
                (seen, reused) = foldl rates_step ({}, {}) events
            in (int_truediv hits (length events), int_truediv (card reused) (card seen))))"

section \<open>Replay plans\<close>

lemma build_replay_plan_nth:
  "length (build_replay_plan rs) = length rs"
  "i < length rs \<Longrightarrow> build_replay_plan rs ! i = \<lparr>arrival_index = i, record_of = rs ! i\<rparr>"
  by (simp_all add: build_replay_plan_def nth_enumerate_eq)

lemma map_record_of_plan [simp]: "map record_of (build_replay_plan rs) = rs"
  by (rule nth_equalityI) (simp_all add: build_replay_plan_nth)

section \<open>Rates\<close>

lemma foldl_rates_step:
  "foldl rates_step (seen, reused) events =
     (seen \<union> ev_hash_id ` set events, reused \<union> ev_hash_id ` set (filter ev_hit events))"
  by (induction events arbitrary: seen reused) (auto simp: rates_step_def)

lemma rates_eq:
  assumes "log_events l \<noteq> []"
  shows "rates l =
    (int_truediv (length (filter ev_hit (log_events l))) (length (log_events l)),
     int_truediv (card (ev_hash_id ` set (filter ev_hit (log_events l))))
                 (card (ev_hash_id ` set (log_events l))))"
  using assms by (simp add: rates_def foldl_rates_step Let_def)

lemma int_truediv_unit:
  assumes "a \<le> b"
  shows "0 \<le> int_truediv a b \<and> int_truediv a b \<le> 1"
  unfolding int_truediv_def using assms
  by (intro f64.rnd_unit) (cases "b = 0"; simp add: divide_le_eq_1)+

section \<open>Percentiles\<close>

text \<open>
  The rounded rank is the exact one: the product never falls below \<open>k - 1\<close> plus a representable
  fraction, and never rises past \<open>k\<close>.
\<close>

lemma ceiling_fl_eq:
  assumes "of_int (k - 1) + 1 / 2 ^ j \<le> x" "fl x \<le> of_int k"
    and "0 < k" "k \<le> 2 ^ 46" "j \<le> 7"
  shows "\<lceil>fl x\<rceil> = k"
proof -
  let ?z = "of_int (k - 1) + 1 / 2 ^ j :: rat" and ?m = "(k - 1) * 2 ^ j + 1"
  have j: "(2::int) ^ j \<le> 2 ^ 7" using assms(5) by (intro power_increasing) auto
  have "(k - 1) * 2 ^ j \<le> (2 ^ 46 - 1) * 2 ^ 7"
    using assms(3,4) by (intro mult_mono j) auto
  then have "\<bar>?m\<bar> \<le> 2 ^ 53" using assms(3) by simp
  then have "fl (of_int ?m * 2 powi (- int j)) = of_int ?m * 2 powi (- int j)" by (rule fl_exact)
  moreover have "of_int ?m * 2 powi (- int j) = ?z"
    by (simp add: power_int_minus field_simps)
  ultimately have "fl ?z = ?z" by simp
  from f64.rnd_ge_fixed [OF this assms(1)] have "of_int (k - 1) < fl x"
    by (rule less_le_trans [rotated]) simp
  with assms(2) show ?thesis by (intro ceiling_unique) auto
qed

lemma fl_count: "n \<le> 2 ^ 53 \<Longrightarrow> int_to_float (int n) = of_nat n"
  using f64.rnd_int [of "int n"] by (simp add: int_to_float_def)

lemma rank_factors:
  "fdiv (int_to_float 50) 100 = 1 / 2"
  "fdiv (int_to_float 90) 100 = 8106479329266893 / 2 ^ 53"
  "fdiv (int_to_float 99) 100 = 8917127262193582 / 2 ^ 53"
  by code_simp+

lemma rat_of_int_le: "a \<le> b \<Longrightarrow> (of_int a :: rat) \<le> of_int b"
  by simp

lemma ceiling_percent:
  assumes "0 < n" "n \<le> 2 ^ 46" "0 < p" "p \<le> 99"
  defines "k \<equiv> \<lceil>of_int p * of_nat n / 100 :: rat\<rceil>"
  shows "int n * p \<le> 100 * k" "100 * k \<le> int n * p + 99" "0 < k" "k \<le> 2 ^ 46"
proof -
  have "of_int p * of_nat n / 100 \<le> (of_int k :: rat)" "of_int k < (of_int p * of_nat n / 100 + 1 :: rat)"
    unfolding k_def by linarith+
  then have "of_int (int n * p) \<le> (of_int (100 * k) :: rat)"
    "of_int (100 * k) < (of_int (int n * p + 100) :: rat)"
    by (simp_all add: field_simps)
  then show lo: "int n * p \<le> 100 * k" and hi: "100 * k \<le> int n * p + 99"
    by (simp_all only: of_int_le_iff of_int_less_iff)
  have "0 < int n * p" "int n * p \<le> int n * 99" "int n \<le> 2 ^ 46"
    using assms(1-4) mult_left_mono [of p 99 "int n"] by auto
  with lo hi show "0 < k" and "k \<le> 2 ^ 46" by auto
qed

lemma rank_50:
  assumes "int n * 50 \<le> 100 * k" "100 * k \<le> int n * 50 + 99" "0 < k" "k \<le> 2 ^ 46"
  shows "\<lceil>fl (1 / 2 * of_nat n)\<rceil> = k"
proof (rule ceiling_fl_eq [OF _ f64.rnd_le_fixed [OF f64.rnd_int] assms(3,4), where j = 1])
  have "2 * k \<le> int n + 1" "int n \<le> 2 * k" using assms by auto
  note this [THEN rat_of_int_le]
  then show "of_int (k - 1) + 1 / 2 ^ 1 \<le> (1 / 2 * of_nat n :: rat)" "1 / 2 * of_nat n \<le> (of_int k :: rat)"
    by (simp_all add: field_simps)
qed (use assms in auto)

lemma rank_90:
  assumes "int n * 90 \<le> 100 * k" "100 * k \<le> int n * 90 + 99" "0 < k" "k \<le> 2 ^ 46"
    and "n \<le> 2 ^ 46"
  defines "x \<equiv> 8106479329266893 / 2 ^ 53 * of_nat n"
  shows "\<lceil>fl x\<rceil> = k"
proof (rule ceiling_fl_eq [OF _ _ assms(3,4), where j = 4])
  have N: "(of_nat n :: rat) \<le> 2 ^ 46" using assms(5) of_nat_mono [of n "2 ^ 46"] by simp
  have "10 * k \<le> int n * 9 + 9" using assms(2) by simp
  from rat_of_int_le [OF this] show "of_int (k - 1) + 1 / 2 ^ 4 \<le> x" by (simp add: x_def)
  show "fl x \<le> of_int k"
  proof (cases "int n * 90 = 100 * k")
    case True
    then have "of_int (int n * 90) = (of_int (100 * k) :: rat)" by (simp only:)
    then have n: "of_nat n = (of_int k * 10 / 9 :: rat)" by simp
    have "fl x = of_int k" using assms(3,4) by (intro fl_near_int) (simp_all add: x_def n)
    then show ?thesis by simp
  next
    case False
    with assms(1) have "int n * 9 \<le> 10 * k - 1" by auto
    from rat_of_int_le [OF this] have "x \<le> of_int k" using N by (simp add: x_def)
    then show ?thesis using assms(3,4) by (intro f64.rnd_le_fixed f64.rnd_int) auto
  qed
qed simp

lemma rank_99:
  assumes "int n * 99 \<le> 100 * k" "100 * k \<le> int n * 99 + 99" "0 < k" "k \<le> 2 ^ 46"
    and "n \<le> 2 ^ 46"
  defines "x \<equiv> 8917127262193582 / 2 ^ 53 * of_nat n"
  shows "\<lceil>fl x\<rceil> = k"
proof (rule ceiling_fl_eq [OF _ f64.rnd_le_fixed [OF f64.rnd_int] assms(3,4), where j = 7])
  have N: "(of_nat n :: rat) \<le> 2 ^ 46" using assms(5) of_nat_mono [of n "2 ^ 46"] by simp
  note assms(1,2) [THEN rat_of_int_le]
  then show "of_int (k - 1) + 1 / 2 ^ 7 \<le> x" and "x \<le> of_int k"
    using N by (simp_all add: x_def)
qed (use assms in auto)

lemma rank_product_exact:
  assumes "0 < n" "n \<le> 2 ^ 46" "p \<in> {50, 90, 99}"
  shows "\<lceil>fmul (fdiv (int_to_float p) 100) (int_to_float (int n))\<rceil> = \<lceil>of_int p * of_nat n / 100 :: rat\<rceil>"
proof -
  have n: "int_to_float (int n) = of_nat n" using fl_count [of n] assms(2) by simp
  from assms(3) consider "p = 50" | "p = 90" | "p = 99" by auto
  then show ?thesis
  proof cases
    case 1
    then show ?thesis
      using rank_50 [OF ceiling_percent [OF assms(1,2), of 50]] by (simp add: fmul_def n rank_factors)
  next
    case 2
    then show ?thesis
      using rank_90 [OF ceiling_percent [OF assms(1,2), of 90] assms(2)] by (simp add: fmul_def n rank_factors)
  next
    case 3
    then show ?thesis
      using rank_99 [OF ceiling_percent [OF assms(1,2), of 99] assms(2)] by (simp add: fmul_def n rank_factors)
  qed
qed

lemma index_of_rank:
  assumes "0 < n" "n \<le> 2 ^ 53" "0 \<le> p" "p \<le> 100"
  shows "1 \<le> nearest_rank_index p n" and "nearest_rank_index p n \<le> int n"
proof -
  let ?c = "fdiv (int_to_float p) 100"
  have p: "int_to_float p = of_int p" using assms by (simp add: int_to_float_def f64.rnd_int)
  note n = fl_count [OF assms(2)]
  have "0 \<le> ?c \<and> ?c \<le> 1"
    unfolding fdiv_def p using assms(3,4) by (intro f64.rnd_unit) (simp_all add: divide_le_eq_1)
  then have "?c * of_nat n \<le> of_nat n" by (simp add: mult_left_le_one_le)
  then have "fl (?c * of_nat n) \<le> of_nat n"
    by (intro f64.rnd_le_fixed) (use assms(2) f64.rnd_int [of "int n"] in simp_all)
  then have "\<lceil>fmul ?c (int_to_float (int n))\<rceil> \<le> int n"
    by (simp add: fmul_def n ceiling_le_iff)
  then show "1 \<le> nearest_rank_index p n" and "nearest_rank_index p n \<le> int n"
    using assms(1) by (auto simp: nearest_rank_index_def)
qed

lemma nearest_rank_mono:
  assumes "p \<le> q" "0 \<le> p" "q \<le> 100"
  shows "nearest_rank_index p n \<le> nearest_rank_index q n"
proof -
  have "fl (of_int p) \<le> fl (of_int q)" using assms(1) by (intro f64.rnd_mono) simp
  then have "fl (fl (of_int p) / 100) \<le> fl (fl (of_int q) / 100)"
    by (intro f64.rnd_mono) (simp add: divide_right_mono)
  moreover have "0 \<le> fl (of_int (int n))" by (intro f64.rnd_nonneg) simp
  ultimately have "fmul (fdiv (int_to_float p) 100) (int_to_float (int n))
      \<le> fmul (fdiv (int_to_float q) 100) (int_to_float (int n))"
    unfolding fmul_def fdiv_def int_to_float_def
    by - (rule f64.rnd_mono, rule mult_right_mono)
  then show ?thesis by (auto simp: nearest_rank_index_def intro: ceiling_mono le_max_iff_disj [THEN iffD2])
qed

lemma nearest_rank_Inr:
  assumes "ordered \<noteq> []" "length ordered \<le> 2 ^ 53" "0 \<le> p" "p \<le> 100"
  shows "nearest_rank ordered p = Inr (ordered ! nat (nearest_rank_index p (length ordered) - 1))"
    and "nat (nearest_rank_index p (length ordered) - 1) < length ordered"
  using index_of_rank [of "length ordered" p] assms by (auto simp: nearest_rank_def Let_def)

lemma percentiles_sorted_pick:
  assumes "samples \<noteq> []" "length samples \<le> 2 ^ 53"
  obtains i j k where "i \<le> j" "j \<le> k" "k < length samples"
    and "percentiles samples = Inr \<lparr>p50 = sort samples ! i, p90 = sort samples ! j, p99 = sort samples ! k\<rparr>"
    and "i = nat (nearest_rank_index 50 (length samples) - 1)"
    and "j = nat (nearest_rank_index 90 (length samples) - 1)"
    and "k = nat (nearest_rank_index 99 (length samples) - 1)"
proof -
  let ?o = "sort samples" and ?r = "\<lambda>p. nat (nearest_rank_index p (length samples) - 1)"
  have o: "?o \<noteq> []" "length ?o \<le> 2 ^ 53"
    using assms by (cases samples; simp)+
  have "?r 50 \<le> ?r 90" "?r 90 \<le> ?r 99"
    using nearest_rank_mono [of 50 90 "length samples"] nearest_rank_mono [of 90 99 "length samples"]
    by auto
  moreover have "?r 99 < length samples" using nearest_rank_Inr(2) [OF o, of 99] by simp
  moreover have "percentiles samples = Inr \<lparr>p50 = ?o ! ?r 50, p90 = ?o ! ?r 90, p99 = ?o ! ?r 99\<rparr>"
    using assms(1) nearest_rank_Inr(1) [OF o] by (simp add: percentiles_def Let_def)
  ultimately show ?thesis using that by blast
qed

section \<open>Properties\<close>

text \<open>C4. The percentiles of a non-empty sample are its exact nearest-rank order statistics, of ranks
  \<open>\<lceil>p n / 100\<rceil>\<close>: the floating-point rank computation agrees with the exact one for any sample of
  up to \<open>2 ^ 46\<close> values. An empty sample raises \<^verbatim>\<open>ValueError\<close>.\<close>

theorem percentiles_are_nearest_ranks:
  assumes "length samples \<le> 2 ^ 46"
  shows "percentiles samples =
    (if samples = [] then Inl ValueError
     else Inr (let pick = (\<lambda>p. sort samples ! nat (\<lceil>of_int p * of_nat (length samples) / 100 :: rat\<rceil> - 1))
               in \<lparr>p50 = pick 50, p90 = pick 90, p99 = pick 99\<rparr>))"
proof (cases "samples = []")
  case False
  have rank: "nearest_rank_index p (length samples) = \<lceil>of_int p * of_nat (length samples) / 100 :: rat\<rceil>"
    if "p \<in> {50, 90, 99}" for p
  proof -
    have "0 < p" "p \<le> 99" using that by auto
    from ceiling_percent(3) [OF _ assms this] have "0 < \<lceil>of_int p * of_nat (length samples) / 100 :: rat\<rceil>"
      using False by simp
    then show ?thesis
      unfolding nearest_rank_index_def using rank_product_exact [OF _ assms that] False by simp
  qed
  have "length samples \<le> 2 ^ 53" using assms by simp
  with False show ?thesis
    by (rule percentiles_sorted_pick) (use False rank in \<open>simp add: Let_def\<close>)
qed (simp add: percentiles_def)

theorem percentiles_are_nearest_ranks_witness:
  "percentiles [3, 1, 2] = Inr \<lparr>p50 = 2, p90 = 3, p99 = 3\<rparr>"
proof -
  have "percentiles [3, 1, 2] = (if [3, 1, 2] = ([] :: pyfloat list) then Inl ValueError
     else Inr (let pick = (\<lambda>p. sort [3, 1, 2] ! nat (\<lceil>of_int p * of_nat (length [3, 1, 2 :: pyfloat]) / 100 :: rat\<rceil> - 1))
               in \<lparr>p50 = pick 50, p90 = pick 90, p99 = pick 99\<rparr>))"
    by (rule percentiles_are_nearest_ranks) simp
  also have "\<dots> = Inr \<lparr>p50 = 2, p90 = 3, p99 = 3\<rparr>" by code_simp
  finally show ?thesis .
qed

text \<open>The percentiles of a non-empty sample are sample values, in order, and lie between its least and
  greatest value.\<close>

lemma percentiles_ordered:
  assumes "samples \<noteq> []" "length samples \<le> 2 ^ 53"
  shows "\<exists>q. percentiles samples = Inr q \<and> p50 q \<le> p90 q \<and> p90 q \<le> p99 q
    \<and> Min (set samples) \<le> p50 q \<and> p99 q \<le> Max (set samples)
    \<and> {p50 q, p90 q, p99 q} \<subseteq> set samples"
proof -
  from assms obtain i j k where ijk: "i \<le> j" "j \<le> k" "k < length samples"
    and q: "percentiles samples = Inr \<lparr>p50 = sort samples ! i, p90 = sort samples ! j, p99 = sort samples ! k\<rparr>"
    by (rule percentiles_sorted_pick)
  have mem: "sort samples ! m \<in> set samples" if "m < length samples" for m
    using that by (metis length_sort nth_mem set_sort)
  have "sort samples ! i \<le> sort samples ! j" "sort samples ! j \<le> sort samples ! k"
    using ijk by (auto intro!: sorted_nth_mono)
  then show ?thesis using ijk q mem [of i] mem [of j] mem [of k] by simp
qed

text \<open>Both rates of an access log lie between 0 and 1, and each is 0 exactly when the log has no hit.\<close>

lemma rates_in_unit_interval:
  "(let (hit_rate, reuse_rate) = rates l
    in 0 \<le> hit_rate \<and> hit_rate \<le> 1 \<and> 0 \<le> reuse_rate \<and> reuse_rate \<le> 1
       \<and> (hit_rate = 0 \<longleftrightarrow> \<not> (\<exists>e \<in> set (log_events l). ev_hit e))
       \<and> (reuse_rate = 0 \<longleftrightarrow> \<not> (\<exists>e \<in> set (log_events l). ev_hit e)))"
proof (cases "log_events l = []")
  case True
  then show ?thesis by (simp add: rates_def)
next
  case False
  let ?es = "log_events l"
  have zero: "int_truediv a b = 0 \<longleftrightarrow> a = 0" if "0 < b" for a b
    using fl_gt_0 [of "of_nat a / of_nat b"] that by (cases "a = 0") (auto simp: int_truediv_def)
  have "card (ev_hash_id ` set (filter ev_hit ?es)) \<le> card (ev_hash_id ` set ?es)"
    by (intro card_mono image_mono) auto
  note this [THEN int_truediv_unit] and length_filter_le [of ev_hit ?es, THEN int_truediv_unit]
  moreover have "length (filter ev_hit ?es) = 0 \<longleftrightarrow> \<not> (\<exists>e \<in> set ?es. ev_hit e)"
    by (simp add: filter_empty_conv)
  moreover have "card (ev_hash_id ` set (filter ev_hit ?es)) = 0 \<longleftrightarrow> \<not> (\<exists>e \<in> set ?es. ev_hit e)"
    by auto
  moreover have "0 < length ?es" "0 < card (ev_hash_id ` set ?es)"
    using False by (auto simp: card_gt_0_iff)
  ultimately show ?thesis using False by (simp add: rates_eq zero)
qed

end
