(* ===== verification/Framework.thy ===== *)
theory Framework
  imports Tiered Metrics
begin

text \<open>
  The replay simulations of \<^verbatim>\<open>python/bench/framework.py\<close>: a trace is fed to one cache pool
  (baseline) or to the two-tier simulator (project), every block lookup is logged, and the
  latency samples and the throughput are accumulated in binary64 arithmetic.
\<close>

section \<open>Model\<close>

definition PROJECT_POOL_BLOCKS :: int where "PROJECT_POOL_BLOCKS = 4096"
definition BASELINE_POOL_BLOCKS :: int where "BASELINE_POOL_BLOCKS = 1024"
definition PROJECT_POLICY :: string where "PROJECT_POLICY = ''s3fifo''"
definition BASELINE_POLICY :: string where "BASELINE_POLICY = ''lru''"
definition PROJECT_SLOW_FACTOR :: int where "PROJECT_SLOW_FACTOR = 4"
definition PROJECT_PREFETCH_DEPTH :: int where "PROJECT_PREFETCH_DEPTH = 8"
definition PROJECT_SLOW_POLICY :: string where "PROJECT_SLOW_POLICY = ''lru''"

text \<open>The variables both simulations accumulate over the plan.\<close>

record replay_acc =
  acc_events :: "AccessEvent list"
  acc_ttft :: "pyfloat list"
  acc_e2e :: "pyfloat list"
  acc_tokens :: int
  acc_time :: pyfloat

definition acc_start :: replay_acc where
  "acc_start = \<lparr>acc_events = [], acc_ttft = [], acc_e2e = [], acc_tokens = 0, acc_time = 0\<rparr>"

definition log_hits :: "hash_id list \<Rightarrow> bool list \<Rightarrow> AccessEvent list" where
  "log_hits hs hits = map (\<lambda>(h, hit). \<lparr>ev_hash_id = h, ev_hit = hit\<rparr>) (zip hs hits)"

text \<open>
  An integer that meets a float is converted, and an integer whose rounding has no finite double raises
  \<^verbatim>\<open>OverflowError\<close>. The lengths of a record are integers of any size; with lengths of more than 300
  digits sums of latencies could also overflow, silently to infinity, which is outside the model.
\<close>

definition py_int_to_float :: "int \<Rightarrow> pyfloat result" where
  "py_int_to_float n = (if \<bar>int_to_float n\<bar> < 2 ^ 1024 then Inr (int_to_float n) else Inl OverflowError)"

definition account ::
  "pyfloat \<Rightarrow> TraceRecord \<Rightarrow> bool list \<Rightarrow> pyfloat \<Rightarrow> replay_acc \<Rightarrow> replay_acc result" where
  "account decode rec hits ttft a =
     bind_result (py_int_to_float (output_length rec)) (\<lambda>tokens.
     (let e2e = fadd ttft (fmul tokens decode)
      in Inr \<lparr>acc_events = acc_events a @ log_hits (hash_ids rec) hits,
              acc_ttft = acc_ttft a @ [ttft],
              acc_e2e = acc_e2e a @ [e2e],
              acc_tokens = acc_tokens a + (input_length rec + output_length rec),
              acc_time = fadd (acc_time a) (fdiv e2e 1000)\<rparr>))"

text \<open>
  The loop over the plan; \<open>serve\<close> is what the loop body does with the blocks of one request,
  returning the hit flags and the time to the first token.
\<close>

fun replay_loop ::
  "(hash_id list \<Rightarrow> 's \<Rightarrow> (bool list \<times> pyfloat) \<times> 's) \<Rightarrow> pyfloat \<Rightarrow> ReplayStep list \<Rightarrow> 's
     \<Rightarrow> replay_acc \<Rightarrow> ('s \<times> replay_acc) result" where
  "replay_loop serve decode [] s a = Inr (s, a)"
| "replay_loop serve decode (st # plan) s a =
     (let ((hits, ttft), s') = serve (hash_ids (record_of st)) s
      in bind_result (account decode (record_of st) hits ttft a) (replay_loop serve decode plan s'))"

definition throughput_of :: "replay_acc \<Rightarrow> pyfloat result" where
  "throughput_of a =
     (if 0 < acc_time a then bind_result (py_int_to_float (acc_tokens a)) (\<lambda>tokens. Inr (fdiv tokens (acc_time a)))
      else Inr 0)"

type_synonym simulation = "AccessLog \<times> pyfloat list \<times> pyfloat list \<times> pyfloat"

definition simulation_of :: "replay_acc \<Rightarrow> simulation result" where
  "simulation_of a =
     bind_result (throughput_of a) (\<lambda>throughput. Inr (\<lparr>log_events = acc_events a\<rparr>, acc_ttft a, acc_e2e a, throughput))"

text \<open>The constant \<^verbatim>\<open>decode_ms_per_token = 0.05\<close> of \<^verbatim>\<open>_simulate_replay\<close>, rounded to a float.\<close>

definition flat_decode_ms :: pyfloat where
  "flat_decode_ms = fl (5 / 100)"

text \<open>One cache pool: \<^verbatim>\<open>policy.access(hash_id, block_index)\<close> for each block of the request.\<close>

definition serve_flat :: "hash_id list \<Rightarrow> policy \<Rightarrow> (bool list \<times> pyfloat) \<times> policy" where
  "serve_flat hs p =
     (let (hits, p') = run_accesses policy_access (zip hs (map int [0..<length hs])) p;
          n_misses = length (filter Not hits)
      in ((hits, fmul (int_to_float (int (max n_misses 1))) 4), p'))"

definition simulate_replay :: "ReplayStep list \<Rightarrow> int \<Rightarrow> string \<Rightarrow> simulation result" where
  "simulate_replay plan pool_blocks policy_name =
     bind_result (make_policy policy_name pool_blocks) (\<lambda>policy.
     bind_result (replay_loop serve_flat flat_decode_ms plan policy acc_start) (\<lambda>(_, a). simulation_of a))"

definition serve_tiered ::
  "hash_id list \<Rightarrow> TieredSimulator \<Rightarrow> (bool list \<times> pyfloat) \<times> TieredSimulator" where
  "serve_tiered hs sim =
     (let (out, sim') = process_request hs sim in ((block_hits out, ttft_ms out), sim'))"

definition simulate_tiered_replay ::
  "ReplayStep list \<Rightarrow> int \<Rightarrow> int \<Rightarrow> string \<Rightarrow> bool \<Rightarrow> simulation result" where
  "simulate_tiered_replay plan fast_blocks slow_blocks policy_name prefetch =
     (let costs = default_costs
      in bind_result
           (TieredSimulator_init fast_blocks slow_blocks policy_name
              (if prefetch then PROJECT_PREFETCH_DEPTH else 0) costs PROJECT_SLOW_POLICY)
           (\<lambda>sim. bind_result (replay_loop serve_tiered (decode_ms_per_token costs) plan sim acc_start)
              (\<lambda>(_, a). simulation_of a)))"

lemma acc_start_fields [simp]:
  "acc_events acc_start = []" "acc_ttft acc_start = []" "acc_e2e acc_start = []"
  "acc_tokens acc_start = 0" "acc_time acc_start = 0"
  by (simp_all add: acc_start_def)

section \<open>Conversions that succeed\<close>

text \<open>Integers up to \<open>2 ^ 1000\<close> convert, integers from \<open>2 ^ 1024\<close> do not.\<close>

lemma int_to_float_power: "int_to_float (2 ^ k) = 2 ^ k"
  using fl_exact [of 1 "int k"] by (simp add: int_to_float_def power_int_def)

lemma fl_minus: "fl (- x) = - fl x"
  by (simp add: fl_def)

lemma int_to_float_abs: "\<bar>int_to_float n\<bar> = int_to_float \<bar>n\<bar>"
  using f64.rnd_nonneg [of "of_int \<bar>n\<bar>"] fl_minus [of "of_int \<bar>n\<bar>"] by (cases "0 \<le> n") (simp_all add: int_to_float_def)

lemma int_to_float_mono: "m \<le> n \<Longrightarrow> int_to_float m \<le> int_to_float n"
  unfolding int_to_float_def by (rule f64.rnd_mono) (simp only: of_int_le_iff)

lemma py_int_to_float_small:
  assumes "\<bar>n\<bar> \<le> 2 ^ 1000"
  shows "py_int_to_float n = Inr (int_to_float n)"
proof -
  have "\<bar>int_to_float n\<bar> \<le> 2 ^ 1000" unfolding int_to_float_abs using int_to_float_mono [OF assms] by (simp only: int_to_float_power)
  also have "(2 :: rat) ^ 1000 < 2 ^ 1024" by (rule power_strict_increasing) simp_all
  finally show ?thesis by (simp only: py_int_to_float_def if_True)
qed

lemma py_int_to_float_large:
  assumes "2 ^ 1024 \<le> \<bar>n\<bar>"
  shows "py_int_to_float n = Inl OverflowError"
proof -
  have "\<not> \<bar>int_to_float n\<bar> < 2 ^ 1024" unfolding int_to_float_abs not_less using int_to_float_mono [OF assms] by (simp only: int_to_float_power)
  then show ?thesis by (simp only: py_int_to_float_def if_False)
qed

lemma py_int_to_float_Inr: "py_int_to_float n = Inr x \<Longrightarrow> x = int_to_float n"
  by (simp only: py_int_to_float_def split: if_splits) simp_all

lemma account_Inr:
  assumes "account d rec hits t a = Inr a1"
  shows "acc_events a1 = acc_events a @ log_hits (hash_ids rec) hits" "acc_ttft a1 = acc_ttft a @ [t]"
    and "acc_e2e a1 = acc_e2e a @ [fadd t (fmul (int_to_float (output_length rec)) d)]"
    and "acc_tokens a1 = acc_tokens a + (input_length rec + output_length rec)"
    and "acc_time a1 = fadd (acc_time a) (fdiv (fadd t (fmul (int_to_float (output_length rec)) d)) 1000)"
  using assms by (auto simp: account_def bind_result_Inr_iff Let_def dest!: py_int_to_float_Inr)

lemma replay_loop_ConsE:
  assumes "replay_loop serve d (st # plan) s a = Inr (s', a')" "serve (hash_ids (record_of st)) s = ((hits, t), s1)"
  obtains a1 where "account d (record_of st) hits t a = Inr a1" "replay_loop serve d plan s1 a1 = Inr (s', a')"
  using assms by (auto simp: bind_result_Inr_iff)

text \<open>A loop over records with short enough outputs returns and adds up the tokens; one record with an output too long raises.\<close>

lemma replay_loop_returns:
  assumes "\<forall>st \<in> set plan. \<bar>output_length (record_of st)\<bar> \<le> 2 ^ 1000"
  shows "\<exists>s' a'. replay_loop serve d plan s a = Inr (s', a')
    \<and> acc_tokens a' = acc_tokens a + sum_list (map (\<lambda>st. input_length (record_of st) + output_length (record_of st)) plan)"
  using assms
proof (induction plan arbitrary: s a)
  case (Cons st plan)
  obtain hits t s1 where v: "serve (hash_ids (record_of st)) s = ((hits, t), s1)" by (metis prod.collapse)
  have "py_int_to_float (output_length (record_of st)) = Inr (int_to_float (output_length (record_of st)))"
    by (rule py_int_to_float_small) (use Cons.prems in auto)
  then obtain a1 where a: "account d (record_of st) hits t a = Inr a1" by (simp add: account_def Let_def)
  from Cons.IH [of s1 a1] Cons.prems obtain s' a' where "replay_loop serve d plan s1 a1 = Inr (s', a')"
    "acc_tokens a' = acc_tokens a1 + sum_list (map (\<lambda>st. input_length (record_of st) + output_length (record_of st)) plan)" by auto
  then show ?case by (simp add: v a account_Inr(4) [OF a])
qed simp

lemma replay_loop_overflows:
  "\<exists>st \<in> set plan. 2 ^ 1024 \<le> \<bar>output_length (record_of st)\<bar> \<Longrightarrow> replay_loop serve d plan s a = Inl OverflowError"
proof (induction plan arbitrary: s a)
  case (Cons st plan)
  obtain hits t s1 where v: "serve (hash_ids (record_of st)) s = ((hits, t), s1)" by (metis prod.collapse)
  show ?case
  proof (cases "account d (record_of st) hits t a")
    case (Inl e)
    then have "e = OverflowError"
      by (cases "py_int_to_float (output_length (record_of st))") (simp_all add: account_def Let_def py_int_to_float_def split: if_splits)
    with Inl v show ?thesis by simp
  next
    case (Inr a1)
    then have "\<not> 2 ^ 1024 \<le> \<bar>output_length (record_of st)\<bar>"
      using py_int_to_float_large [of "output_length (record_of st)"] by (auto simp only: account_def bind_result.simps)
    with Cons have "replay_loop serve d plan s1 a1 = Inl OverflowError" by auto
    with Inr v show ?thesis by simp
  qed
qed simp

text \<open>Lengths of up to 270 digits are short enough for both conversions.\<close>

definition short_lengths :: "ReplayStep list \<Rightarrow> bool" where
  "short_lengths plan \<longleftrightarrow> length plan \<le> 2 ^ 53
     \<and> (\<forall>st \<in> set plan. \<bar>input_length (record_of st)\<bar> \<le> 2 ^ 900 \<and> \<bar>output_length (record_of st)\<bar> \<le> 2 ^ 900)"

lemma abs_sum_list_bound: "(\<And>x. x \<in> set xs \<Longrightarrow> \<bar>f x\<bar> \<le> c) \<Longrightarrow> \<bar>sum_list (map f xs)\<bar> \<le> int (length xs) * c" for c :: int
proof (induction xs)
  case (Cons x xs)
  have "\<bar>f x\<bar> \<le> c" "\<bar>sum_list (map f xs)\<bar> \<le> int (length xs) * c" using Cons by auto
  then show ?case by (simp add: algebra_simps)
qed simp

lemma simulation_returns:
  assumes "short_lengths plan"
  shows "\<exists>s' a r. replay_loop serve d plan s acc_start = Inr (s', a) \<and> simulation_of a = Inr r"
proof -
  let ?tokens = "\<lambda>st. input_length (record_of st) + output_length (record_of st)"
  have small: "\<bar>output_length (record_of st)\<bar> \<le> 2 ^ 900" "\<bar>?tokens st\<bar> \<le> 2 ^ 901" if "st \<in> set plan" for st
    using assms that abs_triangle_ineq [of "input_length (record_of st)" "output_length (record_of st)"] by (fastforce simp: short_lengths_def)+
  have "(2 :: int) ^ 900 \<le> 2 ^ 1000" by simp
  with small(1) have "\<forall>st \<in> set plan. \<bar>output_length (record_of st)\<bar> \<le> 2 ^ 1000" using order_trans by blast
  from replay_loop_returns [OF this] obtain s' a where l: "replay_loop serve d plan s acc_start = Inr (s', a)"
    "acc_tokens a = sum_list (map ?tokens plan)" by fastforce
  have "\<bar>acc_tokens a\<bar> \<le> int (length plan) * 2 ^ 901" unfolding l(2) by (rule abs_sum_list_bound) (rule small(2))
  also have "\<dots> \<le> 2 ^ 53 * 2 ^ 901" using assms by (intro mult_right_mono) (simp_all add: short_lengths_def)
  also have "\<dots> \<le> 2 ^ 1000" by simp
  finally have "py_int_to_float (acc_tokens a) = Inr (int_to_float (acc_tokens a))" by (rule py_int_to_float_small)
  then have "\<exists>r. simulation_of a = Inr r" by (auto simp: simulation_of_def throughput_of_def)
  with l(1) show ?thesis by blast
qed

section \<open>Access logs\<close>

text \<open>A log is sound if every hit names a block that an earlier event named.\<close>

definition sound_log :: "AccessEvent list \<Rightarrow> bool" where
  "sound_log es \<longleftrightarrow> (\<forall>k < length es. ev_hit (es ! k) \<longrightarrow> ev_hash_id (es ! k) \<in> ev_hash_id ` set (take k es))"

lemma log_hits_nth:
  assumes "length hits = length hs"
  shows "length (log_hits hs hits) = length hs"
    and "k < length hs \<Longrightarrow> log_hits hs hits ! k = \<lparr>ev_hash_id = hs ! k, ev_hit = hits ! k\<rparr>"
    and "map ev_hash_id (log_hits hs hits) = hs" "map ev_hit (log_hits hs hits) = hits"
  using assms by (auto simp: log_hits_def intro!: nth_equalityI)

lemma image_take_log_hits:
  assumes "length hits = length hs"
  shows "ev_hash_id ` set (take k (log_hits hs hits)) = set (take k hs)"
  using log_hits_nth(3) [OF assms] by (metis list.set_map take_map)

lemma sound_log_Nil [simp]: "sound_log []"
  by (simp add: sound_log_def)

lemma sound_log_append:
  assumes "sound_log es" "length hits = length hs" "B \<subseteq> ev_hash_id ` set es"
    and "\<And>k. k < length hs \<Longrightarrow> hits ! k \<Longrightarrow> hs ! k \<in> B \<union> set (take k hs)"
  shows "sound_log (es @ log_hits hs hits)"
  unfolding sound_log_def
proof (intro allI impI)
  fix k assume k: "k < length (es @ log_hits hs hits)" and hit: "ev_hit ((es @ log_hits hs hits) ! k)"
  show "ev_hash_id ((es @ log_hits hs hits) ! k) \<in> ev_hash_id ` set (take k (es @ log_hits hs hits))"
  proof (cases "k < length es")
    case True
    with hit assms(1) show ?thesis by (simp add: nth_append sound_log_def)
  next
    case False
    define j where "j = k - length es"
    have j: "k = length es + j" "j < length hs"
      using k False log_hits_nth(1) [OF assms(2)] by (auto simp: j_def)
    have "hs ! j \<in> B \<union> set (take j hs)"
      using hit j log_hits_nth(2) [OF assms(2)] by (intro assms(4)) (auto simp: nth_append)
    then show ?thesis
      using assms(3) j log_hits_nth(2) [OF assms(2)] image_take_log_hits [OF assms(2), of j]
      by (auto simp: nth_append image_Un)
  qed
qed

text \<open>Compulsory misses: the first event of every distinct block is a miss.\<close>

lemma sound_log_snoc:
  "sound_log (es @ [e]) \<longleftrightarrow> sound_log es \<and> (ev_hit e \<longrightarrow> ev_hash_id e \<in> ev_hash_id ` set es)"
  by (auto simp: sound_log_def nth_append less_Suc_eq)

lemma sound_log_cold:
  "sound_log es \<Longrightarrow> length (filter ev_hit es) + card (ev_hash_id ` set es) \<le> length es"
proof (induction es rule: rev_induct)
  case (snoc e es)
  then show ?case
    by (cases "ev_hit e") (auto simp: sound_log_snoc insert_absorb card_insert_if)
qed simp

section \<open>The contract of a block store under replay\<close>

text \<open>
  What the replay loop needs of the cache behind \<open>serve\<close>: a block can only be a hit if it was
  held before the request or came earlier in it, and the time to the first token is a float
  not below \<open>min_ttft\<close>.
\<close>

locale replay_engine =
  fixes serve :: "hash_id list \<Rightarrow> 's \<Rightarrow> (bool list \<times> pyfloat) \<times> 's"
    and inv :: "'s \<Rightarrow> bool"
    and blocks :: "'s \<Rightarrow> hash_id set"
    and min_ttft :: pyfloat
  assumes serve_inv: "inv s \<Longrightarrow> serve hs s = ((hits, t), s') \<Longrightarrow> inv s' \<and> length hits = length hs"
    and serve_subset: "inv s \<Longrightarrow> serve hs s = ((hits, t), s') \<Longrightarrow> blocks s' \<subseteq> blocks s \<union> set hs"
    and serve_hit: "inv s \<Longrightarrow> serve hs s = ((hits, t), s') \<Longrightarrow> k < length hs \<Longrightarrow> hits ! k \<Longrightarrow>
          hs ! k \<in> blocks s \<union> set (take k hs)"
    and serve_ttft: "inv s \<Longrightarrow> serve hs s = ((hits, t), s') \<Longrightarrow> min_ttft \<le> t \<and> fl t = t"
begin

lemma loop_events:
  assumes "inv s" "blocks s \<subseteq> ev_hash_id ` set (acc_events a)" "sound_log (acc_events a)"
    and "replay_loop serve d plan s a = Inr (s', a')"
  shows "sound_log (acc_events a') \<and>
    map ev_hash_id (acc_events a') =
      map ev_hash_id (acc_events a) @ concat (map (hash_ids \<circ> record_of) plan)"
  using assms
proof (induction plan arbitrary: s a)
  case (Cons st plan)
  let ?hs = "hash_ids (record_of st)"
  obtain hits t s1 where v: "serve ?hs s = ((hits, t), s1)" by (metis prod.collapse)
  obtain a1 where ac: "account d (record_of st) hits t a = Inr a1" and r: "replay_loop serve d plan s1 a1 = Inr (s', a')"
    using replay_loop_ConsE [OF Cons.prems(4) v] .
  have i: "inv s1" "length hits = length ?hs" using serve_inv [OF Cons.prems(1) v] by auto
  have e: "acc_events a1 = acc_events a @ log_hits ?hs hits" by (rule account_Inr(1) [OF ac])
  have img: "ev_hash_id ` set (log_hits ?hs hits) = set ?hs"
    using log_hits_nth(3) [OF i(2)] by (metis list.set_map)
  have "blocks s1 \<subseteq> ev_hash_id ` set (acc_events a1)"
    using serve_subset [OF Cons.prems(1) v] Cons.prems(2) img by (auto simp: e image_Un)
  moreover have "sound_log (acc_events a1)"
    unfolding e using serve_hit [OF Cons.prems(1) v]
    by (intro sound_log_append [OF Cons.prems(3) i(2) Cons.prems(2)]) blast
  ultimately show ?case using Cons.IH [OF i(1) _ _ r] by (simp add: e log_hits_nth(3) [OF i(2)])
qed simp

lemma loop_samples:
  assumes "inv s" "0 \<le> d" "replay_loop serve d plan s a = Inr (s', a')"
  shows "\<exists>ts es. acc_ttft a' = acc_ttft a @ ts \<and> acc_e2e a' = acc_e2e a @ es
    \<and> length ts = length plan \<and> length es = length plan
    \<and> (\<forall>k < length plan. min_ttft \<le> ts ! k
         \<and> (0 \<le> output_length (record_of (plan ! k)) \<longrightarrow> ts ! k \<le> es ! k))"
  using assms
proof (induction plan arbitrary: s a)
  case (Cons st plan)
  let ?out = "output_length (record_of st)"
  obtain hits t s1 where v: "serve (hash_ids (record_of st)) s = ((hits, t), s1)" by (metis prod.collapse)
  define e where "e = fadd t (fmul (int_to_float ?out) d)"
  obtain a1 where ac: "account d (record_of st) hits t a = Inr a1" and r: "replay_loop serve d plan s1 a1 = Inr (s', a')"
    using replay_loop_ConsE [OF Cons.prems(3) v] .
  have i: "inv s1" using serve_inv [OF Cons.prems(1) v] by auto
  from Cons.IH [OF i Cons.prems(2) r] obtain ts es where IH:
    "acc_ttft a' = acc_ttft a @ t # ts" "acc_e2e a' = acc_e2e a @ e # es"
    "length ts = length plan" "length es = length plan"
    "\<forall>k < length plan. min_ttft \<le> ts ! k
       \<and> (0 \<le> output_length (record_of (plan ! k)) \<longrightarrow> ts ! k \<le> es ! k)"
    by (auto simp: account_Inr [OF ac] e_def)
  have t: "min_ttft \<le> t" "fl t = t" using serve_ttft [OF Cons.prems(1) v] by auto
  have "t \<le> e" if "0 \<le> ?out"
    unfolding e_def fadd_def using that Cons.prems(2)
    by (intro f64.rnd_ge_fixed [OF t(2)]) (simp add: fmul_def int_to_float_def f64.rnd_nonneg)
  with IH t show ?case
    by (intro exI [of _ "t # ts"] exI [of _ "e # es"]) (auto simp: nth_Cons split: nat.split)
qed simp

lemma loop_time:
  assumes "inv s" "0 \<le> d" "0 < min_ttft" "replay_loop serve d plan s a = Inr (s', a')"
    and "\<And>st. st \<in> set plan \<Longrightarrow> 0 \<le> output_length (record_of st)"
    and "fl (acc_time a) = acc_time a"
  shows "acc_time a \<le> acc_time a' \<and> (plan \<noteq> [] \<and> 0 \<le> acc_time a \<longrightarrow> 0 < acc_time a')"
  using assms(1,4,5,6)
proof (induction plan arbitrary: s a)
  case (Cons st plan)
  let ?out = "output_length (record_of st)"
  obtain hits t s1 where v: "serve (hash_ids (record_of st)) s = ((hits, t), s1)" by (metis prod.collapse)
  define e where "e = fadd t (fmul (int_to_float ?out) d)"
  obtain a1 where ac: "account d (record_of st) hits t a = Inr a1" and r: "replay_loop serve d plan s1 a1 = Inr (s', a')"
    using replay_loop_ConsE [OF Cons.prems(2) v] .
  have i: "inv s1" using serve_inv [OF Cons.prems(1) v] by auto
  have t: "min_ttft \<le> t" "fl t = t" using serve_ttft [OF Cons.prems(1) v] by auto
  have "t \<le> e"
    unfolding e_def fadd_def using Cons.prems(3) [of st] assms(2)
    by (intro f64.rnd_ge_fixed [OF t(2)]) (simp add: fmul_def int_to_float_def f64.rnd_nonneg)
  then have q: "0 < fdiv e 1000" using t(1) assms(3) by (intro fdiv_pos) auto
  have a1: "acc_time a1 = fadd (acc_time a) (fdiv e 1000)"
    by (simp add: account_Inr(5) [OF ac] e_def)
  have "acc_time a \<le> acc_time a1"
    unfolding a1 fadd_def by (rule f64.rnd_ge_fixed [OF Cons.prems(4)]) (use q in simp)
  moreover have "fl (acc_time a1) = acc_time a1" by (simp add: a1 fadd_def f64.rnd_idem)
  moreover have "0 < acc_time a1" if "0 \<le> acc_time a" using q that unfolding a1 by (intro fadd_pos) auto
  ultimately show ?case using Cons.IH [OF i r] Cons.prems(3) by fastforce
qed simp

end

section \<open>Both simulations satisfy it\<close>

lemma od_dom_zip: "length xs = length ys \<Longrightarrow> od_dom (zip xs ys) = set xs"
  by (metis map_fst_zip od_dom_def list.set_map)

interpretation flat: replay_engine serve_flat policy_invar policy_resident 4
proof (unfold_locales, goal_cases)
  case (1 s hs hits t s')
  then show ?case
    using pol.run_invar [of s] by (fastforce simp: serve_flat_def Let_def split: prod.splits)
next
  case (2 s hs hits t s')
  then show ?case
    using pol.run_resident_subset [of s] by (fastforce simp: serve_flat_def Let_def set_zip split: prod.splits)
next
  case (3 s hs hits t s' k)
  then show ?case
    using pol.run_hit_sound [of s "zip hs (map int [0..<length hs])" hits s' k]
    by (auto simp: serve_flat_def Let_def take_zip od_dom_zip split: prod.splits)
next
  case (4 s hs hits t s')
  then obtain m where t: "t = fmul (int_to_float (int (max m 1))) 4"
    by (auto simp: serve_flat_def Let_def split: prod.splits)
  have "1 \<le> int_to_float (int (max m 1))"
    unfolding int_to_float_def by (rule f64.rnd_ge_fixed) simp_all
  then have "4 \<le> t" unfolding t fmul_def using f64.rnd_int [of 4] by (intro f64.rnd_ge_fixed) auto
  then show ?case by (simp add: t fmul_def f64.rnd_idem)
qed

text \<open>The two tiers start with the default costs and never change them.\<close>

definition replay_tiers_invar :: "TieredSimulator \<Rightarrow> bool" where
  "replay_tiers_invar sim \<longleftrightarrow> tiered_invar sim \<and> sim_costs sim = default_costs"

lemma serve_tiered_process:
  "serve_tiered hs sim = ((hits, t), sim') \<longleftrightarrow>
     (\<exists>out. process_request hs sim = (out, sim') \<and> hits = block_hits out \<and> t = ttft_ms out)"
  by (auto simp: serve_tiered_def split: prod.splits)

interpretation tiers: replay_engine serve_tiered replay_tiers_invar held 4
proof (unfold_locales, goal_cases)
  case (1 s hs hits t s')
  then show ?case
    using process_request_laws [of s hs _ s'] by (auto simp: serve_tiered_process replay_tiers_invar_def same_config_def)
next
  case (2 s hs hits t s')
  then show ?case
    using process_request_laws(3) [of s hs _ s'] by (auto simp: serve_tiered_process replay_tiers_invar_def)
next
  case (3 s hs hits t s' k)
  then show ?case
    using process_request_laws(7) [of s hs _ s' k] by (auto simp: serve_tiered_process replay_tiers_invar_def)
next
  case (4 s hs hits t s')
  then obtain m n where t: "t = request_ttft default_costs m n"
    using process_request_laws(8) [of s hs _ s'] by (auto simp: serve_tiered_process replay_tiers_invar_def)
  show ?case
    unfolding t request_ttft_def
    using f64.rnd_int [of 4] by (auto simp: default_costs_def fadd_def f64.rnd_idem intro: fl_max)
qed

section \<open>A replay as one run of the policy\<close>

lemma run_accesses_append:
  "run_accesses acc (xs @ ys) s =
     (let (h1, s1) = run_accesses acc xs s; (h2, s2) = run_accesses acc ys s1 in (h1 @ h2, s2))"
  by (induction xs arbitrary: s) (auto simp: Let_def split: prod.splits)

definition plan_accesses :: "ReplayStep list \<Rightarrow> (hash_id \<times> int) list" where
  "plan_accesses plan =
     concat (map (\<lambda>st. zip (hash_ids (record_of st)) (map int [0..<length (hash_ids (record_of st))])) plan)"

lemma replay_loop_run:
  assumes "policy_invar p" "replay_loop serve_flat d plan p a = Inr (p', a')"
    and "run_accesses policy_access (plan_accesses plan) p = (hits, q)"
  shows "p' = q \<and> map ev_hit (acc_events a') = map ev_hit (acc_events a) @ hits"
  using assms
proof (induction plan arbitrary: p a hits q)
  case (Cons st plan)
  let ?hs = "hash_ids (record_of st)"
  let ?xs = "zip ?hs (map int [0..<length ?hs])"
  obtain h1 p1 where r: "run_accesses policy_access ?xs p = (h1, p1)" by (cases "run_accesses policy_access ?xs p")
  obtain h2 q2 where r2: "run_accesses policy_access (plan_accesses plan) p1 = (h2, q2)"
    by (cases "run_accesses policy_access (plan_accesses plan) p1")
  have hits: "hits = h1 @ h2" "q = q2"
    using Cons.prems(3) r r2 by (auto simp: plan_accesses_def run_accesses_append)
  obtain t where v: "serve_flat ?hs p = ((h1, t), p1)" by (simp add: serve_flat_def r)
  have len: "length h1 = length ?hs" and inv: "policy_invar p1" using flat.serve_inv [OF Cons.prems(1) v] by auto
  obtain a1 where ac: "account d (record_of st) h1 t a = Inr a1" and l: "replay_loop serve_flat d plan p1 a1 = Inr (p', a')"
    using replay_loop_ConsE [OF Cons.prems(2) v] .
  from Cons.IH [OF inv l r2] show ?case
    by (simp add: hits account_Inr(1) [OF ac] log_hits_nth(4) [OF len])
qed (simp add: plan_accesses_def)

lemma run_lru: "run_accesses policy_access xs (LRUPolicy s) = map_prod id LRUPolicy (run_accesses lru_access xs s)"
  by (induction xs arbitrary: s) (auto simp: Let_def split: prod.splits)

lemma simulate_replay_run:
  assumes "simulate_replay plan c name = Inr (al, ts, es, thr)" "make_policy name c = Inr p"
  shows "map ev_hit (log_events al) = fst (run_accesses policy_access (plan_accesses plan) p)"
proof -
  obtain hits q where r: "run_accesses policy_access (plan_accesses plan) p = (hits, q)"
    by (cases "run_accesses policy_access (plan_accesses plan) p")
  obtain p' a' where l: "replay_loop serve_flat flat_decode_ms plan p acc_start = Inr (p', a')" and e: "log_events al = acc_events a'"
    using assms by (auto simp: simulate_replay_def simulation_of_def bind_result_Inr_iff)
  have "policy_invar p" using make_policy_invar [OF assms(2)] by simp
  from replay_loop_run [OF this l r] show ?thesis by (simp add: e r)
qed

section \<open>What a simulation returns\<close>

definition trace_blocks :: "ReplayStep list \<Rightarrow> hash_id list" where
  "trace_blocks plan = concat (map (hash_ids \<circ> record_of) plan)"

text \<open>The facts both simulations share, as one predicate on a returned simulation.\<close>

definition simulation_ok :: "ReplayStep list \<Rightarrow> simulation \<Rightarrow> bool" where
  "simulation_ok plan r \<longleftrightarrow>
     (let (al, ts, es, thr) = r in
      map ev_hash_id (log_events al) = trace_blocks plan
      \<and> sound_log (log_events al)
      \<and> length ts = length plan \<and> length es = length plan
      \<and> (\<forall>k < length plan. 4 \<le> ts ! k \<and> (0 \<le> output_length (record_of (plan ! k)) \<longrightarrow> ts ! k \<le> es ! k)))"

context replay_engine
begin

lemma simulation_of_ok:
  assumes "inv s" "blocks s = {}" "0 \<le> d" "min_ttft = 4"
    and l: "replay_loop serve d plan s acc_start = Inr (s', a')" and r: "simulation_of a' = Inr r"
  shows "simulation_ok plan r"
proof -
  have "sound_log (acc_events a')" "map ev_hash_id (acc_events a') = trace_blocks plan"
    using loop_events [OF assms(1) _ _ l] assms(2) by (simp_all add: trace_blocks_def)
  with loop_samples [OF assms(1,3) l] assms(4) show ?thesis
    using r by (auto simp: simulation_ok_def simulation_of_def bind_result_Inr_iff)
qed

end

lemma decode_cost_nonneg: "0 \<le> flat_decode_ms" "0 \<le> decode_ms_per_token default_costs"
  by (simp_all add: flat_decode_ms_def default_costs_def f64.rnd_nonneg)

lemma simulate_replay_ok:
  assumes "simulate_replay plan c name = Inr r"
  shows "simulation_ok plan r"
proof -
  obtain p p' a where p: "make_policy name c = Inr p"
    and r: "replay_loop serve_flat flat_decode_ms plan p acc_start = Inr (p', a)" "simulation_of a = Inr r"
    using assms by (auto simp: simulate_replay_def bind_result_Inr_iff)
  show ?thesis
    by (rule flat.simulation_of_ok [OF _ _ decode_cost_nonneg(1) _ r]) (use make_policy_invar [OF p] in simp_all)
qed

lemma simulate_tiered_replay_ok:
  assumes "simulate_tiered_replay plan f sl name prefetch = Inr r"
  shows "simulation_ok plan r"
proof -
  obtain sim sim' a where i: "TieredSimulator_init f sl name (if prefetch then PROJECT_PREFETCH_DEPTH else 0)
      default_costs PROJECT_SLOW_POLICY = Inr sim"
    and r: "replay_loop serve_tiered (decode_ms_per_token default_costs) plan sim acc_start = Inr (sim', a)" "simulation_of a = Inr r"
    using assms by (auto simp: simulate_tiered_replay_def bind_result_Inr_iff)
  show ?thesis
    by (rule tiers.simulation_of_ok [OF _ _ decode_cost_nonneg(2) _ r])
      (use TieredSimulator_init_laws [OF i] in \<open>simp_all add: replay_tiers_invar_def\<close>)
qed

lemma simulation_ok_cold:
  assumes "simulation_ok plan (al, ts, es, thr)"
  shows "length (log_events al) = length (trace_blocks plan)"
    and "length (filter ev_hit (log_events al)) + card (set (trace_blocks plan)) \<le> length (trace_blocks plan)"
proof -
  have m: "map ev_hash_id (log_events al) = trace_blocks plan" and s: "sound_log (log_events al)"
    using assms by (auto simp: simulation_ok_def)
  from m show l: "length (log_events al) = length (trace_blocks plan)" by (metis length_map)
  have "ev_hash_id ` set (log_events al) = set (trace_blocks plan)" using m by (metis list.set_map)
  with sound_log_cold [OF s] l
  show "length (filter ev_hit (log_events al)) + card (set (trace_blocks plan)) \<le> length (trace_blocks plan)" by simp
qed

section \<open>Properties\<close>

text \<open>The baseline replay logs every block of the trace once and in order, and every distinct block
  misses at least once: hits plus distinct blocks never exceed the lookups, whatever the policy and
  the pool size.\<close>

lemma replay_logs_every_block:
  assumes "simulate_replay plan pool_blocks policy_name = Inr (al, ttft, e2e, throughput)"
  shows "map ev_hash_id (log_events al) = trace_blocks plan
    \<and> length (filter ev_hit (log_events al)) + card (set (trace_blocks plan)) \<le> length (trace_blocks plan)
    \<and> (\<forall>k < length (log_events al). ev_hit (log_events al ! k) \<longrightarrow>
         (\<exists>j < k. ev_hash_id (log_events al ! j) = ev_hash_id (log_events al ! k)))"
proof -
  note ok = simulate_replay_ok [OF assms]
  then have s: "sound_log (log_events al)" "map ev_hash_id (log_events al) = trace_blocks plan"
    by (auto simp: simulation_ok_def)
  have "\<exists>j < k. ev_hash_id (log_events al ! j) = ev_hash_id (log_events al ! k)"
    if k: "k < length (log_events al)" and "ev_hit (log_events al ! k)" for k
  proof -
    have "ev_hash_id (log_events al ! k) \<in> ev_hash_id ` set (take k (log_events al))"
      using s(1) that by (simp add: sound_log_def)
    then show ?thesis using k by (fastforce simp: in_set_conv_nth)
  qed
  with s(2) simulation_ok_cold(2) [OF ok] show ?thesis by blast
qed

text \<open>C27. The project replay on two tiers logs every block of the trace once and in order, every distinct
  block misses at least once, and the prefetch cannot turn a block that no request named into a hit.\<close>

theorem tiered_replay_logs_every_block:
  assumes "simulate_tiered_replay plan fast_blocks slow_blocks policy_name prefetch = Inr (al, ttft, e2e, throughput)"
  shows "map ev_hash_id (log_events al) = trace_blocks plan
    \<and> length (filter ev_hit (log_events al)) + card (set (trace_blocks plan)) \<le> length (trace_blocks plan)
    \<and> sound_log (log_events al)"
proof -
  note ok = simulate_tiered_replay_ok [OF assms]
  then have "sound_log (log_events al)" "map ev_hash_id (log_events al) = trace_blocks plan"
    by (auto simp: simulation_ok_def)
  with simulation_ok_cold(2) [OF ok] show ?thesis by blast
qed

theorem tiered_replay_logs_every_block_witness:
  "\<exists>al ttft e2e thr. simulate_tiered_replay [\<lparr>arrival_index = 0, record_of =
        \<lparr>timestamp = 0, input_length = 1, output_length = 1, hash_ids = [7, 8, 7]\<rparr>\<rparr>] 1 4 ''s3fifo'' True
        = Inr (al, ttft, e2e, thr)
     \<and> map ev_hash_id (log_events al) = [7, 8, 7] \<and> length (filter ev_hit (log_events al)) + 2 \<le> 3"
proof -
  let ?plan = "[\<lparr>arrival_index = 0, record_of =
        \<lparr>timestamp = 0, input_length = 1, output_length = 1, hash_ids = [7, 8, 7]\<rparr>\<rparr>]"
  have s: "short_lengths ?plan" by (simp add: short_lengths_def)
  obtain sim where i: "TieredSimulator_init 1 4 ''s3fifo'' PROJECT_PREFETCH_DEPTH default_costs PROJECT_SLOW_POLICY = Inr sim"
    by (simp add: TieredSimulator_init_def PROJECT_SLOW_POLICY_def make_policy_def POLICIES_def lru_init_def s3_init_def
        CachePolicy_init_def Let_def)
  from simulation_returns [OF s, of serve_tiered "decode_ms_per_token default_costs" sim] i
  obtain al ttft e2e thr where r: "simulate_tiered_replay ?plan 1 4 ''s3fifo'' True = Inr (al, ttft, e2e, thr)"
    by (auto simp: simulate_tiered_replay_def Let_def)
  have "card {7, 8, 7 :: hash_id} = 2" by code_simp
  with tiered_replay_logs_every_block [OF r] r show ?thesis
    by (intro exI [of _ al] exI [of _ ttft] exI [of _ e2e] exI [of _ thr] conjI) (simp_all add: trace_blocks_def)
qed

text \<open>Both replays return one sample of each kind per request; the time to the first token is never
  below 4 ms and the end-to-end time never below the time to the first token.\<close>

lemma replay_latencies:
  assumes "simulate_replay plan pool_blocks policy_name = Inr (al, ttft, e2e, throughput)
    \<or> simulate_tiered_replay plan fast_blocks slow_blocks policy_name prefetch = Inr (al, ttft, e2e, throughput)"
    and "k < length plan"
  shows "length ttft = length plan \<and> length e2e = length plan \<and> 4 \<le> ttft ! k
    \<and> (0 \<le> output_length (record_of (plan ! k)) \<longrightarrow> ttft ! k \<le> e2e ! k)"
proof -
  have "simulation_ok plan (al, ttft, e2e, throughput)"
    using assms(1) simulate_replay_ok simulate_tiered_replay_ok by blast
  then show ?thesis using assms(2) by (simp add: simulation_ok_def)
qed

text \<open>With the LRU policy a larger baseline pool never hurts: every lookup that hits in the smaller
  pool hits in the larger one.\<close>

lemma lru_replay_monotone:
  assumes "simulate_replay plan c ''lru'' = Inr (al, ttft, e2e, throughput)"
    and "simulate_replay plan d ''lru'' = Inr (al2, ttft2, e2e2, throughput2)"
    and "c \<le> d" "k < length (trace_blocks plan)" "ev_hit (log_events al ! k)"
  shows "ev_hit (log_events al2 ! k)"
proof -
  have init: "\<exists>s. make_policy ''lru'' n = Inr (LRUPolicy s) \<and> lru_init n = Inr s"
    if "simulate_replay plan n ''lru'' = Inr r" for n r
    using that by (auto simp: simulate_replay_def make_policy_def POLICIES_def bind_result_Inr_iff)
      (cases "lru_init n"; auto)
  obtain s t where s: "make_policy ''lru'' c = Inr (LRUPolicy s)" "lru_init c = Inr s"
    and t: "make_policy ''lru'' d = Inr (LRUPolicy t)" "lru_init d = Inr t"
    using init [OF assms(1)] init [OF assms(2)] by auto
  let ?xs = "plan_accesses plan"
  obtain h1 s' where r1: "run_accesses lru_access ?xs s = (h1, s')" by (cases "run_accesses lru_access ?xs s")
  obtain h2 t' where r2: "run_accesses lru_access ?xs t = (h2, t')" by (cases "run_accesses lru_access ?xs t")
  have e1: "map ev_hit (log_events al) = h1" and e2: "map ev_hit (log_events al2) = h2"
    using simulate_replay_run [OF assms(1) s(1)] simulate_replay_run [OF assms(2) t(1)]
    by (simp_all add: run_lru r1 r2)
  have l: "length (log_events al) = length (trace_blocks plan)" "length (log_events al2) = length (trace_blocks plan)"
    using simulation_ok_cold(1) [OF simulate_replay_ok] assms(1,2) by auto
  have "lru_invar s" using lru_init_invar [OF s(2)] by simp
  then have "length ?xs = length (trace_blocks plan)"
    using lru.run_invar [OF _ r1] e1 l(1) by (metis length_map)
  then have "h1 ! k \<longrightarrow> h2 ! k" using lru_run_inclusion [OF s(2) r1 t(2) r2 assms(3)] assms(4) by simp
  then show ?thesis using assms(4,5) l by (metis e1 e2 nth_map)
qed

end
