(* ===== verification/Py_Text.thy ===== *)
theory Py_Text
  imports Prelude
begin

text \<open>
  What the modelled code uses of Python's strings: a \<^verbatim>\<open>str\<close> is a list of code points;
  \<^verbatim>\<open>strip\<close>, \<^verbatim>\<open>splitlines\<close>, and the part of \<^verbatim>\<open>re\<close> that its patterns need, as a
  backtracking matcher.
\<close>

section \<open>Strings\<close>

type_synonym pystr = "int list"

text \<open>A string literal of the source.\<close>

definition lit :: "string \<Rightarrow> pystr" where
  "lit s = map of_char s"

text \<open>
  \<^verbatim>\<open>str.isspace\<close> on one code point, which is also the class \<^verbatim>\<open>\s\<close>; and the class \<^verbatim>\<open>\d\<close>, the
  decimal digits of Unicode 14, ten in a row from each zero.
\<close>

definition is_space :: "int \<Rightarrow> bool" where
  "is_space c \<longleftrightarrow> 9 \<le> c \<and> c \<le> 13 \<or> 28 \<le> c \<and> c \<le> 32 \<or> c = 133 \<or> c = 160 \<or> c = 5760
     \<or> 8192 \<le> c \<and> c \<le> 8202 \<or> c = 8232 \<or> c = 8233 \<or> c = 8239 \<or> c = 8287 \<or> c = 12288"

definition decimal_zeros :: "int list" where
  "decimal_zeros =
     [48, 1632, 1776, 1984, 2406, 2534, 2662, 2790, 2918, 3046, 3174, 3302, 3430, 3558, 3664, 3792,
      3872, 4160, 4240, 6112, 6160, 6470, 6608, 6784, 6800, 6992, 7088, 7232, 7248, 42528, 43216,
      43264, 43472, 43504, 43600, 44016, 65296, 66720, 68912, 69734, 69872, 69942, 70096, 70384,
      70736, 70864, 71248, 71360, 71472, 71904, 72016, 72784, 73040, 73120, 92768, 92864, 93008,
      120782, 120792, 120802, 120812, 120822, 123200, 123632, 125264, 130032]"

definition is_digit :: "int \<Rightarrow> bool" where
  "is_digit c \<longleftrightarrow> (\<exists>z \<in> set decimal_zeros. z \<le> c \<and> c < z + 10)"

definition is_linebreak :: "int \<Rightarrow> bool" where
  "is_linebreak c \<longleftrightarrow> 10 \<le> c \<and> c \<le> 13 \<or> 28 \<le> c \<and> c \<le> 30 \<or> c = 133 \<or> c = 8232 \<or> c = 8233"

definition lstrip :: "pystr \<Rightarrow> pystr" where
  "lstrip s = dropWhile is_space s"

definition strip :: "pystr \<Rightarrow> pystr" where
  "strip s = rev (dropWhile is_space (rev (dropWhile is_space s)))"

text \<open>\<^verbatim>\<open>cur\<close> is the line read so far; a carriage return and a line feed are one break.\<close>

fun splitlines_from :: "pystr \<Rightarrow> pystr \<Rightarrow> pystr list" where
  "splitlines_from cur [] = (if cur = [] then [] else [cur])"
| "splitlines_from cur (c # cs) =
     (if c = 13 \<and> cs \<noteq> [] \<and> hd cs = 10 then cur # splitlines_from [] (tl cs)
      else if is_linebreak c then cur # splitlines_from [] cs
      else splitlines_from (cur @ [c]) cs)"

definition splitlines :: "pystr \<Rightarrow> pystr list" where
  "splitlines s = splitlines_from [] s"

section \<open>Regular expressions\<close>

text \<open>
  A repeated character class with its bounds and greediness (\<^verbatim>\<open>[..]*\<close>, \<^verbatim>\<open>[..]+?\<close>, \<^verbatim>\<open>[..]{40}\<close>, a
  single character), sequence, option, numbered group, \<^verbatim>\<open>^\<close> and \<^verbatim>\<open>$\<close>.
\<close>

datatype rx =
    Cls "int \<Rightarrow> bool" nat "nat option" bool
  | Seq rx rx
  | Opt rx
  | Grp nat rx
  | Bol
  | Eol

text \<open>
  A matcher state is the position, the rest of the text and the groups so far. The result lists
  the ways to match in the order in which backtracking tries them.
\<close>

type_synonym rstate = "nat \<times> pystr \<times> (nat \<times> pystr) list"

primrec rx_run :: "rx \<Rightarrow> rstate \<Rightarrow> rstate list" where
  "rx_run (Cls p lo hi greedy) s =
     (let (pos, rest, gs) = s;
          m = length (takeWhile p rest);
          n = (case hi of None \<Rightarrow> m | Some h \<Rightarrow> min h m);
          ks = [lo..<Suc n]
      in map (\<lambda>k. (pos + k, drop k rest, gs)) (if greedy then rev ks else ks))"
| "rx_run (Seq a b) s = concat (map (rx_run b) (rx_run a s))"
| "rx_run (Opt r) s = rx_run r s @ [s]"
| "rx_run (Grp n r) s =
     map (\<lambda>(pos, rest, gs). (pos, rest, AList.update n (take (pos - fst s) (fst (snd s))) gs)) (rx_run r s)"
| "rx_run Bol s = (if fst s = 0 then [s] else [])"
| "rx_run Eol s = (if fst (snd s) = [] \<or> fst (snd s) = [10] then [s] else [])"

text \<open>\<^verbatim>\<open>pattern.match(text)\<close>: the groups of the first way to match.\<close>

definition rx_match :: "rx \<Rightarrow> pystr \<Rightarrow> (nat \<times> pystr) list option" where
  "rx_match r text =
     (case rx_run r (0, text, []) of
        [] \<Rightarrow> None
      | (_, _, gs) # _ \<Rightarrow> Some gs)"

section \<open>Lemmas\<close>

lemma linebreak_space: "is_linebreak c \<Longrightarrow> is_space c"
  by (auto simp: is_linebreak_def is_space_def)

lemma splitlines_line:
  assumes "\<forall>c \<in> set l. \<not> is_linebreak c"
  shows "splitlines_from cur (l @ 10 # rest) = (cur @ l) # splitlines_from [] rest"
  using assms
proof (induction l arbitrary: cur)
  case Nil
  then show ?case by (simp add: is_linebreak_def)
next
  case (Cons c l)
  then have "c \<noteq> 13" by (auto simp: is_linebreak_def)
  with Cons show ?case by simp
qed

lemma splitlines_concat:
  assumes "\<forall>l \<in> set ls. \<forall>c \<in> set l. \<not> is_linebreak c"
  shows "splitlines (concat (map (\<lambda>l. l @ [10]) ls)) = ls"
proof -
  have "splitlines_from [] (concat (map (\<lambda>l. l @ [10]) ls)) = ls"
    using assms by (induction ls) (simp_all add: splitlines_line)
  then show ?thesis by (simp add: splitlines_def)
qed

text \<open>No line that \<^verbatim>\<open>splitlines\<close> returns has a line break in it.\<close>

lemma splitlines_from_no_break:
  "\<forall>c \<in> set cur. \<not> is_linebreak c \<Longrightarrow> l \<in> set (splitlines_from cur s) \<Longrightarrow> c \<in> set l \<Longrightarrow> \<not> is_linebreak c"
proof (induction cur s arbitrary: l rule: splitlines_from.induct)
  case (2 cur x cs)
  then show ?case by (cases cs) (auto split: if_splits)
qed (auto split: if_splits)

lemma in_set_dropWhile: "c \<in> set s \<Longrightarrow> \<not> P c \<Longrightarrow> c \<in> set (dropWhile P s)"
  by (induction s) auto

lemma strip_not_Nil: "c \<in> set s \<Longrightarrow> \<not> is_space c \<Longrightarrow> strip s \<noteq> []"
  using in_set_dropWhile [of c "rev (dropWhile is_space s)" is_space] in_set_dropWhile [of c s is_space]
  by (auto simp: strip_def)

lemma takeWhile_stop: "\<forall>x \<in> set xs. P x \<Longrightarrow> \<not> P y \<Longrightarrow> takeWhile P (xs @ y # ys) = xs"
  by (simp add: takeWhile_append)

text \<open>Repetition of a class: the greedy way takes the whole run first.\<close>

lemma rx_run_greedy:
  assumes "\<forall>x \<in> set xs. p x" "\<not> p y" "lo \<le> length xs"
  shows "\<exists>others. rx_run (Cls p lo None True) (pos, xs @ y # ys, gs) = (pos + length xs, y # ys, gs) # others"
proof -
  have "rev [lo..<Suc (length xs)] = length xs # rev [lo..<length xs]" using assms(3) by simp
  then show ?thesis using assms(3) by (simp add: takeWhile_stop [OF assms(1,2)] Let_def)
qed

lemma rx_run_Seq_hd:
  assumes "rx_run a s = s1 # others" "rx_run b s1 = s2 # others2"
  shows "\<exists>more. rx_run (Seq a b) s = s2 # more"
  using assms by simp

lemma rx_run_lazy_group:
  "rx_run (Seq (Grp n (Cls p lo None False)) r) (pos, t, gs) =
     concat (map (\<lambda>k. rx_run r (pos + k, drop k t, AList.update n (take k t) gs))
       [lo..<Suc (length (takeWhile p t))])"
  by (simp add: Let_def comp_def del: upt_Suc)

lemma concat_map_skip:
  "\<forall>x \<in> set xs. f x = [] \<Longrightarrow> concat (map f (xs @ y # ys)) = f y @ concat (map f ys)"
  by (induction xs) auto

lemma strip_head: "\<not> is_space x \<Longrightarrow> strip (x # xs) \<noteq> [] \<and> hd (strip (x # xs)) = x"
proof -
  assume "\<not> is_space x"
  moreover have "dropWhile is_space (rev xs @ [x]) \<noteq> [] \<and> last (dropWhile is_space (rev xs @ [x])) = x"
    using \<open>\<not> is_space x\<close> by (cases "\<forall>y \<in> set xs. is_space y") (auto simp: dropWhile_append)
  ultimately show ?thesis by (simp add: strip_def hd_rev)
qed

lemma strip_spaces: "\<forall>x \<in> set ws. is_space x \<Longrightarrow> strip (ws @ s) = strip s"
  by (simp add: strip_def dropWhile_append)

lemma update_triv_sub: "g \<in> set (AList.update n v gs) \<Longrightarrow> g = (n, v) \<or> g \<in> set gs"
  by (induction gs) (auto split: if_splits)

text \<open>A match only moves forward in the text, and a group is a piece of it.\<close>

definition rx_within :: "rstate \<Rightarrow> rstate \<Rightarrow> bool" where
  "rx_within s s' \<longleftrightarrow> (\<exists>n. fst (snd s') = drop n (fst (snd s)))
    \<and> (\<forall>g \<in> set (snd (snd s')). g \<in> set (snd (snd s)) \<or> set (snd g) \<subseteq> set (fst (snd s)))"

lemma rx_within_refl [simp]: "rx_within s s"
  unfolding rx_within_def by (auto intro: exI [of _ 0])

lemma rx_within_trans:
  assumes "rx_within a b" "rx_within b c"
  shows "rx_within a c"
proof -
  obtain n m where n: "fst (snd b) = drop n (fst (snd a))" and m: "fst (snd c) = drop m (fst (snd b))"
    using assms unfolding rx_within_def by blast
  then have "fst (snd c) = drop (m + n) (fst (snd a))" by simp
  moreover have "set (fst (snd b)) \<subseteq> set (fst (snd a))" by (simp add: n set_drop_subset)
  ultimately show ?thesis using assms unfolding rx_within_def by blast
qed

lemma rx_run_within: "s' \<in> set (rx_run r s) \<Longrightarrow> rx_within s s'"
proof (induction r arbitrary: s s')
  case (Cls p lo hi greedy)
  then show ?case unfolding rx_within_def by (auto simp: Let_def split: if_splits prod.splits)
next
  case (Seq a b)
  from Seq.prems obtain s1 where "s1 \<in> set (rx_run a s)" "s' \<in> set (rx_run b s1)" by auto
  with Seq.IH show ?case by (blast intro: rx_within_trans)
next
  case (Grp n r)
  then obtain s1 where s1: "s1 \<in> set (rx_run r s)"
    "s' = (fst s1, fst (snd s1), AList.update n (take (fst s1 - fst s) (fst (snd s))) (snd (snd s1)))"
    by (auto split: prod.splits)
  have "g = (n, take (fst s1 - fst s) (fst (snd s))) \<or> g \<in> set (snd (snd s1))"
    if "g \<in> set (snd (snd s'))" for g
    using that unfolding s1(2) by (auto dest: update_triv_sub)
  with Grp.IH [OF s1(1)] show ?case unfolding rx_within_def s1(2)
    by (metis fst_conv snd_conv set_take_subset)
qed (auto split: if_splits)

lemma rx_match_groups:
  assumes "rx_match r text = Some gs" "(n, g) \<in> set gs"
  shows "set g \<subseteq> set text"
proof -
  obtain pos rest more where "rx_run r (0, text, []) = (pos, rest, gs) # more"
    using assms(1) by (auto simp: rx_match_def split: list.splits)
  then have "rx_within (0, text, []) (pos, rest, gs)" by (intro rx_run_within [of _ r]) simp
  then show ?thesis using assms(2) by (fastforce simp: rx_within_def)
qed

end
