(* ===== verification/Json.thy ===== *)
theory Json
  imports Py_Text Float64 Ordered_Dict
begin

text \<open>
  What the modelled code uses of Python's \<^verbatim>\<open>json\<close> module: \<^verbatim>\<open>json.loads\<close> on a string, and the conversion
  \<^verbatim>\<open>int(x)\<close> of a decoded value. A decoding error is a \<^verbatim>\<open>JSONDecodeError\<close>, a subclass of
  \<^verbatim>\<open>ValueError\<close>. The limits of the interpreter (nesting depth, digits of an integer literal, range
  of a float) are not modelled.
\<close>

section \<open>Values\<close>

datatype json =
    JNull
  | JBool bool
  | JInt int
  | JFloat pyfloat
  | JNaN
  | JInfinity bool
  | JStr pystr
  | JList "json list"
  | JObj "(pystr \<times> json) list"

section \<open>Scanner\<close>

definition is_ws :: "int \<Rightarrow> bool" where
  "is_ws c \<longleftrightarrow> c = 32 \<or> c = 9 \<or> c = 10 \<or> c = 13"

definition is_dec :: "int \<Rightarrow> bool" where
  "is_dec c \<longleftrightarrow> 48 \<le> c \<and> c \<le> 57"

definition skip_ws :: "pystr \<Rightarrow> pystr" where
  "skip_ws s = dropWhile is_ws s"

definition digits_val :: "pystr \<Rightarrow> int" where
  "digits_val ds = foldl (\<lambda>a c. 10 * a + (c - 48)) 0 ds"

definition hex_val :: "int \<Rightarrow> int option" where
  "hex_val c =
     (if 48 \<le> c \<and> c \<le> 57 then Some (c - 48)
      else if 97 \<le> c \<and> c \<le> 102 then Some (c - 87)
      else if 65 \<le> c \<and> c \<le> 70 then Some (c - 55)
      else None)"

fun hex4 :: "pystr \<Rightarrow> (int \<times> pystr) option" where
  "hex4 (a # b # c # d # rest) =
     (case (hex_val a, hex_val b, hex_val c, hex_val d) of
        (Some w, Some x, Some y, Some z) \<Rightarrow> Some (4096 * w + 256 * x + 16 * y + z, rest)
      | _ \<Rightarrow> None)"
| "hex4 _ = None"

definition simple_escape :: "int \<Rightarrow> int option" where
  "simple_escape c =
     map_of [(34, 34), (92, 92), (47, 47), (98, 8), (102, 12), (110, 10), (114, 13), (116, 9)] c"

text \<open>The low half of a surrogate pair, when the text goes on with its escape.\<close>

definition low_surrogate :: "pystr \<Rightarrow> (int \<times> pystr) option" where
  "low_surrogate s =
     (case s of
        b # u # rest \<Rightarrow>
          if b = 92 \<and> u = 117
          then (case hex4 rest of
                  Some (v, rest') \<Rightarrow> if 56320 \<le> v \<and> v \<le> 57343 then Some (v, rest') else None
                | None \<Rightarrow> None)
          else None
      | _ \<Rightarrow> None)"

lemma hex4_length: "hex4 s = Some (v, rest) \<Longrightarrow> length rest < length s"
  by (cases s rule: hex4.cases) (auto split: option.splits)

lemma low_surrogate_length: "low_surrogate s = Some (v, rest) \<Longrightarrow> length rest < length s"
  by (auto simp: low_surrogate_def split: list.splits if_splits option.splits dest!: hex4_length)

text \<open>The characters of a string literal after its opening quote.\<close>

function json_chars :: "pystr \<Rightarrow> pystr \<Rightarrow> (pystr \<times> pystr) result" where
  "json_chars acc [] = Inl ValueError"
| "json_chars acc (c # s) =
     (if c = 34 then Inr (acc, s)
      else if c = 92
      then
        (case s of
           [] \<Rightarrow> Inl ValueError
         | e # s1 \<Rightarrow>
             if e = 117
             then
               (case hex4 s1 of
                  None \<Rightarrow> Inl ValueError
                | Some (hi, s2) \<Rightarrow>
                    if 55296 \<le> hi \<and> hi \<le> 56319
                    then
                      (case low_surrogate s2 of
                         Some (lo, s3) \<Rightarrow>
                           json_chars (acc @ [65536 + 1024 * (hi - 55296) + (lo - 56320)]) s3
                       | None \<Rightarrow> json_chars (acc @ [hi]) s2)
                    else json_chars (acc @ [hi]) s2)
             else
               (case simple_escape e of
                  None \<Rightarrow> Inl ValueError
                | Some x \<Rightarrow> json_chars (acc @ [x]) s1))
      else if c < 32 then Inl ValueError
      else json_chars (acc @ [c]) s)"
  by pat_completeness auto
termination
  by (relation "measure (\<lambda>(acc, s). length s)") (auto dest!: hex4_length low_surrogate_length)

declare json_chars.simps(2) [simp del]

text \<open>
  A number literal: sign, integer part without a leading zero, and an optional fraction and
  exponent, each taken only if a digit follows.
\<close>

definition json_number :: "pystr \<Rightarrow> (json \<times> pystr) result" where
  "json_number s =
     (let neg = (s \<noteq> [] \<and> hd s = 45);
          s1 = (if neg then tl s else s);
          sgn = (if neg then - 1 else 1);
          ip = (if s1 \<noteq> [] \<and> hd s1 = 48 then [48] else takeWhile is_dec s1);
          s2 = drop (length ip) s1
      in if ip = [] then Inl ValueError
         else
           (let fp = (if s2 \<noteq> [] \<and> hd s2 = 46 then takeWhile is_dec (tl s2) else []);
                s3 = (if fp = [] then s2 else drop (Suc (length fp)) s2);
                signed = (length s3 \<ge> 2 \<and> hd s3 \<in> {101, 69} \<and> hd (tl s3) \<in> {43, 45});
                ds = (if s3 \<noteq> [] \<and> hd s3 \<in> {101, 69} then takeWhile is_dec (drop (if signed then 2 else 1) s3) else []);
                s4 = (if ds = [] then s3 else drop ((if signed then 2 else 1) + length ds) s3);
                ex = (if signed \<and> hd (tl s3) = 45 then - digits_val ds else digits_val ds)
            in if fp = [] \<and> ds = [] then Inr (JInt (sgn * digits_val ip), s4)
               else Inr (JFloat (fl (of_int (sgn * digits_val (ip @ fp)) * 10 powi (ex - int (length fp)))), s4)))"

definition starts_with :: "pystr \<Rightarrow> pystr \<Rightarrow> bool" where
  "starts_with w s \<longleftrightarrow> take (length w) s = w"

text \<open>The constants; \<open>None\<close> when the text starts with none of them.\<close>

definition json_constant :: "pystr \<Rightarrow> (json \<times> pystr) option" where
  "json_constant s =
     (if starts_with (lit ''null'') s then Some (JNull, drop 4 s)
      else if starts_with (lit ''true'') s then Some (JBool True, drop 4 s)
      else if starts_with (lit ''false'') s then Some (JBool False, drop 5 s)
      else if starts_with (lit ''NaN'') s then Some (JNaN, drop 3 s)
      else if starts_with (lit ''Infinity'') s then Some (JInfinity True, drop 8 s)
      else if starts_with (lit ''-Infinity'') s then Some (JInfinity False, drop 9 s)
      else None)"

text \<open>
  \<^verbatim>\<open>scan_once\<close> with the loops over elements and members. Every call gets less fuel; a value takes at
  least one character, so the length of the text is enough.
\<close>

fun json_value :: "nat \<Rightarrow> pystr \<Rightarrow> (json \<times> pystr) result"
  and json_elems :: "nat \<Rightarrow> json list \<Rightarrow> pystr \<Rightarrow> (json \<times> pystr) result"
  and json_members :: "nat \<Rightarrow> (pystr, json) odict \<Rightarrow> pystr \<Rightarrow> (json \<times> pystr) result" where
  "json_value 0 s = Inl ValueError"
| "json_value (Suc n) s =
     (case s of
        [] \<Rightarrow> Inl ValueError
      | c # r \<Rightarrow>
          if c = 34 then bind_result (json_chars [] r) (\<lambda>(t, rest). Inr (JStr t, rest))
          else if c = 91
          then (let r1 = skip_ws r
                in if r1 \<noteq> [] \<and> hd r1 = 93 then Inr (JList [], tl r1) else json_elems n [] r1)
          else if c = 123
          then (let r1 = skip_ws r
                in if r1 \<noteq> [] \<and> hd r1 = 125 then Inr (JObj [], tl r1) else json_members n [] r1)
          else
            (case json_constant s of
               Some res \<Rightarrow> Inr res
             | None \<Rightarrow> json_number s))"
| "json_elems 0 acc s = Inl ValueError"
| "json_elems (Suc n) acc s =
     bind_result (json_value n s) (\<lambda>(v, rest).
       (case skip_ws rest of
          [] \<Rightarrow> Inl ValueError
        | c # r \<Rightarrow>
            if c = 93 then Inr (JList (acc @ [v]), r)
            else if c = 44 then json_elems n (acc @ [v]) (skip_ws r)
            else Inl ValueError))"
| "json_members 0 acc s = Inl ValueError"
| "json_members (Suc n) acc s =
     (case s of
        [] \<Rightarrow> Inl ValueError
      | q # r0 \<Rightarrow>
          if q \<noteq> 34 then Inl ValueError
          else
            bind_result (json_chars [] r0) (\<lambda>(key, r1).
              (case skip_ws r1 of
                 [] \<Rightarrow> Inl ValueError
               | colon # r2 \<Rightarrow>
                   if colon \<noteq> 58 then Inl ValueError
                   else
                     bind_result (json_value n (skip_ws r2)) (\<lambda>(v, rest).
                       (case skip_ws rest of
                          [] \<Rightarrow> Inl ValueError
                        | c # r3 \<Rightarrow>
                            if c = 125 then Inr (JObj (od_set key v acc), r3)
                            else if c = 44 then json_members n (od_set key v acc) (skip_ws r3)
                            else Inl ValueError)))))"

definition json_loads :: "pystr \<Rightarrow> json result" where
  "json_loads s =
     (if s \<noteq> [] \<and> hd s = 65279 then Inl ValueError
      else
        bind_result (json_value (Suc (length s)) (skip_ws s)) (\<lambda>(v, rest).
          if skip_ws rest = [] then Inr v else Inl ValueError))"

section \<open>int(x)\<close>

definition digit_val :: "int \<Rightarrow> int" where
  "digit_val c = (case find (\<lambda>z. z \<le> c \<and> c < z + 10) decimal_zeros of Some z \<Rightarrow> c - z | None \<Rightarrow> 0)"

text \<open>The digits of a string integer, single underscores allowed between them; \<open>prev\<close> is whether a digit came right before.\<close>

fun int_digits :: "int \<Rightarrow> bool \<Rightarrow> pystr \<Rightarrow> int option" where
  "int_digits a prev [] = (if prev then Some a else None)"
| "int_digits a prev (c # s) =
     (if is_digit c then int_digits (10 * a + digit_val c) True s
      else if c = 95 \<and> prev then int_digits a False s
      else None)"

definition int_of_str :: "pystr \<Rightarrow> int result" where
  "int_of_str s =
     (let t = strip s;
          neg = (t \<noteq> [] \<and> hd t = 45);
          ds = (if t \<noteq> [] \<and> hd t \<in> {43, 45} then tl t else t)
      in case int_digits 0 False ds of
           None \<Rightarrow> Inl ValueError
         | Some v \<Rightarrow> Inr (if neg then - v else v))"

fun py_int :: "json \<Rightarrow> int result" where
  "py_int (JInt n) = Inr n"
| "py_int (JBool b) = Inr (if b then 1 else 0)"
| "py_int (JFloat x) = Inr (if x < 0 then \<lceil>x\<rceil> else \<lfloor>x\<rfloor>)"
| "py_int JNaN = Inl ValueError"
| "py_int (JInfinity b) = Inl OverflowError"
| "py_int (JStr s) = int_of_str s"
| "py_int _ = Inl TypeError"

section \<open>Rendering\<close>

text \<open>
  The text \<^verbatim>\<open>json.dumps\<close> writes for values without floats whose strings need no escape: the
  reference the scanner is checked against.
\<close>

fun nat_text :: "nat \<Rightarrow> pystr" where
  "nat_text n = (if n < 10 then [48 + int n] else nat_text (n div 10) @ [48 + int (n mod 10)])"

declare nat_text.simps [simp del]

definition int_text :: "int \<Rightarrow> pystr" where
  "int_text i = (if i < 0 then 45 # nat_text (nat (- i)) else nat_text (nat i))"

fun join :: "pystr \<Rightarrow> pystr list \<Rightarrow> pystr" where
  "join sep [] = []"
| "join sep [t] = t"
| "join sep (t # u # ts) = t @ sep @ join sep (u # ts)"

fun render :: "json \<Rightarrow> pystr" where
  "render JNull = lit ''null''"
| "render (JBool b) = (if b then lit ''true'' else lit ''false'')"
| "render (JInt i) = int_text i"
| "render (JStr s) = 34 # s @ [34]"
| "render (JList vs) = 91 # join [44, 32] (map render vs) @ [93]"
| "render (JObj kvs) = 123 # join [44, 32] (map (\<lambda>(k, v). 34 # k @ [34, 58, 32] @ render v) kvs) @ [125]"
| "render _ = lit ''null''"

definition plain_text :: "pystr \<Rightarrow> bool" where
  "plain_text s \<longleftrightarrow> (\<forall>c \<in> set s. 32 \<le> c \<and> c \<noteq> 34 \<and> c \<noteq> 92)"

fun plain_json :: "json \<Rightarrow> bool" where
  "plain_json JNull = True"
| "plain_json (JBool b) = True"
| "plain_json (JInt i) = True"
| "plain_json (JStr s) = plain_text s"
| "plain_json (JList vs) = (\<forall>v \<in> set vs. plain_json v)"
| "plain_json (JObj kvs) = ((\<forall>(k, v) \<in> set kvs. plain_text k \<and> plain_json v) \<and> distinct (map fst kvs))"
| "plain_json _ = False"

lemma join_Cons: "ts \<noteq> [] \<Longrightarrow> join sep (t # ts) = t @ sep @ join sep ts"
  by (cases ts) auto

lemma nat_text_props:
  "nat_text n \<noteq> [] \<and> (\<forall>c \<in> set (nat_text n). is_dec c) \<and> digits_val (nat_text n) = int n
     \<and> (hd (nat_text n) = 48 \<longrightarrow> nat_text n = [48])"
proof (induction n rule: nat_text.induct)
  case (1 n)
  show ?case
  proof (cases "n < 10")
    case True
    then show ?thesis by (simp add: nat_text.simps [of n] nat_text.simps [of 0] is_dec_def digits_val_def)
  next
    case False
    note IH = 1 [OF False]
    have "nat_text (n div 10) \<noteq> [48]" using IH False by (auto simp: digits_val_def)
    moreover have "is_dec (48 + int (n mod 10))" by (simp add: is_dec_def)
    ultimately show ?thesis using IH False
      by (auto simp: nat_text.simps [of n] digits_val_def zmod_int zdiv_int)
  qed
qed

definition ends_number :: "pystr \<Rightarrow> bool" where
  "ends_number rest \<longleftrightarrow> rest = [] \<or> \<not> is_dec (hd rest) \<and> hd rest \<notin> {46, 101, 69}"

lemma json_number_int:
  assumes "ends_number rest"
  shows "json_number (int_text i @ rest) = Inr (JInt i, rest)"
proof -
  define m where "m = nat \<bar>i\<bar>"
  let ?t = "nat_text m"
  have t: "?t \<noteq> []" "\<forall>c \<in> set ?t. is_dec c" "digits_val ?t = \<bar>i\<bar>" "hd ?t = 48 \<longrightarrow> ?t = [48]"
    using nat_text_props [of m] by (auto simp: m_def)
  have "is_dec (hd ?t)" using t(1,2) by simp
  then have "hd ?t \<noteq> 45" by (auto simp: is_dec_def)
  then have neg: "(int_text i @ rest \<noteq> [] \<and> hd (int_text i @ rest) = 45) = (i < 0)"
    using t(1) by (auto simp: int_text_def m_def)
  have s1: "(if i < 0 then tl (int_text i @ rest) else int_text i @ rest) = ?t @ rest"
    by (simp add: int_text_def m_def)
  have ip: "(if ?t @ rest \<noteq> [] \<and> hd (?t @ rest) = 48 then [48] else takeWhile is_dec (?t @ rest)) = ?t"
  proof (cases "hd ?t = 48")
    case True
    then show ?thesis using t(1,4) by simp
  next
    case False
    have "takeWhile is_dec (?t @ rest) = ?t"
      using t(2) assms by (cases rest) (simp_all add: ends_number_def takeWhile_append)
    with False t(1) show ?thesis by simp
  qed
  have sgn: "(if i < 0 then - 1 else 1) * \<bar>i\<bar> = i" by simp
  show ?thesis
    unfolding json_number_def Let_def neg s1 ip using t(1,3) sgn assms
    by (cases rest) (simp_all add: ends_number_def)
qed

lemma json_chars_plain:
  "plain_text t \<Longrightarrow> json_chars acc (t @ 34 # rest) = Inr (acc @ t, rest)"
  by (induction t arbitrary: acc) (simp_all add: plain_text_def json_chars.simps(2))

text \<open>How the text of a value starts.\<close>

definition value_start :: "int \<Rightarrow> bool" where
  "value_start c \<longleftrightarrow> \<not> is_ws c \<and> c \<notin> {93, 125, 44}"

lemma int_text_start:
  "int_text i \<noteq> [] \<and> value_start (hd (int_text i)) \<and> hd (int_text i) \<notin> {34, 91, 123}"
proof -
  have "is_dec (hd (nat_text n)) \<and> nat_text n \<noteq> []" for n using nat_text_props [of n] by simp
  from this [of "nat i"] show ?thesis by (auto simp: int_text_def value_start_def is_dec_def is_ws_def)
qed

lemma render_start: "render v \<noteq> [] \<and> value_start (hd (render v))"
proof (cases v)
  case (JInt i)
  then show ?thesis using int_text_start [of i] by simp
qed (simp_all add: value_start_def is_ws_def lit_def)

lemma skip_ws_start: "s \<noteq> [] \<Longrightarrow> value_start (hd s) \<Longrightarrow> skip_ws s = s"
  by (cases s) (simp_all add: skip_ws_def value_start_def)

lemma skip_ws_render: "skip_ws (render v @ rest) = render v @ rest" "skip_ws (32 # render v @ rest) = render v @ rest"
proof -
  show "skip_ws (render v @ rest) = render v @ rest" using render_start [of v] by (intro skip_ws_start) auto
  then show "skip_ws (32 # render v @ rest) = render v @ rest" by (simp add: skip_ws_def is_ws_def)
qed

lemma json_constant_int: "json_constant (int_text i @ rest) = None"
proof -
  have d: "is_dec (hd (nat_text n)) \<and> nat_text n \<noteq> []" for n using nat_text_props [of n] by simp
  show ?thesis
  proof (cases "i < 0")
    case True
    then obtain c s where "nat_text (nat (- i)) = c # s" "is_dec c" using d [of "nat (- i)"] by (cases "nat_text (nat (- i))") auto
    with True show ?thesis by (auto simp: int_text_def json_constant_def starts_with_def lit_def is_dec_def)
  next
    case False
    then obtain c s where "nat_text (nat i) = c # s" "is_dec c" using d [of "nat i"] by (cases "nat_text (nat i)") auto
    with False show ?thesis by (auto simp: int_text_def json_constant_def starts_with_def lit_def is_dec_def)
  qed
qed

lemma json_value_int:
  assumes "0 < n" "ends_number rest"
  shows "json_value n (int_text i @ rest) = Inr (JInt i, rest)"
proof -
  obtain m where n: "n = Suc m" using assms(1) by (cases n) auto
  obtain c s where t: "int_text i = c # s" "c \<notin> {34, 91, 123}" using int_text_start [of i] by (cases "int_text i") auto
  then show ?thesis
    using json_number_int [OF assms(2), of i] json_constant_int [of i rest] by (simp add: n)
qed

text \<open>The scanner reads back what was rendered, given fuel for its length.\<close>

definition reads_back :: "json \<Rightarrow> bool" where
  "reads_back v \<longleftrightarrow> (\<forall>n rest. length (render v) \<le> n \<longrightarrow> ends_number rest \<longrightarrow>
     json_value n (render v @ rest) = Inr (v, rest))"

lemma ends_number_sep: "ends_number (44 # s)" "ends_number (93 # s)" "ends_number (125 # s)"
  by (simp_all add: ends_number_def is_dec_def)

lemma json_elems_back:
  assumes "vs \<noteq> []" "\<forall>v \<in> set vs. reads_back v" "length (join [44, 32] (map render vs)) < n"
  shows "json_elems n acc (join [44, 32] (map render vs) @ 93 # rest) = Inr (JList (acc @ vs), rest)"
  using assms
proof (induction vs arbitrary: n acc)
  case (Cons v vs)
  obtain m where n: "n = Suc m" using Cons.prems(3) by (cases n) auto
  show ?case
  proof (cases "vs = []")
    case True
    have "json_value m (render v @ 93 # rest) = Inr (v, 93 # rest)"
      using Cons.prems True by (auto simp: reads_back_def n ends_number_sep)
    then show ?thesis by (simp add: n True skip_ws_def is_ws_def)
  next
    case False
    let ?t = "join [44, 32] (map render vs)"
    have j: "join [44, 32] (render v # map render vs) = render v @ 44 # 32 # ?t" using False by (simp add: join_Cons)
    then have len: "length (render v) \<le> m" "length ?t < m" using Cons.prems(3) by (simp_all add: n)
    have v: "json_value m (render v @ 44 # 32 # ?t @ 93 # rest) = Inr (v, 44 # 32 # ?t @ 93 # rest)"
      using Cons.prems(2) len(1) by (auto simp: reads_back_def ends_number_sep)
    obtain u us where u: "vs = u # us" using False by (cases vs) auto
    have ws: "skip_ws (32 # ?t @ 93 # rest) = ?t @ 93 # rest"
    proof -
      have "?t \<noteq> [] \<and> value_start (hd ?t)"
        using render_start [of u] by (cases us) (auto simp: u join_Cons)
      then have "skip_ws (?t @ 93 # rest) = ?t @ 93 # rest" by (intro skip_ws_start) auto
      then show ?thesis by (simp add: skip_ws_def is_ws_def)
    qed
    have "json_elems m (acc @ [v]) (?t @ 93 # rest) = Inr (JList ((acc @ [v]) @ vs), rest)"
      using Cons.prems False len(2) by (intro Cons.IH) auto
    then show ?thesis using v ws by (simp add: n j) (simp add: skip_ws_def is_ws_def)
  qed
qed simp

definition member_text :: "pystr \<times> json \<Rightarrow> pystr" where
  "member_text p = 34 # fst p @ [34, 58, 32] @ render (snd p)"

lemma render_JObj: "render (JObj kvs) = 123 # join [44, 32] (map member_text kvs) @ [125]"
proof -
  have "(\<lambda>(k, v). 34 # k @ [34, 58, 32] @ render v) = member_text" by (auto simp: fun_eq_iff member_text_def)
  then show ?thesis by (simp only: render.simps)
qed

lemma json_member_back:
  assumes "plain_text k" "reads_back v" "length (member_text (k, v)) \<le> n" "ends_number r" "r \<noteq> []" "\<not> is_ws (hd r)"
  shows "json_members (Suc n) acc (member_text (k, v) @ r) =
    (if hd r = 125 then Inr (JObj (od_set k v acc), tl r)
     else if hd r = 44 then json_members n (od_set k v acc) (skip_ws (tl r)) else Inl ValueError)"
proof -
  obtain c r' where r: "r = c # r'" "skip_ws r = r" using assms(5,6) by (cases r) (simp_all add: skip_ws_def)
  have "json_value n (render v @ r) = Inr (v, r)"
    using assms(2-4) by (auto simp: reads_back_def member_text_def)
  moreover have "json_chars [] (k @ 34 # 58 # 32 # render v @ r) = Inr (k, 58 # 32 # render v @ r)"
    using json_chars_plain [OF assms(1), of "[]"] by simp
  moreover have "skip_ws (58 # s) = 58 # s" for s by (simp add: skip_ws_def is_ws_def)
  ultimately show ?thesis using r by (simp add: member_text_def skip_ws_render)
qed

lemma json_members_back:
  assumes "kvs \<noteq> []" "\<forall>p \<in> set kvs. plain_text (fst p) \<and> reads_back (snd p)"
    and "length (join [44, 32] (map member_text kvs)) < n" "distinct (map fst acc @ map fst kvs)"
  shows "json_members n acc (join [44, 32] (map member_text kvs) @ 125 # rest) = Inr (JObj (acc @ kvs), rest)"
  using assms
proof (induction kvs arbitrary: n acc)
  case (Cons p kvs)
  obtain k v where p: "p = (k, v)" by (cases p)
  obtain m where n: "n = Suc m" using Cons.prems(3) by (cases n) auto
  have "k \<notin> od_dom acc" using Cons.prems(4) by (auto simp: p)
  then have set: "od_set k v acc = acc @ [(k, v)]" by (rule od_set_fresh)
  have pk: "plain_text k" "reads_back v" using Cons.prems(2) by (auto simp: p)
  show ?case
  proof (cases "kvs = []")
    case True
    then show ?thesis using json_member_back [OF pk, of m "125 # rest" acc] Cons.prems(3)
      by (simp add: n p set ends_number_sep is_ws_def)
  next
    case False
    let ?t = "join [44, 32] (map member_text kvs)"
    have j: "join [44, 32] (member_text (k, v) # map member_text kvs) = member_text (k, v) @ 44 # 32 # ?t"
      using False by (simp add: join_Cons)
    then have len: "length (member_text (k, v)) \<le> m" "length ?t < m" using Cons.prems(3) by (simp_all add: n p)
    obtain u us where u: "kvs = u # us" using False by (cases kvs) auto
    have "?t \<noteq> [] \<and> value_start (hd ?t)"
      by (cases us) (auto simp: u join_Cons member_text_def value_start_def is_ws_def)
    then have "skip_ws (?t @ 125 # rest) = ?t @ 125 # rest" by (intro skip_ws_start) auto
    then have ws: "skip_ws (32 # ?t @ 125 # rest) = ?t @ 125 # rest" by (simp add: skip_ws_def is_ws_def)
    have "json_members m (acc @ [(k, v)]) (?t @ 125 # rest) = Inr (JObj ((acc @ [(k, v)]) @ kvs), rest)"
      by (rule Cons.IH [OF False _ len(2)]) (use Cons.prems(2,4) in \<open>auto simp: p\<close>)
    then show ?thesis using json_member_back [OF pk len(1), of "44 # 32 # ?t @ 125 # rest" acc] ws
      by (simp add: n j set ends_number_sep is_ws_def p del: json_members.simps)
  qed
qed simp

lemma json_value_constants:
  assumes "0 < n"
  shows "json_value n (lit ''null'' @ rest) = Inr (JNull, rest)"
    and "json_value n (lit ''true'' @ rest) = Inr (JBool True, rest)"
    and "json_value n (lit ''false'' @ rest) = Inr (JBool False, rest)"
  using assms by (cases n; simp add: lit_def json_constant_def starts_with_def)+

lemma render_list_back:
  assumes "\<And>v. v \<in> set vs \<Longrightarrow> reads_back v" "length (render (JList vs)) \<le> n"
  shows "json_value n (render (JList vs) @ rest) = Inr (JList vs, rest)"
proof (cases vs)
  case Nil
  then show ?thesis using assms(2) by (cases n) (simp_all add: skip_ws_def is_ws_def)
next
  case (Cons u us)
  let ?t = "join [44, 32] (map render vs)"
  obtain m where m: "n = Suc m" "length ?t < m" using assms(2) by (cases n) auto
  have "?t \<noteq> [] \<and> value_start (hd ?t)" using render_start [of u] by (cases us) (auto simp: Cons join_Cons)
  moreover from this have "skip_ws (?t @ 93 # rest) = ?t @ 93 # rest" by (intro skip_ws_start) auto
  moreover have "json_elems m [] (?t @ 93 # rest) = Inr (JList vs, rest)"
    using json_elems_back [of vs m "[]" rest] assms(1) m(2) Cons by auto
  ultimately show ?thesis using m(1) by (simp add: value_start_def)
qed

lemma render_object_back:
  assumes "\<forall>p \<in> set kvs. plain_text (fst p) \<and> reads_back (snd p)" "distinct (map fst kvs)" "length (render (JObj kvs)) \<le> n"
  shows "json_value n (render (JObj kvs) @ rest) = Inr (JObj kvs, rest)"
proof (cases kvs)
  case Nil
  then show ?thesis using assms(3) by (cases n) (simp_all add: skip_ws_def is_ws_def)
next
  case (Cons u us)
  let ?t = "join [44, 32] (map member_text kvs)"
  obtain m where m: "n = Suc m" "length ?t < m" using assms(3) unfolding render_JObj by (cases n) auto
  have "?t \<noteq> [] \<and> value_start (hd ?t)"
    by (cases us) (auto simp: Cons join_Cons member_text_def value_start_def is_ws_def)
  moreover from this have "skip_ws (?t @ 125 # rest) = ?t @ 125 # rest" by (intro skip_ws_start) auto
  moreover have "json_members m [] (?t @ 125 # rest) = Inr (JObj kvs, rest)"
    using json_members_back [OF _ assms(1) m(2), of "[]" rest] assms(2) Cons by simp
  ultimately show ?thesis using m(1) unfolding render_JObj by (simp add: value_start_def)
qed

lemma render_reads_back: "plain_json v \<Longrightarrow> reads_back v"
proof (induction v)
  case (JInt i)
  have "0 < length (int_text i)" using int_text_start [of i] by simp
  then show ?case unfolding reads_back_def render.simps by (intro allI impI json_value_int) (rule less_le_trans)
next
  case (JStr s)
  have "json_value n (34 # s @ 34 # rest) = Inr (JStr s, rest)" if "0 < n" for n rest
    using that JStr json_chars_plain [of s "[]" rest] by (cases n) simp_all
  then show ?case by (simp add: reads_back_def)
next
  case (JList vs)
  then show ?case unfolding reads_back_def by (intro allI impI render_list_back) (auto simp: reads_back_def)
next
  case (JObj kvs)
  have ok: "\<forall>p \<in> set kvs. plain_text (fst p) \<and> reads_back (snd p)"
  proof
    fix p assume p: "p \<in> set kvs"
    then have "plain_text (fst p)" "plain_json (snd p)" using JObj.prems by (auto simp: case_prod_beta)
    with JObj.IH [OF p, of "snd p"] show "plain_text (fst p) \<and> reads_back (snd p)" by (cases p) simp
  qed
  with JObj.prems show ?case unfolding reads_back_def [of "JObj kvs"] by (intro allI impI render_object_back) auto
next
  case JNull
  show ?case unfolding reads_back_def render.simps
    by (intro allI impI json_value_constants) (auto simp: lit_def)
next
  case (JBool b)
  have "0 < n" if "length (render (JBool b)) \<le> n" for n using that by (auto simp: lit_def split: if_splits)
  then show ?case unfolding reads_back_def by (cases b) (auto intro: json_value_constants)
qed auto

end
