(* ===== verification/Trace.thy ===== *)
theory Trace
  imports Json Metrics
begin

text \<open>The trace reader of \<^verbatim>\<open>python/bench/framework.py\<close>: one JSON object per line.\<close>

section \<open>Model\<close>

text \<open>\<^verbatim>\<open>obj[key]\<close> on a decoded value: only a dictionary has string keys.\<close>

definition json_item :: "json \<Rightarrow> pystr \<Rightarrow> json result" where
  "json_item obj key =
     (case obj of
        JObj d \<Rightarrow> (case map_of d key of None \<Rightarrow> Inl KeyError | Some v \<Rightarrow> Inr v)
      | _ \<Rightarrow> Inl TypeError)"

text \<open>What a \<^verbatim>\<open>for\<close> over a decoded value yields.\<close>

definition json_iter :: "json \<Rightarrow> json list result" where
  "json_iter v =
     (case v of
        JList vs \<Rightarrow> Inr vs
      | JStr s \<Rightarrow> Inr (map (\<lambda>c. JStr [c]) s)
      | JObj d \<Rightarrow> Inr (map (JStr \<circ> fst) d)
      | _ \<Rightarrow> Inl TypeError)"

fun map_result :: "('a \<Rightarrow> 'b result) \<Rightarrow> 'a list \<Rightarrow> 'b list result" where
  "map_result f [] = Inr []"
| "map_result f (x # xs) = bind_result (f x) (\<lambda>y. bind_result (map_result f xs) (\<lambda>ys. Inr (y # ys)))"

definition int_item :: "json \<Rightarrow> pystr \<Rightarrow> int result" where
  "int_item obj key = bind_result (json_item obj key) py_int"

definition parse_record :: "json \<Rightarrow> TraceRecord result" where
  "parse_record obj =
     bind_result (int_item obj (lit ''timestamp'')) (\<lambda>t.
     bind_result (int_item obj (lit ''input_length'')) (\<lambda>i.
     bind_result (int_item obj (lit ''output_length'')) (\<lambda>out.
     bind_result (json_item obj (lit ''hash_ids'')) (\<lambda>hv.
     bind_result (json_iter hv) (\<lambda>vs.
     bind_result (map_result py_int vs) (\<lambda>hs.
       Inr \<lparr>timestamp = t, input_length = i, output_length = out, hash_ids = hs\<rparr>))))))"

fun parse_trace_lines :: "pystr list \<Rightarrow> TraceRecord list result" where
  "parse_trace_lines [] = Inr []"
| "parse_trace_lines (line # lines) =
     (let stripped = strip line
      in if stripped = [] then parse_trace_lines lines
         else
           bind_result (json_loads stripped) (\<lambda>obj.
           bind_result (parse_record obj) (\<lambda>r.
           bind_result (parse_trace_lines lines) (\<lambda>rs. Inr (r # rs)))))"

section \<open>Rendering a trace\<close>

definition record_json :: "TraceRecord \<Rightarrow> json" where
  "record_json r =
     JObj [(lit ''timestamp'', JInt (timestamp r)), (lit ''input_length'', JInt (input_length r)),
           (lit ''output_length'', JInt (output_length r)), (lit ''hash_ids'', JList (map JInt (hash_ids r)))]"

definition trace_line :: "TraceRecord \<Rightarrow> pystr" where
  "trace_line r = render (record_json r)"

lemma plain_record: "plain_json (record_json r)"
  by (auto simp: record_json_def plain_text_def lit_def)

lemma parse_record_json: "parse_record (record_json r) = Inr r"
proof -
  have "map_result py_int (map JInt hs) = Inr hs" for hs by (induction hs) auto
  then show ?thesis by (simp add: parse_record_def record_json_def int_item_def json_item_def json_iter_def lit_def)
qed

lemma strip_trace_line: "strip (w1 @ trace_line r @ w2) = trace_line r"
  if "\<forall>x \<in> set (w1 @ w2). is_space x"
proof -
  obtain t where t: "trace_line r = 123 # t @ [125]" by (simp add: trace_line_def record_json_def render_JObj)
  have "\<not> is_space 123" "\<not> is_space 125" by (simp_all add: is_space_def)
  then show ?thesis using that by (simp add: t strip_def dropWhile_append)
qed

lemma loads_trace_line: "json_loads (trace_line r) = Inr (record_json r)"
proof -
  have "reads_back (record_json r)" by (rule render_reads_back [OF plain_record])
  then have v: "json_value (Suc (length (trace_line r))) (trace_line r @ []) = Inr (record_json r, [])"
    unfolding reads_back_def trace_line_def by (simp add: ends_number_def del: json_value.simps)
  moreover have "skip_ws (trace_line r) = trace_line r"
    using skip_ws_render(1) [of "record_json r" "[]"] by (simp add: trace_line_def)
  moreover have "hd (trace_line r) \<noteq> 65279" by (simp add: trace_line_def record_json_def)
  ultimately show ?thesis by (simp add: json_loads_def skip_ws_def del: json_value.simps)
qed

section \<open>Properties\<close>

text \<open>C20. Reading a trace gives back its records: for every list of records, written one JSON object per
  line with white space around it and blank lines in between, the parsed records are the same, in
  the same order.\<close>

theorem trace_roundtrip:
  assumes "\<forall>l \<in> set ls. \<forall>x \<in> set (fst l @ snd (snd l)). is_space x"
  shows "parse_trace_lines (map (\<lambda>(w1, r, w2). w1 @ (case r of None \<Rightarrow> [] | Some r \<Rightarrow> trace_line r) @ w2) ls)
    = Inr (concat (map (\<lambda>(w1, r, w2). case r of None \<Rightarrow> [] | Some r \<Rightarrow> [r]) ls))"
  using assms
proof (induction ls)
  case (Cons l ls)
  obtain w1 ro w2 where l: "l = (w1, ro, w2)" by (cases l)
  have sp: "\<forall>x \<in> set (w1 @ w2). is_space x" using Cons.prems by (simp add: l)
  have IH: "parse_trace_lines (map (\<lambda>(w1, r, w2). w1 @ (case r of None \<Rightarrow> [] | Some r \<Rightarrow> trace_line r) @ w2) ls)
    = Inr (concat (map (\<lambda>(w1, r, w2). case r of None \<Rightarrow> [] | Some r \<Rightarrow> [r]) ls))"
    using Cons by simp
  show ?case
  proof (cases ro)
    case None
    have "strip (w1 @ w2) = []" using sp strip_spaces [of "w1 @ w2" "[]"] by (simp add: strip_def)
    with None IH show ?thesis by (simp add: l)
  next
    case (Some r)
    have "trace_line r \<noteq> []" by (simp add: trace_line_def record_json_def)
    with Some IH strip_trace_line [OF sp, of r] show ?thesis
      by (simp add: l loads_trace_line parse_record_json)
  qed
qed simp

theorem trace_roundtrip_witness:
  "parse_trace_lines [[32] @ trace_line \<lparr>timestamp = 5, input_length = 1024, output_length = 7, hash_ids = [46, - 3]\<rparr> @ [10], [10]]
     = Inr [\<lparr>timestamp = 5, input_length = 1024, output_length = 7, hash_ids = [46, - 3]\<rparr>]"
  using trace_roundtrip [of "[([32], Some \<lparr>timestamp = 5, input_length = 1024, output_length = 7, hash_ids = [46, - 3]\<rparr>, [10]),
      ([10], None, [])]"]
  by (simp add: is_space_def)

end
