(* ===== verification/Provenance.thy ===== *)
theory Provenance
  imports Py_Text Ordered_Dict
begin

text \<open>
  The lock file reader \<^verbatim>\<open>python/bench/provenance.py\<close>: \<^verbatim>\<open>KEY=VALUE\<close> lines parsed by a regular
  expression into a dictionary, the required fields, and the format checks of the two fields a
  report quotes.
\<close>

section \<open>Model\<close>

definition is_hex :: "int \<Rightarrow> bool" where
  "is_hex c \<longleftrightarrow> 48 \<le> c \<and> c \<le> 57 \<or> 97 \<le> c \<and> c \<le> 102"

definition is_key_char :: "int \<Rightarrow> bool" where
  "is_key_char c \<longleftrightarrow> 65 \<le> c \<and> c \<le> 90 \<or> 97 \<le> c \<and> c \<le> 122 \<or> 48 \<le> c \<and> c \<le> 57 \<or> c = 95"

definition spaces :: rx where "spaces = Cls is_space 0 None True"
definition digits :: rx where "digits = Cls is_digit 1 None True"
definition one_char :: "int \<Rightarrow> rx" where "one_char c = Cls (\<lambda>x. x = c) 1 (Some 1) True"

primrec word_rx :: "pystr \<Rightarrow> rx" where
  "word_rx [] = Cls (\<lambda>x. False) 0 None True"
| "word_rx (c # cs) = Seq (one_char c) (word_rx cs)"

definition FULL_COMMIT_HASH_RE :: rx where
  "FULL_COMMIT_HASH_RE = Seq Bol (Seq (Cls is_hex 40 (Some 40) True) Eol)"

definition VERSION_RE :: rx where
  "VERSION_RE =
     Seq Bol (Seq digits (Seq (one_char 46) (Seq digits (Seq (one_char 46) (Seq digits
       (Seq (Opt (Grp 1 (Seq (word_rx (lit ''.post'')) digits))) Eol))))))"

definition KV_LINE_RE :: rx where
  "KV_LINE_RE =
     Seq Bol (Seq spaces (Seq (Grp 1 (Cls is_key_char 1 None True)) (Seq spaces (Seq (one_char 61)
       (Seq spaces (Seq (Grp 2 (Cls (\<lambda>c. c \<noteq> 10) 1 None False)) (Seq spaces Eol)))))))"

definition REQUIRED_KEYS :: "pystr list" where
  "REQUIRED_KEYS = [lit ''mooncake_commit'', lit ''mooncake_version'']"

record MooncakeLock =
  commit :: pystr
  version :: pystr
  tag :: "pystr option"
  repo :: "pystr option"
  license :: "pystr option"
  raw :: "(pystr, pystr) odict"

definition has_commit_hash :: "MooncakeLock \<Rightarrow> bool" where
  "has_commit_hash l \<longleftrightarrow> rx_match FULL_COMMIT_HASH_RE (commit l) \<noteq> None"

definition has_version :: "MooncakeLock \<Rightarrow> bool" where
  "has_version l \<longleftrightarrow> rx_match VERSION_RE (version l) \<noteq> None"

definition parse_lock_line :: "(pystr, pystr) odict \<Rightarrow> pystr \<Rightarrow> (pystr, pystr) odict" where
  "parse_lock_line result line =
     (let stripped = strip line
      in if stripped = [] \<or> hd stripped = 35 then result
         else
           (case rx_match KV_LINE_RE line of
              None \<Rightarrow> result
            | Some gs \<Rightarrow> od_set (the (map_of gs 1)) (the (map_of gs 2)) result))"

definition parse_lock_text :: "pystr \<Rightarrow> (pystr, pystr) odict" where
  "parse_lock_text text = foldl parse_lock_line [] (splitlines text)"

text \<open>\<^verbatim>\<open>not fields.get(key)\<close>: absent, or the empty string.\<close>

definition field_missing :: "(pystr, pystr) odict \<Rightarrow> pystr \<Rightarrow> bool" where
  "field_missing flds key \<longleftrightarrow> map_of flds key \<in> {None, Some []}"

text \<open>The argument is the decoded text of the lock file, \<open>None\<close> when there is no such file.\<close>

definition read_mooncake_lock :: "pystr option \<Rightarrow> MooncakeLock result" where
  "read_mooncake_lock file =
     (case file of
        None \<Rightarrow> Inl FileNotFoundError
      | Some text \<Rightarrow>
          (let flds = parse_lock_text text;
               missing = filter (field_missing flds) REQUIRED_KEYS
           in if missing \<noteq> [] then Inl ValueError
              else Inr \<lparr>commit = the (map_of flds (lit ''mooncake_commit'')),
                        version = the (map_of flds (lit ''mooncake_version'')),
                        tag = map_of flds (lit ''mooncake_tag''),
                        repo = map_of flds (lit ''mooncake_repo''),
                        license = map_of flds (lit ''mooncake_license''),
                        raw = flds\<rparr>))"

section \<open>The line pattern\<close>

lemma spaces_greedy:
  assumes "\<forall>x \<in> set ws. is_space x" "\<not> is_space y"
  shows "\<exists>more. rx_run spaces (pos, ws @ y # ys, gs) = (pos + length ws, y # ys, gs) # more"
  unfolding spaces_def by (rule rx_run_greedy [OF assms]) simp

lemma spaces_end:
  assumes "\<forall>x \<in> set ws. is_space x"
  shows "\<exists>more. rx_run (Seq spaces Eol) (pos, ws, gs) = (pos + length ws, [], gs) # more"
proof -
  have t: "takeWhile is_space ws = ws" using assms by simp
  show ?thesis by (simp add: spaces_def Let_def t)
qed

text \<open>Before the end of the value the rest of the line has a character that no \<^verbatim>\<open>\s*$\<close> matches.\<close>

lemma spaces_no_end:
  assumes "c \<in> set w" "\<not> is_space c"
  shows "rx_run (Seq spaces Eol) (pos, w, gs) = []"
proof -
  have "rx_run Eol (pos + k, drop k w, gs) = []" if "k \<le> length (takeWhile is_space w)" for k
  proof -
    have "c \<in> set (drop (length (takeWhile is_space w)) w)"
      using in_set_dropWhile [OF assms(1), of is_space] assms(2) by (simp add: dropWhile_eq_drop)
    then have "c \<in> set (drop k w)" using set_drop_subset_set_drop [OF that, of w] by blast
    moreover have "is_space 10" by (simp add: is_space_def)
    ultimately show ?thesis using assms(2) by (auto simp del: drop_eq_Nil)
  qed
  then show ?thesis by (auto simp: spaces_def Let_def simp del: upt_Suc)
qed

lemma value_lazy:
  assumes "v \<noteq> []" "10 \<notin> set v" "\<not> is_space (last v)" "\<forall>x \<in> set ws. is_space x"
  shows "\<exists>more. rx_run (Seq (Grp 2 (Cls (\<lambda>c. c \<noteq> 10) 1 None False)) (Seq spaces Eol)) (pos, v @ ws, gs)
    = (pos + length v + length ws, [], AList.update 2 v gs) # more"
proof -
  let ?m = "length (takeWhile (\<lambda>c. c \<noteq> 10) (v @ ws))"
  let ?f = "\<lambda>k. rx_run (Seq spaces Eol) (pos + k, drop k (v @ ws), AList.update 2 (take k (v @ ws)) gs)"
  have "length v \<le> ?m" using assms(2) by (simp add: takeWhile_append)
  then have ks: "[1..<Suc ?m] = [1..<length v] @ length v # [Suc (length v)..<Suc ?m]"
    using assms(1) upt_add_eq_append [of 1 "length v" "Suc ?m - length v"] upt_conv_Cons [of "length v" "Suc ?m"]
    by (simp add: Suc_leI del: upt_Suc)
  have "last v \<in> set (drop k (v @ ws))" if "k < length v" for k
    using that last_in_set [of "drop k v"] by simp
  then have "?f k = []" if "k \<in> set [1..<length v]" for k
    using that assms(3) by (intro spaces_no_end [of "last v"]) auto
  moreover obtain more where "?f (length v) = (pos + length v + length ws, [], AList.update 2 v gs) # more"
    using spaces_end [OF assms(4), of "pos + length v" "AList.update 2 v gs"] by auto
  ultimately have "concat (map ?f [1..<Suc ?m]) = (pos + length v + length ws, [], AList.update 2 v gs)
      # more @ concat (map ?f [Suc (length v)..<Suc ?m])"
    unfolding ks by (subst concat_map_skip) simp_all
  then show ?thesis unfolding rx_run_lazy_group by blast
qed

text \<open>White space around the key and around the value is dropped, and nothing else.\<close>

lemma kv_line_match:
  assumes "k \<noteq> []" "\<forall>c \<in> set k. is_key_char c"
    and "v \<noteq> []" "10 \<notin> set v" "\<not> is_space (hd v)" "\<not> is_space (last v)"
    and "\<forall>x \<in> set (w1 @ w2 @ w3 @ w4). is_space x"
  shows "rx_match KV_LINE_RE (w1 @ k @ w2 @ 61 # w3 @ v @ w4) = Some [(1, k), (2, v)]"
proof -
  have eq_char: "\<not> is_space 61" "\<not> is_key_char 61" by (simp_all add: is_space_def is_key_char_def)
  have key_space: "is_key_char c \<Longrightarrow> \<not> is_space c" for c by (auto simp: is_space_def is_key_char_def)
  obtain k0 ks where k: "k = k0 # ks" using assms(1) by (cases k) auto
  obtain v0 vs where v: "v = v0 # vs" using assms(3) by (cases v) auto
  obtain y ys where y: "w2 @ 61 # w3 @ v @ w4 = y # ys" "\<not> is_key_char y"
    using assms(7) eq_char key_space by (cases w2) auto
  let ?A = "(length w1, k @ w2 @ 61 # w3 @ v @ w4, []) :: rstate"
  let ?B = "(length w1 + length k, w2 @ 61 # w3 @ v @ w4, [(1, k)]) :: rstate"
  let ?C = "(length w1 + length k + length w2, 61 # w3 @ v @ w4, [(1, k)]) :: rstate"
  let ?D = "(length w1 + length k + length w2 + 1, w3 @ v @ w4, [(1, k)]) :: rstate"
  let ?E = "(length w1 + length k + length w2 + 1 + length w3, v @ w4, [(1, k)]) :: rstate"
  let ?rest = "Seq (Grp 2 (Cls (\<lambda>c. c \<noteq> 10) 1 None False)) (Seq spaces Eol)"
  obtain p' m6 where E: "rx_run ?rest ?E = (p', [], [(1, k), (2, v)]) # m6"
    using value_lazy [of v w4 "fst ?E" "[(1, k)]"] assms by auto
  obtain m5 where "rx_run spaces ?D = ?E # m5"
    using spaces_greedy [of w3 v0 "fst ?D" "vs @ w4" "[(1, k)]"] assms by (auto simp: v)
  from rx_run_Seq_hd [OF this E] obtain m5' where D: "rx_run (Seq spaces ?rest) ?D = (p', [], [(1, k), (2, v)]) # m5'" ..
  have "rx_run (one_char 61) ?C = [?D]" by (simp add: one_char_def Let_def)
  from rx_run_Seq_hd [OF this D] obtain m4 where C: "rx_run (Seq (one_char 61) (Seq spaces ?rest)) ?C = (p', [], [(1, k), (2, v)]) # m4" ..
  obtain m3 where "rx_run spaces ?B = ?C # m3"
    using spaces_greedy [of w2 61 "fst ?B" "w3 @ v @ w4" "[(1, k)]"] assms(7) eq_char by auto
  from rx_run_Seq_hd [OF this C] obtain m3' where
    B: "rx_run (Seq spaces (Seq (one_char 61) (Seq spaces ?rest))) ?B = (p', [], [(1, k), (2, v)]) # m3'" ..
  obtain m2 where g: "rx_run (Grp 1 (Cls is_key_char 1 None True)) ?A = ?B # m2"
    using rx_run_greedy [of k is_key_char y 1 "length w1" ys "[]"] assms(1,2) y by (auto simp: Suc_leI)
  from rx_run_Seq_hd [OF g B] obtain m2' where
    A: "rx_run (Seq (Grp 1 (Cls is_key_char 1 None True)) (Seq spaces (Seq (one_char 61) (Seq spaces ?rest)))) ?A
      = (p', [], [(1, k), (2, v)]) # m2'" ..
  obtain m1 where "rx_run spaces (0, w1 @ k @ w2 @ 61 # w3 @ v @ w4, []) = ?A # m1"
    using spaces_greedy [of w1 k0 0 "ks @ w2 @ 61 # w3 @ v @ w4" "[]"] assms(2,7) key_space by (auto simp: k)
  from rx_run_Seq_hd [OF this A] show ?thesis
    by (auto simp: rx_match_def KV_LINE_RE_def simp del: rx_run.simps(1,2)) auto
qed

section \<open>Lock files\<close>

text \<open>
  The lines a lock file may have: blank, comment, or a field with white space before the key,
  around the equals sign and after the value.
\<close>

datatype lock_line =
    Blank pystr
  | Comment pystr pystr
  | Field pystr pystr pystr pystr pystr pystr

fun render_line :: "lock_line \<Rightarrow> pystr" where
  "render_line (Blank w) = w"
| "render_line (Comment w t) = w @ 35 # t"
| "render_line (Field w1 k w2 w3 v w4) = w1 @ k @ w2 @ 61 # w3 @ v @ w4"

fun line_ok :: "lock_line \<Rightarrow> bool" where
  "line_ok (Blank w) = list_all is_space w"
| "line_ok (Comment w t) = list_all is_space w"
| "line_ok (Field w1 k w2 w3 v w4) =
     (list_all is_space (w1 @ w2 @ w3 @ w4) \<and> k \<noteq> [] \<and> list_all is_key_char k
      \<and> v \<noteq> [] \<and> \<not> is_space (hd v) \<and> \<not> is_space (last v))"

definition fields_of :: "lock_line list \<Rightarrow> (pystr \<times> pystr) list" where
  "fields_of ls = concat (map (\<lambda>l. case l of Field _ k _ _ v _ \<Rightarrow> [(k, v)] | _ \<Rightarrow> []) ls)"

definition render_lock :: "lock_line list \<Rightarrow> pystr" where
  "render_lock ls = concat (map (\<lambda>l. l @ [10]) (map render_line ls))"

lemma parse_render_line:
  assumes "line_ok l" "\<forall>c \<in> set (render_line l). \<not> is_linebreak c"
  shows "parse_lock_line d (render_line l) = foldl (\<lambda>d (k, v). od_set k v d) d (fields_of [l])"
proof (cases l)
  case (Blank w)
  then have "strip w = []" using assms(1) strip_spaces [of w "[]"] by (simp add: list_all_iff strip_def)
  then show ?thesis by (simp add: Blank parse_lock_line_def fields_of_def)
next
  case (Comment w t)
  then have "strip (render_line l) = strip (35 # t)" using assms(1) strip_spaces [of w] by (simp add: list_all_iff)
  moreover have "\<not> is_space 35" by (simp add: is_space_def)
  ultimately show ?thesis using strip_head [of 35 t] by (simp add: Comment parse_lock_line_def fields_of_def)
next
  case (Field w1 k w2 w3 v w4)
  have ok: "k \<noteq> []" "\<forall>c \<in> set k. is_key_char c" "v \<noteq> []" "\<not> is_space (hd v)" "\<not> is_space (last v)"
    "\<forall>x \<in> set (w1 @ w2 @ w3 @ w4). is_space x"
    using assms(1) by (auto simp: Field list_all_iff)
  have "\<not> is_linebreak c" if "c \<in> set v" for c using assms(2) that by (simp add: Field)
  moreover have "is_linebreak 10" by (simp add: is_linebreak_def)
  ultimately have "10 \<notin> set v" by blast
  from kv_line_match [OF ok(1-3) this ok(4-6)]
  have m: "rx_match KV_LINE_RE (render_line l) = Some [(1, k), (2, v)]" by (simp add: Field)
  obtain k0 ks where k: "k = k0 # ks" using ok(1) by (cases k) auto
  have k0: "\<not> is_space k0" "k0 \<noteq> 35" using ok(2) by (auto simp: k is_key_char_def is_space_def)
  have "strip (render_line l) = strip (k0 # ks @ w2 @ 61 # w3 @ v @ w4)"
    using strip_spaces [of w1] ok(6) by (simp add: Field k)
  with strip_head [OF k0(1)] k0(2) m show ?thesis
    by (simp add: parse_lock_line_def fields_of_def) (simp add: Field)
qed

lemma fields_of_Cons: "fields_of (l # ls) = fields_of [l] @ fields_of ls"
  by (simp add: fields_of_def)

lemma parse_render_lines:
  assumes "\<forall>l \<in> set ls. line_ok l \<and> (\<forall>c \<in> set (render_line l). \<not> is_linebreak c)"
  shows "foldl parse_lock_line d (map render_line ls) = foldl (\<lambda>d (k, v). od_set k v d) d (fields_of ls)"
  using assms
proof (induction ls arbitrary: d)
  case (Cons l ls)
  then show ?case using parse_render_line [of l d] by (simp add: fields_of_Cons [of l ls])
qed (simp add: fields_of_def)

text \<open>What any parsed dictionary satisfies: its values come from single lines.\<close>

lemma rx_run_Cls_groups: "s' \<in> set (rx_run (Cls p lo hi g) s) \<Longrightarrow> snd (snd s') = snd (snd s)"
  by (auto simp: Let_def split: prod.splits if_splits)

lemma rx_run_Grp_groups:
  "s' \<in> set (rx_run (Grp n (Cls p lo hi g)) s) \<Longrightarrow> \<exists>v. snd (snd s') = AList.update n v (snd (snd s))"
  by (auto simp: Let_def split: prod.splits if_splits)

lemma rx_run_SeqE:
  assumes "s' \<in> set (rx_run (Seq a b) s)"
  obtains s1 where "s1 \<in> set (rx_run a s)" "s' \<in> set (rx_run b s1)"
  using assms by auto

lemma kv_groups:
  assumes "rx_match KV_LINE_RE line = Some gs"
  obtains k v where "gs = [(1, k), (2, v)]"
proof -
  obtain pos rest more where "rx_run KV_LINE_RE (0, line, []) = (pos, rest, gs) # more"
    using assms by (auto simp: rx_match_def split: list.splits)
  then have "(pos, rest, gs) \<in> set (rx_run KV_LINE_RE (0, line, []))" by simp
  then show ?thesis
    unfolding KV_LINE_RE_def spaces_def one_char_def
    by (elim rx_run_SeqE) (auto simp: that simp del: rx_run.simps(1,2,4) split: if_splits
        dest!: rx_run_Cls_groups rx_run_Grp_groups)
qed

lemma parse_lock_line_values:
  assumes "\<forall>p \<in> set d. \<forall>c \<in> set (snd p). \<not> is_linebreak c" "\<forall>c \<in> set line. \<not> is_linebreak c"
  shows "\<forall>p \<in> set (parse_lock_line d line). \<forall>c \<in> set (snd p). \<not> is_linebreak c"
proof (cases "rx_match KV_LINE_RE line")
  case (Some gs)
  obtain k v where gs: "gs = [(1, k), (2, v)]" by (rule kv_groups [OF Some])
  have "set v \<subseteq> set line" using rx_match_groups [OF Some, of 2 v] by (simp add: gs)
  then show ?thesis
    using assms Some by (auto simp: parse_lock_line_def Let_def gs od_set_def dest!: update_triv_sub)
qed (use assms in \<open>simp add: parse_lock_line_def Let_def\<close>)

lemma parse_lock_values:
  assumes "map_of (parse_lock_text text) key = Some v" "c \<in> set v"
  shows "\<not> is_linebreak c"
proof -
  have "\<forall>p \<in> set (parse_lock_text text). \<forall>c \<in> set (snd p). \<not> is_linebreak c"
    unfolding parse_lock_text_def splitlines_def
  proof (rule foldl_invariant)
    fix d :: "(pystr, pystr) odict" and line assume d: "\<forall>p \<in> set d. \<forall>c \<in> set (snd p). \<not> is_linebreak c"
      and "line \<in> set (splitlines_from [] text)"
    then have "\<forall>c \<in> set line. \<not> is_linebreak c" using splitlines_from_no_break [of "[]"] by auto
    with d show "\<forall>p \<in> set (parse_lock_line d line). \<forall>c \<in> set (snd p). \<not> is_linebreak c"
      by (rule parse_lock_line_values)
  qed simp
  then show ?thesis using map_of_SomeD [OF assms(1)] assms(2) by fastforce
qed

section \<open>The format checks\<close>

lemma commit_hash_match:
  "rx_match FULL_COMMIT_HASH_RE c \<noteq> None \<longleftrightarrow>
     (\<exists>h. length h = 40 \<and> list_all is_hex h \<and> c \<in> {h, h @ [10]})"
proof -
  let ?m = "length (takeWhile is_hex c)"
  have "rx_match FULL_COMMIT_HASH_RE c \<noteq> None \<longleftrightarrow> 40 \<le> ?m \<and> drop 40 c \<in> {[], [10]}"
    by (auto simp: rx_match_def FULL_COMMIT_HASH_RE_def Let_def min_def split: list.splits if_splits)
  also have "\<dots> \<longleftrightarrow> (\<exists>h. length h = 40 \<and> list_all is_hex h \<and> c \<in> {h, h @ [10]})"
  proof
    assume m: "40 \<le> ?m \<and> drop 40 c \<in> {[], [10]}"
    then have "list_all is_hex (take 40 c)"
      by (metis list_all_iff set_takeWhileD take_append takeWhile_dropWhile_id in_set_takeD diff_is_0_eq take0 append_Nil2)
    moreover have "length (take 40 c) = 40" using m length_takeWhile_le [of is_hex c] by simp
    moreover have "c \<in> {take 40 c, take 40 c @ [10]}" using m append_take_drop_id [of 40 c] by (metis append_Nil2 insertE insertI1 insertI2 empty_iff)
    ultimately show "\<exists>h. length h = 40 \<and> list_all is_hex h \<and> c \<in> {h, h @ [10]}" by blast
  next
    assume "\<exists>h. length h = 40 \<and> list_all is_hex h \<and> c \<in> {h, h @ [10]}"
    then obtain h where h: "length h = 40" "list_all is_hex h" "c \<in> {h, h @ [10]}" by blast
    then have "length (takeWhile is_hex h) = 40" by (metis list_all_iff takeWhile_eq_all_conv)
    with h show "40 \<le> ?m \<and> drop 40 c \<in> {[], [10]}" by (auto simp: list_all_iff takeWhile_append)
  qed
  finally show ?thesis .
qed

section \<open>Properties\<close>

text \<open>C21. Parsing a lock file returns its fields: for any sequence of blank lines, comments and
  \<^verbatim>\<open>KEY=VALUE\<close> lines, with any white space around keys and values, the dictionary has exactly the
  keys and values of the fields, in order, a later line overwriting an earlier one of the same key.\<close>

theorem lock_parse_render:
  assumes "\<forall>l \<in> set ls. line_ok l \<and> (\<forall>c \<in> set (render_line l). \<not> is_linebreak c)"
  shows "parse_lock_text (render_lock ls) = foldl (\<lambda>d (k, v). od_set k v d) [] (fields_of ls)"
proof -
  have "splitlines (render_lock ls) = map render_line ls"
    unfolding render_lock_def by (rule splitlines_concat) (use assms in auto)
  with parse_render_lines [OF assms] show ?thesis by (simp add: parse_lock_text_def)
qed

theorem lock_parse_render_witness:
  "parse_lock_text (lit '' # pinned'' @ [10] @ lit '' mooncake_tag = v0.3 '' @ [10, 10])
     = [(lit ''mooncake_tag'', lit ''v0.3'')]"
proof -
  let ?ls = "[Comment [32] (lit '' pinned''),
    Field [32] (lit ''mooncake_tag'') [32] [32] (lit ''v0.3'') [32], Blank []]"
  have "\<forall>l \<in> set ?ls. line_ok l \<and> (\<forall>c \<in> set (render_line l). \<not> is_linebreak c)" by code_simp
  from lock_parse_render [OF this] show ?thesis
    by (simp add: render_lock_def fields_of_def od_set_def lit_def)
qed

text \<open>C37. Reading the lock file raises \<^verbatim>\<open>FileNotFoundError\<close> when there is none and \<^verbatim>\<open>ValueError\<close> exactly
  when the commit or the version is missing; otherwise the result quotes the parsed fields, and
  neither the commit nor the version contains a line break.\<close>

theorem lock_read_outcome:
  "read_mooncake_lock None = Inl FileNotFoundError
   \<and> (case read_mooncake_lock (Some text) of
        Inl e \<Rightarrow> e = ValueError \<and> (\<exists>k \<in> set REQUIRED_KEYS. field_missing (parse_lock_text text) k)
      | Inr l \<Rightarrow> raw l = parse_lock_text text
          \<and> map_of (raw l) (lit ''mooncake_commit'') = Some (commit l)
          \<and> map_of (raw l) (lit ''mooncake_version'') = Some (version l)
          \<and> commit l \<noteq> [] \<and> version l \<noteq> []
          \<and> \<not> (\<exists>c \<in> set (commit l @ version l). is_linebreak c))"
proof -
  have f: "field_missing (parse_lock_text text) k \<or>
      (\<exists>v. map_of (parse_lock_text text) k = Some v \<and> v \<noteq> [] \<and> \<not> (\<exists>c \<in> set v. is_linebreak c))" for k
    using parse_lock_values [of "text" k] by (cases "map_of (parse_lock_text text) k") (auto simp: field_missing_def)
  show ?thesis using f [of "lit ''mooncake_commit''"] f [of "lit ''mooncake_version''"]
    by (auto simp: read_mooncake_lock_def Let_def REQUIRED_KEYS_def field_missing_def)
qed

text \<open>The commit check accepts exactly 40 lower-case hexadecimal digits, with one trailing line feed
  allowed; a commit that came out of a lock file has none.\<close>

lemma commit_hash_check:
  "has_commit_hash l \<longleftrightarrow> (\<exists>h. length h = 40 \<and> list_all is_hex h \<and> commit l \<in> {h, h @ [10]})"
  unfolding has_commit_hash_def by (rule commit_hash_match)

text \<open>The required-field check can be passed by white space: a line \<^verbatim>\<open>mooncake_commit=\<close> followed by a
  space yields the one-space commit, which is not empty, although the pattern drops white space
  around any other value.\<close>

lemma blank_commit_accepted:
  "read_mooncake_lock (Some (lit ''mooncake_commit= '' @ [10] @ lit ''mooncake_version=0.3.6''))
     = Inr \<lparr>commit = [32], version = lit ''0.3.6'', tag = None, repo = None, license = None,
            raw = [(lit ''mooncake_commit'', [32]), (lit ''mooncake_version'', lit ''0.3.6'')]\<rparr>
   \<and> \<not> has_commit_hash \<lparr>commit = [32], version = lit ''0.3.6'', tag = None, repo = None, license = None,
            raw = [(lit ''mooncake_commit'', [32]), (lit ''mooncake_version'', lit ''0.3.6'')]\<rparr>"
  by code_simp

end
