(* ===== verification/Report.thy ===== *)
theory Report
  imports Framework Trace Provenance
    "HOL-Library.Char_ord" "HOL-Library.List_Lexorder" "HOL-Library.Product_Lexorder"
begin

text \<open>
  The benchmark run of \<^verbatim>\<open>python/bench/framework.py\<close> from a configuration to a report, and the policy
  comparison of \<^verbatim>\<open>python/bench/shootout.py\<close>. The outside world is an argument: the lines of a trace
  file by its path, the text of the lock file, the version strings of the platform.
\<close>

section \<open>Model\<close>

record HardwareProfile =
  hw_rdma :: bool
  hw_gpu_direct :: bool
  hw_nvme :: bool

record RunConfig =
  cfg_target :: string
  cfg_trace_path :: string
  cfg_hardware :: HardwareProfile
  cfg_seed :: int
  cfg_mooncake_commit :: pystr
  cfg_policy :: string
  cfg_prefetch :: bool

record RunReport =
  rp_config :: RunConfig
  rp_software_versions :: "(string \<times> string) list"
  rp_mooncake_commit :: pystr
  rp_throughput_tok_s :: pyfloat
  rp_ttft_ms :: Percentiles
  rp_e2e_latency_ms :: Percentiles
  rp_cache_hit_rate :: pyfloat
  rp_reuse_rate :: pyfloat
  rp_skipped :: "string list"

record world =
  open_lines :: "string \<Rightarrow> pystr list result"
  lock_text :: "pystr option"
  python_version :: string
  platform_name :: string

definition software_versions :: "world \<Rightarrow> (string \<times> string) list" where
  "software_versions w =
     [(''python'', python_version w), (''platform'', platform_name w), (''bench_framework'', ''0.1.0'')]"

definition parse_trace :: "world \<Rightarrow> string \<Rightarrow> TraceRecord list result" where
  "parse_trace w path = bind_result (open_lines w path) parse_trace_lines"

definition REQUIRED_CAPABILITIES :: "(string \<times> string) list" where
  "REQUIRED_CAPABILITIES =
     [(''rdma_transfer_bench'', ''rdma''), (''gpu_direct_bench'', ''gpu_direct''), (''nvme_tier_bench'', ''nvme'')]"

text \<open>\<^verbatim>\<open>getattr(cfg.hardware, capability)\<close>.\<close>

definition hardware_attr :: "HardwareProfile \<Rightarrow> string \<Rightarrow> bool result" where
  "hardware_attr hw capability =
     (if capability = ''rdma'' then Inr (hw_rdma hw)
      else if capability = ''gpu_direct'' then Inr (hw_gpu_direct hw)
      else if capability = ''nvme'' then Inr (hw_nvme hw)
      else Inl AttributeError)"

fun skip_benches :: "HardwareProfile \<Rightarrow> (string \<times> string) list \<Rightarrow> string list result" where
  "skip_benches hw [] = Inr []"
| "skip_benches hw ((name, capability) # rest) =
     bind_result (hardware_attr hw capability) (\<lambda>present.
     bind_result (skip_benches hw rest) (\<lambda>names. Inr (if present then names else name # names)))"

definition percentiles_or_empty :: "pyfloat list \<Rightarrow> Percentiles result" where
  "percentiles_or_empty samples =
     (if samples \<noteq> [] then percentiles samples else Inr \<lparr>p50 = 0, p90 = 0, p99 = 0\<rparr>)"

definition run_simulation :: "RunConfig \<Rightarrow> ReplayStep list \<Rightarrow> simulation result" where
  "run_simulation cfg plan =
     (let project = (cfg_target cfg = ''project'');
          pool = (if project then PROJECT_POOL_BLOCKS else BASELINE_POOL_BLOCKS);
          policy_name = (if cfg_policy cfg \<noteq> [] then cfg_policy cfg
                         else if project then PROJECT_POLICY else BASELINE_POLICY)
      in if project
         then simulate_tiered_replay plan pool (pool * PROJECT_SLOW_FACTOR) policy_name (cfg_prefetch cfg)
         else simulate_replay plan pool policy_name)"

definition bench_replay :: "world \<Rightarrow> RunConfig \<Rightarrow> RunReport result" where
  "bench_replay w cfg =
     bind_result (parse_trace w (cfg_trace_path cfg)) (\<lambda>records.
     bind_result (run_simulation cfg (build_replay_plan records)) (\<lambda>(access_log, ttft, e2e, throughput).
     (let (hit_rate, reuse_rate) = rates access_log
      in bind_result (skip_benches (cfg_hardware cfg) (sort_key fst REQUIRED_CAPABILITIES)) (\<lambda>skipped.
         bind_result (if cfg_mooncake_commit cfg \<noteq> [] then Inr (cfg_mooncake_commit cfg)
                      else map_sum id commit (read_mooncake_lock (lock_text w))) (\<lambda>cm.
         bind_result (percentiles_or_empty ttft) (\<lambda>pt.
         bind_result (percentiles_or_empty e2e) (\<lambda>pe.
           Inr \<lparr>rp_config = cfg, rp_software_versions = software_versions w, rp_mooncake_commit = cm,
                rp_throughput_tok_s = throughput, rp_ttft_ms = pt, rp_e2e_latency_ms = pe,
                rp_cache_hit_rate = hit_rate, rp_reuse_rate = reuse_rate, rp_skipped = skipped\<rparr>)))))))"

text \<open>The command line: the exit code and the reports it prints.\<close>

definition default_config :: "string \<Rightarrow> string \<Rightarrow> RunConfig" where
  "default_config target path =
     \<lparr>cfg_target = target, cfg_trace_path = path,
      cfg_hardware = \<lparr>hw_rdma = False, hw_gpu_direct = False, hw_nvme = False\<rparr>, cfg_seed = 0,
      cfg_mooncake_commit = [], cfg_policy = [], cfg_prefetch = True\<rparr>"

definition framework_main :: "world \<Rightarrow> string list \<Rightarrow> (int \<times> RunReport list) result" where
  "framework_main w args =
     (if length args \<noteq> 1 then Inr (2, [])
      else
        bind_result (bench_replay w (default_config ''baseline'' (hd args))) (\<lambda>b.
        bind_result (bench_replay w (default_config ''project'' (hd args))) (\<lambda>p. Inr (0, [b, p]))))"

section \<open>Policy comparison\<close>

text \<open>The quantiles of \<^verbatim>\<open>shootout\<close>: positions \<^verbatim>\<open>len // 2\<close> and \<^verbatim>\<open>min(len - 1, int(len * 0.99))\<close>.\<close>

definition shootout_p99_index :: "nat \<Rightarrow> int" where
  "shootout_p99_index n = min (int n - 1) \<lfloor>fmul (int_to_float (int n)) (fl (99 / 100))\<rfloor>"

type_synonym shootout_row = "pyfloat \<times> string \<times> pyfloat \<times> pyfloat \<times> pyfloat \<times> pyfloat"

definition shootout_entry :: "ReplayStep list \<Rightarrow> int \<Rightarrow> string \<Rightarrow> shootout_row result" where
  "shootout_entry plan pool name =
     bind_result (simulate_replay plan pool name) (\<lambda>(access_log, ttft, e2e, throughput).
     (let (hit_rate, reuse) = rates access_log;
          ordered = sort ttft
      in if ordered = [] then Inl IndexError
         else Inr (hit_rate, name, ordered ! (length ordered div 2),
                   ordered ! nat (shootout_p99_index (length ordered)), reuse, throughput)))"

definition shootout :: "ReplayStep list \<Rightarrow> int \<Rightarrow> shootout_row list result" where
  "shootout plan pool =
     bind_result (map_result (shootout_entry plan pool) (sort (map fst POLICIES))) (\<lambda>rows.
       Inr (rev (sort rows)))"

text \<open>The command line: a pool size of 4096 blocks unless the second argument gives one.\<close>

definition shootout_main :: "world \<Rightarrow> string list \<Rightarrow> (int \<times> shootout_row list) result" where
  "shootout_main w args =
     (case args of
        [] \<Rightarrow> Inr (2, [])
      | path # rest \<Rightarrow>
          bind_result (case rest of [] \<Rightarrow> Inr 4096 | pool_arg # _ \<Rightarrow> int_of_str (lit pool_arg)) (\<lambda>pool.
          bind_result (parse_trace w path) (\<lambda>records.
          bind_result (shootout (build_replay_plan records) pool) (\<lambda>rows. Inr (0, rows)))))"

section \<open>The parts of a report\<close>

lemma sorted_capabilities:
  "sort_key fst REQUIRED_CAPABILITIES =
     [(''gpu_direct_bench'', ''gpu_direct''), (''nvme_tier_bench'', ''nvme''), (''rdma_transfer_bench'', ''rdma'')]"
  by code_simp

lemma sorted_policy_names:
  "sort (map fst POLICIES) = [''lru'', ''prefix_lru'', ''s3fifo'', ''s3fifo_prefix'', ''sieve'']"
  by code_simp

lemma skip_benches_eq:
  "skip_benches hw (sort_key fst REQUIRED_CAPABILITIES) =
     Inr ((if hw_gpu_direct hw then [] else [''gpu_direct_bench'']) @
          (if hw_nvme hw then [] else [''nvme_tier_bench'']) @
          (if hw_rdma hw then [] else [''rdma_transfer_bench'']))"
  unfolding sorted_capabilities by (simp add: hardware_attr_def)

lemma rates_unit:
  assumes "rates l = (hit_rate, reuse_rate)"
  shows "0 \<le> hit_rate" "hit_rate \<le> 1" "0 \<le> reuse_rate" "reuse_rate \<le> 1"
proof -
  have "card (ev_hash_id ` set (filter ev_hit (log_events l))) \<le> card (ev_hash_id ` set (log_events l))"
    by (intro card_mono image_mono) auto
  note this [THEN int_truediv_unit] and length_filter_le [of ev_hit "log_events l", THEN int_truediv_unit]
  then show "0 \<le> hit_rate" "hit_rate \<le> 1" "0 \<le> reuse_rate" "reuse_rate \<le> 1"
    using assms rates_eq [of l] by (cases "log_events l = []"; auto simp: rates_def)+
qed

lemma sort_nth_in: "i < length xs \<Longrightarrow> sort xs ! i \<in> set xs"
  by (metis length_sort nth_mem set_sort)

lemma percentiles_or_empty_ok:
  assumes "length samples \<le> 2 ^ 53"
  shows "\<exists>q. percentiles_or_empty samples = Inr q \<and> p50 q \<le> p90 q \<and> p90 q \<le> p99 q
    \<and> (samples \<noteq> [] \<longrightarrow> {p50 q, p90 q, p99 q} \<subseteq> set samples)"
proof (cases "samples = []")
  case False
  with assms obtain i j k where ijk: "i \<le> j" "j \<le> k" "k < length samples"
    and q: "percentiles samples = Inr \<lparr>p50 = sort samples ! i, p90 = sort samples ! j, p99 = sort samples ! k\<rparr>"
    using percentiles_sorted_pick by metis
  have "sort samples ! i \<le> sort samples ! j" "sort samples ! j \<le> sort samples ! k"
    using ijk by (auto intro!: sorted_nth_mono)
  with ijk q False show ?thesis by (simp add: percentiles_or_empty_def sort_nth_in)
qed (simp add: percentiles_or_empty_def)

definition policy_names :: "string set" where
  "policy_names = {''lru'', ''sieve'', ''s3fifo'', ''prefix_lru'', ''s3fifo_prefix''}"

lemma simulate_replay_total:
  assumes "name \<in> policy_names" "0 < pool" "short_lengths plan"
  shows "\<exists>al ts es thr. simulate_replay plan pool name = Inr (al, ts, es, thr)"
proof -
  have "\<exists>p. make_policy name pool = Inr p"
    using assms by (simp only: make_policy_ok policy_names_def)
  then obtain p where p: "make_policy name pool = Inr p" by blast
  from simulation_returns [OF assms(3), of serve_flat flat_decode_ms p] p show ?thesis by (auto simp: simulate_replay_def)
qed

lemma simulate_tiered_replay_loop:
  assumes "name \<in> policy_names" "0 < f" "0 < sl"
  shows "\<exists>sim. simulate_tiered_replay plan f sl name prefetch =
    bind_result (replay_loop serve_tiered (decode_ms_per_token default_costs) plan sim acc_start) (\<lambda>(_, a). simulation_of a)"
proof -
  have "\<exists>p. make_policy name f = Inr p"
    using assms by (simp only: make_policy_ok policy_names_def)
  moreover have "\<exists>p. make_policy PROJECT_SLOW_POLICY sl = Inr p"
    using assms(3) by (simp add: make_policy_ok PROJECT_SLOW_POLICY_def)
  moreover have "PROJECT_SLOW_POLICY \<noteq> []" by (simp add: PROJECT_SLOW_POLICY_def)
  ultimately show ?thesis
    by (auto simp: simulate_tiered_replay_def TieredSimulator_init_def Let_def)
qed

text \<open>With a known policy the simulation of a run is one of the two loops, whose result is returned.\<close>

lemma run_simulation_loop:
  assumes "cfg_policy cfg \<in> insert [] policy_names"
  shows "(\<exists>sim. run_simulation cfg plan =
      bind_result (replay_loop serve_tiered (decode_ms_per_token default_costs) plan sim acc_start) (\<lambda>(_, a). simulation_of a))
    \<or> (\<exists>p. run_simulation cfg plan = bind_result (replay_loop serve_flat flat_decode_ms plan p acc_start) (\<lambda>(_, a). simulation_of a))"
proof -
  have n: "PROJECT_POLICY \<in> policy_names" "BASELINE_POLICY \<in> policy_names"
    by (simp_all add: PROJECT_POLICY_def BASELINE_POLICY_def policy_names_def)
  have c: "0 < PROJECT_POOL_BLOCKS" "0 < BASELINE_POOL_BLOCKS" "0 < PROJECT_POOL_BLOCKS * PROJECT_SLOW_FACTOR"
    by (simp_all add: PROJECT_POOL_BLOCKS_def BASELINE_POOL_BLOCKS_def PROJECT_SLOW_FACTOR_def)
  show ?thesis
  proof (cases "cfg_target cfg = ''project''")
    case True
    have "(if cfg_policy cfg \<noteq> [] then cfg_policy cfg else PROJECT_POLICY) \<in> policy_names"
      using assms n by auto
    from simulate_tiered_replay_loop [OF this c(1,3), of plan "cfg_prefetch cfg"] True show ?thesis
      by (auto simp: run_simulation_def Let_def)
  next
    case False
    have "(if cfg_policy cfg \<noteq> [] then cfg_policy cfg else BASELINE_POLICY) \<in> policy_names"
      using assms n by auto
    then have "\<exists>p. make_policy (if cfg_policy cfg \<noteq> [] then cfg_policy cfg else BASELINE_POLICY) BASELINE_POOL_BLOCKS = Inr p"
      using c(2) by (simp only: make_policy_ok policy_names_def)
    then show ?thesis using False by (auto simp: run_simulation_def simulate_replay_def Let_def)
  qed
qed

lemma run_simulation_ok: "run_simulation cfg plan = Inr r \<Longrightarrow> simulation_ok plan r"
  by (auto simp: run_simulation_def Let_def intro: simulate_replay_ok simulate_tiered_replay_ok split: if_splits)

lemma run_simulation_total:
  assumes "cfg_policy cfg \<in> insert [] policy_names" "short_lengths plan"
  shows "\<exists>al ts es thr. run_simulation cfg plan = Inr (al, ts, es, thr) \<and> simulation_ok plan (al, ts, es, thr)"
proof -
  have "\<exists>r. run_simulation cfg plan = Inr r" using run_simulation_loop [OF assms(1), of plan]
  proof (elim disjE exE)
    fix sim assume "run_simulation cfg plan = bind_result (replay_loop serve_tiered (decode_ms_per_token default_costs) plan sim acc_start) (\<lambda>(_, a). simulation_of a)"
    with simulation_returns [OF assms(2), of serve_tiered "decode_ms_per_token default_costs" sim] show ?thesis by auto
  next
    fix p assume "run_simulation cfg plan = bind_result (replay_loop serve_flat flat_decode_ms plan p acc_start) (\<lambda>(_, a). simulation_of a)"
    with simulation_returns [OF assms(2), of serve_flat flat_decode_ms p] show ?thesis by auto
  qed
  with run_simulation_ok show ?thesis by (metis prod.collapse)
qed

lemma run_simulation_overflows:
  assumes "cfg_policy cfg \<in> insert [] policy_names" "\<exists>st \<in> set plan. 2 ^ 1024 \<le> \<bar>output_length (record_of st)\<bar>"
  shows "run_simulation cfg plan = Inl OverflowError"
  using run_simulation_loop [OF assms(1), of plan]
proof (elim disjE exE)
  fix sim assume "run_simulation cfg plan = bind_result (replay_loop serve_tiered (decode_ms_per_token default_costs) plan sim acc_start) (\<lambda>(_, a). simulation_of a)"
  with replay_loop_overflows [OF assms(2), of serve_tiered "decode_ms_per_token default_costs" sim acc_start] show ?thesis by simp
next
  fix p assume "run_simulation cfg plan = bind_result (replay_loop serve_flat flat_decode_ms plan p acc_start) (\<lambda>(_, a). simulation_of a)"
  with replay_loop_overflows [OF assms(2), of serve_flat flat_decode_ms p acc_start] show ?thesis by simp
qed

lemma plan_records: "record_of ` set (build_replay_plan records) = set records"
proof -
  have "map record_of (build_replay_plan records) = records"
    by (rule nth_equalityI) (simp_all add: build_replay_plan_nth)
  then show ?thesis by (metis list.set_map)
qed

section \<open>Rows of the comparison\<close>

lemma fl_half: "fl (1 / 2) = 1 / 2" by code_simp

lemma lock_commit_nonempty:
  assumes "read_mooncake_lock file = Inr l"
  shows "commit l \<noteq> []"
proof -
  obtain contents where t: "file = Some contents"
    and m: "filter (field_missing (parse_lock_text contents)) REQUIRED_KEYS = []"
    and l: "commit l = the (map_of (parse_lock_text contents) (lit ''mooncake_commit''))"
    using assms by (auto simp: read_mooncake_lock_def Let_def split: option.splits if_splits)
  have "lit ''mooncake_commit'' \<in> set REQUIRED_KEYS" by (simp add: REQUIRED_KEYS_def)
  with m have "\<not> field_missing (parse_lock_text contents) (lit ''mooncake_commit'')"
    by (simp add: filter_empty_conv)
  then show ?thesis by (auto simp: field_missing_def l)
qed

lemma shootout_p99_index_range:
  assumes "0 < n" "n \<le> 2 ^ 53"
  shows "int (n div 2) \<le> shootout_p99_index n" "shootout_p99_index n < int n"
proof -
  have n: "int_to_float (int n) = of_nat n" using fl_count [OF assms(2)] .
  have "fl (1 / 2) \<le> fl (99 / 100)" by (rule f64.rnd_mono) simp
  then have half: "1 / 2 \<le> fl (99 / 100)" by (simp add: fl_half)
  have "of_nat (n div 2) \<le> (of_nat n * (1 / 2) :: rat)"
    using of_nat_mono [of "2 * (n div 2)" n, where 'a = rat] by simp
  also have "\<dots> \<le> of_nat n * fl (99 / 100)" by (rule mult_left_mono [OF half]) simp
  finally have "of_nat (n div 2) \<le> fmul (of_nat n) (fl (99 / 100))"
    unfolding fmul_def using f64.rnd_int [of "int (n div 2)"] assms(2) by (intro f64.rnd_ge_fixed) simp_all
  then have "int (n div 2) \<le> \<lfloor>fmul (of_nat n) (fl (99 / 100))\<rfloor>" by (simp add: le_floor_iff)
  moreover have "int (n div 2) \<le> int n - 1" using assms(1) by linarith
  ultimately show "int (n div 2) \<le> shootout_p99_index n" by (simp add: shootout_p99_index_def n)
qed (simp add: shootout_p99_index_def)

definition row_ok :: "ReplayStep list \<Rightarrow> int \<Rightarrow> shootout_row \<Rightarrow> bool" where
  "row_ok plan pool row \<longleftrightarrow>
     (let (hit_rate, name, q50, q99, reuse, throughput) = row in
      \<exists>al ts es. simulate_replay plan pool name = Inr (al, ts, es, throughput)
        \<and> rates al = (hit_rate, reuse) \<and> {q50, q99} \<subseteq> set ts \<and> q50 \<le> q99)"

lemma shootout_entry_ok:
  assumes "name \<in> policy_names" "0 < pool" "plan \<noteq> []" "short_lengths plan"
  shows "\<exists>row. shootout_entry plan pool name = Inr row \<and> fst (snd row) = name \<and> row_ok plan pool row"
proof -
  obtain al ts es thr where s: "simulate_replay plan pool name = Inr (al, ts, es, thr)"
    using simulate_replay_total [OF assms(1,2,4)] by blast
  then have len: "length ts = length plan" using simulate_replay_ok [OF s] by (simp add: simulation_ok_def)
  obtain h r where r: "rates al = (h, r)" by (cases "rates al")
  have n: "0 < length ts" using len assms(3) by simp
  note i = shootout_p99_index_range [OF n] 
  have i: "length ts div 2 \<le> nat (shootout_p99_index (length ts))" "nat (shootout_p99_index (length ts)) < length ts"
    using shootout_p99_index_range [OF n] len assms(4) unfolding short_lengths_def by linarith+
  have "sort ts \<noteq> []" using n by (metis length_sort length_greater_0_conv)
  moreover have "sort ts ! (length ts div 2) \<le> sort ts ! nat (shootout_p99_index (length ts))"
    using i by (intro sorted_nth_mono) simp_all
  ultimately show ?thesis using s r i
    by (simp add: shootout_entry_def row_ok_def sort_nth_in Let_def)
qed

lemma map_result_all:
  "(\<And>x. x \<in> set xs \<Longrightarrow> \<exists>y. f x = Inr y \<and> P x y) \<Longrightarrow> \<exists>ys. map_result f xs = Inr ys \<and> list_all2 P xs ys"
  by (induction xs) fastforce+

lemma skip_benches_set:
  "skip_benches hw caps = Inr names \<Longrightarrow>
     set names = {bench. \<exists>capability. (bench, capability) \<in> set caps \<and> hardware_attr hw capability = Inr False}"
  by (induction hw caps arbitrary: names rule: skip_benches.induct) (auto simp: bind_result_Inr_iff split: if_splits)

lemma list_all2_names: "list_all2 (\<lambda>x row. fst (snd row) = x \<and> Q row) xs rows \<Longrightarrow> map (fst \<circ> snd) rows = xs \<and> (\<forall>row \<in> set rows. Q row)"
  by (induction rule: list_all2_induct) auto

lemma sorted_policy_set: "set (sort (map fst POLICIES)) = policy_names" "distinct (sort (map fst POLICIES))"
  unfolding sorted_policy_names policy_names_def by auto

section \<open>Properties\<close>

text \<open>C28. A benchmark run on a readable trace, with a known policy (or the default) and a commit from the
  configuration or a complete lock file, returns a report whenever the lengths in the trace have at most 270
  digits: it carries the configuration and a non-empty commit, rates within 0 and 1, ordered percentiles,
  those of the time to the first token not below 4 ms unless the trace is empty, and skips exactly the
  benchmarks whose hardware capability is missing. One output length from \<open>2 ^ 1024\<close>, of 309 digits, ends the
  run with \<^verbatim>\<open>OverflowError\<close>.\<close>

theorem bench_report_complete:
  assumes "parse_trace w (cfg_trace_path cfg) = Inr records" "length records \<le> 2 ^ 53"
    and "cfg_policy cfg \<in> insert [] policy_names"
    and "cfg_mooncake_commit cfg \<noteq> [] \<or> (\<exists>l. read_mooncake_lock (lock_text w) = Inr l)"
  shows "((\<forall>rec \<in> set records. \<bar>input_length rec\<bar> \<le> 2 ^ 900 \<and> \<bar>output_length rec\<bar> \<le> 2 ^ 900) \<longrightarrow>
      (\<exists>r. bench_replay w cfg = Inr r \<and> rp_config r = cfg
        \<and> rp_mooncake_commit r \<noteq> []
        \<and> (cfg_mooncake_commit cfg \<noteq> [] \<longrightarrow> rp_mooncake_commit r = cfg_mooncake_commit cfg)
        \<and> 0 \<le> rp_cache_hit_rate r \<and> rp_cache_hit_rate r \<le> 1 \<and> 0 \<le> rp_reuse_rate r \<and> rp_reuse_rate r \<le> 1
        \<and> p50 (rp_ttft_ms r) \<le> p90 (rp_ttft_ms r) \<and> p90 (rp_ttft_ms r) \<le> p99 (rp_ttft_ms r)
        \<and> p50 (rp_e2e_latency_ms r) \<le> p90 (rp_e2e_latency_ms r) \<and> p90 (rp_e2e_latency_ms r) \<le> p99 (rp_e2e_latency_ms r)
        \<and> (records \<noteq> [] \<longrightarrow> 4 \<le> p50 (rp_ttft_ms r))
        \<and> set (rp_skipped r) = {bench. \<exists>capability. (bench, capability) \<in> set REQUIRED_CAPABILITIES
             \<and> hardware_attr (cfg_hardware cfg) capability = Inr False}))
    \<and> ((\<exists>rec \<in> set records. 2 ^ 1024 \<le> \<bar>output_length rec\<bar>) \<longrightarrow> bench_replay w cfg = Inl OverflowError)"
proof (intro conjI impI)
  let ?plan = "build_replay_plan records"
  assume "\<exists>rec \<in> set records. 2 ^ 1024 \<le> \<bar>output_length rec\<bar>"
  then obtain rec where rec: "rec \<in> record_of ` set ?plan" "2 ^ 1024 \<le> \<bar>output_length rec\<bar>" unfolding plan_records by blast
  then have "\<exists>st \<in> set ?plan. 2 ^ 1024 \<le> \<bar>output_length (record_of st)\<bar>" by blast
  from run_simulation_overflows [OF assms(3) this] assms(1) show "bench_replay w cfg = Inl OverflowError"
    by (simp add: bench_replay_def)
next
  let ?plan = "build_replay_plan records"
  assume "\<forall>rec \<in> set records. \<bar>input_length rec\<bar> \<le> 2 ^ 900 \<and> \<bar>output_length rec\<bar> \<le> 2 ^ 900"
  then have short: "short_lengths ?plan" unfolding plan_records [symmetric] short_lengths_def using assms(2) by (auto simp: build_replay_plan_nth)
  obtain al ts es thr where s: "run_simulation cfg ?plan = Inr (al, ts, es, thr)"
    and ok: "simulation_ok ?plan (al, ts, es, thr)"
    using run_simulation_total [OF assms(3) short] by blast
  have len: "length ts = length records" "length es = length records"
    using ok by (auto simp: simulation_ok_def build_replay_plan_nth)
  have "\<forall>k < length records. 4 \<le> ts ! k" using ok by (auto simp: simulation_ok_def build_replay_plan_nth)
  then have ts4: "\<forall>t \<in> set ts. 4 \<le> t" using len by (metis in_set_conv_nth)
  obtain q where q: "percentiles_or_empty ts = Inr q" "p50 q \<le> p90 q" "p90 q \<le> p99 q"
    "ts \<noteq> [] \<longrightarrow> {p50 q, p90 q, p99 q} \<subseteq> set ts"
    using percentiles_or_empty_ok [of ts] len assms(2) by auto
  obtain q' where q': "percentiles_or_empty es = Inr q'" "p50 q' \<le> p90 q'" "p90 q' \<le> p99 q'"
    using percentiles_or_empty_ok [of es] len assms(2) by auto
  obtain h r where r: "rates al = (h, r)" by (cases "rates al")
  define cm where "cm = (if cfg_mooncake_commit cfg \<noteq> [] then Inr (cfg_mooncake_commit cfg)
    else map_sum id commit (read_mooncake_lock (lock_text w)))"
  obtain c where c: "cm = Inr c" "c \<noteq> []" "cfg_mooncake_commit cfg \<noteq> [] \<longrightarrow> c = cfg_mooncake_commit cfg"
    using assms(4) lock_commit_nonempty unfolding cm_def by (cases "cfg_mooncake_commit cfg = []") auto
  obtain sk where sk: "skip_benches (cfg_hardware cfg) (sort_key fst REQUIRED_CAPABILITIES) = Inr sk"
    and set_sk: "set sk = {bench. \<exists>capability. (bench, capability) \<in> set REQUIRED_CAPABILITIES
         \<and> hardware_attr (cfg_hardware cfg) capability = Inr False}"
    using skip_benches_set [OF skip_benches_eq [of "cfg_hardware cfg"]] skip_benches_eq [of "cfg_hardware cfg"] by (simp only: set_sort)
  have "bench_replay w cfg = Inr \<lparr>rp_config = cfg, rp_software_versions = software_versions w, rp_mooncake_commit = c,
                rp_throughput_tok_s = thr, rp_ttft_ms = q, rp_e2e_latency_ms = q',
                rp_cache_hit_rate = h, rp_reuse_rate = r, rp_skipped = sk\<rparr>"
    using assms(1) s r sk q(1) q'(1) c(1) unfolding bench_replay_def cm_def by (simp add: Let_def)
  moreover have "records \<noteq> [] \<longrightarrow> 4 \<le> p50 q" using q(4) ts4 len by auto
  ultimately show "\<exists>r. bench_replay w cfg = Inr r \<and> rp_config r = cfg
        \<and> rp_mooncake_commit r \<noteq> []
        \<and> (cfg_mooncake_commit cfg \<noteq> [] \<longrightarrow> rp_mooncake_commit r = cfg_mooncake_commit cfg)
        \<and> 0 \<le> rp_cache_hit_rate r \<and> rp_cache_hit_rate r \<le> 1 \<and> 0 \<le> rp_reuse_rate r \<and> rp_reuse_rate r \<le> 1
        \<and> p50 (rp_ttft_ms r) \<le> p90 (rp_ttft_ms r) \<and> p90 (rp_ttft_ms r) \<le> p99 (rp_ttft_ms r)
        \<and> p50 (rp_e2e_latency_ms r) \<le> p90 (rp_e2e_latency_ms r) \<and> p90 (rp_e2e_latency_ms r) \<le> p99 (rp_e2e_latency_ms r)
        \<and> (records \<noteq> [] \<longrightarrow> 4 \<le> p50 (rp_ttft_ms r))
        \<and> set (rp_skipped r) = {bench. \<exists>capability. (bench, capability) \<in> set REQUIRED_CAPABILITIES
             \<and> hardware_attr (cfg_hardware cfg) capability = Inr False}"
    using c rates_unit [OF r] q q' set_sk by auto
qed

text \<open>A world with a one-line trace and no lock file.\<close>

definition demo_world :: world where
  "demo_world = \<lparr>open_lines = (\<lambda>path. Inr [lit ''{\"timestamp\": 0, \"input_length\": 6, \"output_length\": 1, \"hash_ids\": [7]}'']),
     lock_text = None, python_version = ''3.11'', platform_name = ''Linux''\<rparr>"

theorem bench_report_complete_witness:
  "\<exists>r. bench_replay demo_world ((default_config ''project'' ''t.jsonl'')\<lparr>cfg_mooncake_commit := lit ''abc''\<rparr>) = Inr r
     \<and> rp_mooncake_commit r = lit ''abc'' \<and> 4 \<le> p50 (rp_ttft_ms r)"
proof -
  let ?cfg = "(default_config ''project'' ''t.jsonl'')\<lparr>cfg_mooncake_commit := lit ''abc''\<rparr>"
  let ?rs = "[\<lparr>timestamp = 0, input_length = 6, output_length = 1, hash_ids = [7]\<rparr>]"
  have p: "parse_trace demo_world (cfg_trace_path ?cfg) = Inr ?rs" by code_simp
  have c: "cfg_policy ?cfg \<in> insert [] policy_names" "cfg_mooncake_commit ?cfg \<noteq> []"
    by (simp_all add: default_config_def lit_def)
  have "\<forall>rec \<in> set ?rs. \<bar>input_length rec\<bar> \<le> 2 ^ 900 \<and> \<bar>output_length rec\<bar> \<le> 2 ^ 900" by simp
  with bench_report_complete [OF p _ c(1)] c(2) show ?thesis by auto
qed

text \<open>The policy comparison ranks every policy once, by descending hit rate, each row with the rates
  and throughput of its own simulation and two quantiles that are samples, the median position not
  above the 99 percent position; a pool without blocks raises \<^verbatim>\<open>ValueError\<close> and an empty trace
  \<^verbatim>\<open>IndexError\<close>.\<close>

lemma shootout_ranking:
  assumes "short_lengths plan"
  shows "case shootout plan pool of
      Inl e \<Rightarrow> (pool \<le> 0 \<and> e = ValueError) \<or> (0 < pool \<and> plan = [] \<and> e = IndexError)
    | Inr rows \<Rightarrow> 0 < pool \<and> plan \<noteq> []
        \<and> distinct (map (fst \<circ> snd) rows) \<and> set (map (fst \<circ> snd) rows) = policy_names
        \<and> sorted_wrt (\<lambda>a b. fst b \<le> fst a) rows
        \<and> (\<forall>row \<in> set rows. row_ok plan pool row)"
proof -
  consider "pool \<le> 0" | "0 < pool" "plan = []" | "0 < pool" "plan \<noteq> []" by linarith
  then show ?thesis
  proof cases
    case 1
    then have "make_policy ''lru'' pool = Inl ValueError"
      using make_policy_ok [of "''lru''" pool] make_policy_error [of "''lru''" pool] by (cases "make_policy ''lru'' pool") auto
    then have "shootout plan pool = Inl ValueError"
      by (simp add: shootout_def sorted_policy_names shootout_entry_def simulate_replay_def)
    with 1 show ?thesis by simp
  next
    case 2
    obtain al ts es thr where s: "simulate_replay plan pool ''lru'' = Inr (al, ts, es, thr)"
      using simulate_replay_total [OF _ 2(1) assms] by (metis insertI1 policy_names_def)
    then have "ts = []" using simulate_replay_ok [OF s] 2 by (simp add: simulation_ok_def)
    with s have "shootout plan pool = Inl IndexError"
      by (simp add: shootout_def sorted_policy_names shootout_entry_def Let_def split: prod.splits)
    with 2 show ?thesis by simp
  next
    case 3
    have "\<exists>row. shootout_entry plan pool name = Inr row \<and> fst (snd row) = name \<and> row_ok plan pool row"
      if "name \<in> set (sort (map fst POLICIES))" for name
      using shootout_entry_ok [OF _ 3 assms] that unfolding sorted_policy_set by blast
    from map_result_all [of _ "shootout_entry plan pool", OF this] obtain rows where a: "list_all2 (\<lambda>x row. fst (snd row) = x \<and> row_ok plan pool row) (sort (map fst POLICIES)) rows" and r: "map_result (shootout_entry plan pool) (sort (map fst POLICIES)) = Inr rows"
      by blast
    have n: "map (fst \<circ> snd) rows = sort (map fst POLICIES)" and ok: "\<forall>row \<in> set rows. row_ok plan pool row"
      using list_all2_names [OF a] by blast+
    have "set (map (fst \<circ> snd) (rev (sort rows))) = policy_names"
      using arg_cong [OF n, of set] sorted_policy_set(1) by (simp only: set_map set_rev set_sort)
    moreover have "distinct (map (fst \<circ> snd) rows)" using n sorted_policy_set(2) by (simp only:)
    then have "distinct (map (fst \<circ> snd) (rev (sort rows)))"
      by (simp only: distinct_map distinct_rev distinct_sort set_rev set_sort)
    moreover have "sorted_wrt (\<lambda>a b. fst b \<le> fst a) (rev (sort rows))"
      unfolding sorted_wrt_rev by (rule sorted_wrt_mono_rel [OF _ sorted_sort]) (auto simp: less_eq_prod_def)
    ultimately show ?thesis using 3 ok by (simp add: shootout_def r)
  qed
qed

end
