(* ===== verification/Program.thy ===== *)
theory Program
  imports Prelude
begin

text \<open>
  Python statements over a state: a run ends with a result or an exception and the state it left,
  or does not end (\<open>None\<close>, for code that loops in a component it calls). \<open>runs\<close> is total correctness:
  the run ends and its outcome satisfies the condition.
\<close>

type_synonym ('s, 'a) prog = "'s \<Rightarrow> ('a result \<times> 's) option"

definition prog_return :: "'a \<Rightarrow> ('s, 'a) prog" where
  "prog_return x s = Some (Inr x, s)"

definition prog_raise :: "py_error \<Rightarrow> ('s, 'a) prog" where
  "prog_raise e s = Some (Inl e, s)"

definition prog_lift :: "'a result \<Rightarrow> ('s, 'a) prog" where
  "prog_lift r s = Some (r, s)"

definition prog_bind :: "('s, 'a) prog \<Rightarrow> ('a \<Rightarrow> ('s, 'b) prog) \<Rightarrow> ('s, 'b) prog" where
  "prog_bind p f s =
     (case p s of
        None \<Rightarrow> None
      | Some (r, s') \<Rightarrow> (case r of Inl e \<Rightarrow> Some (Inl e, s') | Inr x \<Rightarrow> f x s'))"

text \<open>A statement on the first component of a pair of states.\<close>

definition on_fst :: "('s, 'a) prog \<Rightarrow> ('s \<times> 'q, 'a) prog" where
  "on_fst p sq = map_option (\<lambda>(r, s'). (r, (s', snd sq))) (p (fst sq))"

definition runs :: "('s, 'a) prog \<Rightarrow> 's \<Rightarrow> ('a result \<Rightarrow> 's \<Rightarrow> bool) \<Rightarrow> bool" where
  "runs p s Q \<longleftrightarrow> (case p s of None \<Rightarrow> False | Some (r, s') \<Rightarrow> Q r s')"

lemma runs_return [simp]: "runs (prog_return x) s Q \<longleftrightarrow> Q (Inr x) s"
  by (simp add: runs_def prog_return_def)

lemma runs_raise [simp]: "runs (prog_raise e) s Q \<longleftrightarrow> Q (Inl e) s"
  by (simp add: runs_def prog_raise_def)

lemma runs_lift [simp]: "runs (prog_lift r) s Q \<longleftrightarrow> Q r s"
  by (simp add: runs_def prog_lift_def)

lemma runs_bind [simp]:
  "runs (prog_bind p f) s Q \<longleftrightarrow>
     runs p s (\<lambda>r s'. case r of Inl e \<Rightarrow> Q (Inl e) s' | Inr x \<Rightarrow> runs (f x) s' Q)"
  by (auto simp: runs_def prog_bind_def split: sum.splits option.splits)

lemma runs_on_fst [simp]: "runs (on_fst p) (s, q) Q \<longleftrightarrow> runs p s (\<lambda>r s'. Q r (s', q))"
  by (auto simp: runs_def on_fst_def split: option.splits)

lemma runs_mono: "runs p s Q \<Longrightarrow> (\<And>r s'. Q r s' \<Longrightarrow> R r s') \<Longrightarrow> runs p s R"
  by (auto simp: runs_def split: option.splits)

lemma runs_conj: "runs p s P \<Longrightarrow> runs p s Q \<Longrightarrow> runs p s (\<lambda>r s'. P r s' \<and> Q r s')"
  by (auto simp: runs_def split: option.splits)

lemma runs_result: "runs p s Q \<Longrightarrow> p s = Some (r, s') \<Longrightarrow> Q r s'"
  by (auto simp: runs_def)

lemma runs_ends: "runs p s Q \<Longrightarrow> \<exists>r s'. p s = Some (r, s') \<and> Q r s'"
  by (auto simp: runs_def split: option.splits)

end
