(* ===== verification/Connector.thy ===== *)
theory Connector
  imports Ordered_Dict Program
begin

text \<open>
  The vLLM connector \<^verbatim>\<open>python/vllm_adapter/connector.py\<close>. The tiered store and the scheduler behind
  it are injected objects, in production a C++ binding: their methods are arguments of the model,
  and what the connector relies on is a locale. The in-memory stand-ins of
  \<^verbatim>\<open>tests/test_connector_integration.py\<close> are modelled too and satisfy it.
\<close>

section \<open>Model\<close>

record BlockKey =
  bk_hash_id :: int
  bk_layer :: int
  bk_version :: int

record Capabilities =
  cap_rdma :: bool
  cap_gpu_direct :: bool
  cap_nvme :: bool

record ConnectorConfig =
  prefix_reuse_enabled :: bool
  capabilities :: Capabilities

type_synonym bytes = "int list"

record LoadResult =
  loaded :: "(BlockKey, bytes) odict"
  missing :: "BlockKey list"

text \<open>The protocols. The methods of a store may raise and change the state of the store.\<close>

record 's TieredStore =
  ts_put :: "BlockKey \<Rightarrow> bytes \<Rightarrow> ('s, unit) prog"
  ts_get :: "BlockKey \<Rightarrow> ('s, bytes option) prog"
  ts_exists :: "BlockKey \<Rightarrow> 's \<Rightarrow> bool"
  ts_prefetch :: "BlockKey list \<Rightarrow> ('s, unit) prog"
  ts_record_sequence :: "BlockKey list \<Rightarrow> ('s, unit) prog"
  ts_prefetch_chain :: "BlockKey \<Rightarrow> int \<Rightarrow> ('s, int) prog"
  ts_prefetch_chain_multi :: "BlockKey list \<Rightarrow> int \<Rightarrow> ('s, int) prog"

record 'q Scheduler =
  sc_register_block :: "BlockKey \<Rightarrow> string \<Rightarrow> 'q \<Rightarrow> 'q"
  sc_route :: "BlockKey list \<Rightarrow> 'q \<Rightarrow> string"

record ('s, 'q) ProjectKVConnector =
  cn_config :: ConnectorConfig
  cn_scheduler :: "'q Scheduler"
  cn_store :: "'s TieredStore"
  cn_self_node :: string

definition register_block :: "('s, 'q) ProjectKVConnector \<Rightarrow> BlockKey \<Rightarrow> ('s \<times> 'q, unit) prog" where
  "register_block c key sq =
     Some (Inr (), (fst sq, sc_register_block (cn_scheduler c) key (cn_self_node c) (snd sq)))"

fun store_blocks :: "('s, 'q) ProjectKVConnector \<Rightarrow> (BlockKey \<times> bytes) list \<Rightarrow> ('s \<times> 'q, unit) prog" where
  "store_blocks c [] = prog_return ()"
| "store_blocks c ((key, payload) # rest) =
     prog_bind (on_fst (ts_put (cn_store c) key payload)) (\<lambda>_.
     prog_bind (register_block c key) (\<lambda>_. store_blocks c rest))"

definition store_kv :: "('s, 'q) ProjectKVConnector \<Rightarrow> BlockKey list \<Rightarrow> bytes list \<Rightarrow> ('s \<times> 'q, unit) prog" where
  "store_kv c block_keys tensors =
     (if length block_keys \<noteq> length tensors then prog_raise ValueError
      else prog_bind (store_blocks c (zip block_keys tensors)) (\<lambda>_.
             if prefix_reuse_enabled (cn_config c) then on_fst (ts_record_sequence (cn_store c) block_keys)
             else prog_return ()))"

fun load_blocks ::
  "('s, 'q) ProjectKVConnector \<Rightarrow> BlockKey list \<Rightarrow> (BlockKey, bytes) odict \<Rightarrow> BlockKey list \<Rightarrow> ('s, LoadResult) prog"
where
  "load_blocks c [] ld ms = prog_return \<lparr>loaded = ld, missing = ms\<rparr>"
| "load_blocks c (key # keys) ld ms =
     prog_bind (ts_get (cn_store c) key) (\<lambda>payload.
       case payload of
         None \<Rightarrow> load_blocks c keys ld (ms @ [key])
       | Some b \<Rightarrow> load_blocks c keys (od_set key b ld) ms)"

text \<open>\<^verbatim>\<open>prefetch_chain_multi\<close> is called with its default budget of 8.\<close>

definition load_kv :: "('s, 'q) ProjectKVConnector \<Rightarrow> BlockKey list \<Rightarrow> ('s, LoadResult) prog" where
  "load_kv c block_keys =
     prog_bind
       (if prefix_reuse_enabled (cn_config c)
        then prog_bind (ts_prefetch (cn_store c) block_keys) (\<lambda>_.
               if block_keys \<noteq> []
               then prog_bind (ts_prefetch_chain_multi (cn_store c) block_keys 8) (\<lambda>_. prog_return ())
               else prog_return ())
        else prog_return ())
       (\<lambda>_. load_blocks c block_keys [] [])"

definition supports :: "('s, 'q) ProjectKVConnector \<Rightarrow> Capabilities" where
  "supports c = capabilities (cn_config c)"

section \<open>The contract of a tiered store\<close>

text \<open>
  \<open>content\<close> is what the store holds for each key. A store may drop blocks at any time and may refuse a
  payload, but never returns a payload other than the last one put under the key.
\<close>

locale tiered_store =
  fixes ops :: "'s TieredStore" and valid :: "'s \<Rightarrow> bool" and content :: "'s \<Rightarrow> BlockKey \<rightharpoonup> bytes"
  assumes get_law: "valid s \<Longrightarrow> runs (ts_get ops k) s (\<lambda>r s'. valid s' \<and> content s' \<subseteq>\<^sub>m content s
      \<and> (\<exists>v. r = Inr v \<and> (v = None \<or> v = content s k)))"
    and put_law: "valid s \<Longrightarrow> runs (ts_put ops k b) s (\<lambda>r s'. valid s'
      \<and> content s' \<subseteq>\<^sub>m (case r of Inl e \<Rightarrow> content s | Inr _ \<Rightarrow> (content s)(k \<mapsto> b)))"
    and prefetch_law: "valid s \<Longrightarrow> runs (ts_prefetch ops ks) s (\<lambda>r s'. valid s' \<and> content s' \<subseteq>\<^sub>m content s)"
    and chain_law: "valid s \<Longrightarrow> runs (ts_prefetch_chain_multi ops ks n) s (\<lambda>r s'. valid s' \<and> content s' \<subseteq>\<^sub>m content s)"
    and record_law: "valid s \<Longrightarrow> runs (ts_record_sequence ops ks) s (\<lambda>r s'. r = Inr () \<and> valid s' \<and> content s' = content s)"
    and exists_law: "valid s \<Longrightarrow> ts_exists ops k s \<longleftrightarrow> content s k \<noteq> None"

text \<open>A store with room for everything drops and refuses nothing.\<close>

locale lossless_store = tiered_store +
  assumes get_lossless: "valid s \<Longrightarrow> runs (ts_get ops k) s (\<lambda>r s'. r = Inr (content s k) \<and> valid s' \<and> content s' = content s)"
    and put_lossless: "valid s \<Longrightarrow> runs (ts_put ops k b) s (\<lambda>r s'. r = Inr () \<and> valid s' \<and> content s' = (content s)(k \<mapsto> b))"
    and prefetch_lossless: "valid s \<Longrightarrow> runs (ts_prefetch ops ks) s (\<lambda>r s'. r = Inr () \<and> valid s' \<and> content s' = content s)"
    and chain_lossless: "valid s \<Longrightarrow> runs (ts_prefetch_chain_multi ops ks n) s
      (\<lambda>r s'. (\<exists>v. r = Inr v) \<and> valid s' \<and> content s' = content s)"

text \<open>A store with a largest payload takes every payload up to it, and then no call of the connector fails.\<close>

locale bounded_store = tiered_store +
  fixes room :: "'a \<Rightarrow> nat option"
  assumes get_room: "valid s \<Longrightarrow> runs (ts_get ops k) s (\<lambda>r s'. room s' = room s)"
    and put_room: "valid s \<Longrightarrow> runs (ts_put ops k b) s (\<lambda>r s'. room s' = room s
      \<and> r = (case room s of None \<Rightarrow> Inl RuntimeError | Some n \<Rightarrow> if length b \<le> n then Inr () else Inl RuntimeError))"
    and prefetch_room: "valid s \<Longrightarrow> room s \<noteq> None \<Longrightarrow> runs (ts_prefetch ops ks) s (\<lambda>r s'. r = Inr () \<and> room s' = room s)"
    and chain_room: "valid s \<Longrightarrow> room s \<noteq> None \<Longrightarrow> 0 \<le> n \<Longrightarrow> n < 2 ^ 64 \<Longrightarrow>
      runs (ts_prefetch_chain_multi ops ks n) s (\<lambda>r s'. (\<exists>v. r = Inr v) \<and> room s' = room s)"
    and record_room: "valid s \<Longrightarrow> runs (ts_record_sequence ops ks) s (\<lambda>r s'. room s' = room s)"

text \<open>What the loop of \<^verbatim>\<open>load_kv\<close> has done after the keys \<open>seen\<close>.\<close>

definition load_split :: "BlockKey list \<Rightarrow> (BlockKey \<rightharpoonup> bytes) \<Rightarrow> LoadResult \<Rightarrow> bool" where
  "load_split seen m r \<longleftrightarrow> map_of (loaded r) \<subseteq>\<^sub>m m
     \<and> set seen = od_dom (loaded r) \<union> set (missing r) \<and> od_ok (loaded r)"

lemma map_le_add_mono: "m \<subseteq>\<^sub>m m' \<Longrightarrow> m ++ n \<subseteq>\<^sub>m m' ++ n"
  by (auto simp: map_le_def map_add_def dom_def split: option.splits)

lemma map_le_Some: "m \<subseteq>\<^sub>m m' \<Longrightarrow> m k = Some v \<Longrightarrow> m' k = Some v"
  by (auto simp: map_le_def dom_def)

lemma load_split_nil: "load_split [] m \<lparr>loaded = [], missing = []\<rparr>"
  by (simp add: load_split_def od_dom_def)

lemma runs_register [simp]:
  "runs (register_block c k) (s, q) Q \<longleftrightarrow> Q (Inr ()) (s, sc_register_block (cn_scheduler c) k (cn_self_node c) q)"
  by (simp add: runs_def register_block_def)

context tiered_store
begin

lemma load_blocks_runs:
  assumes "cn_store c = ops" "valid s" "content s \<subseteq>\<^sub>m m" "load_split seen m \<lparr>loaded = ld, missing = ms\<rparr>"
  shows "runs (load_blocks c keys ld ms) s (\<lambda>r s'. valid s' \<and> content s' \<subseteq>\<^sub>m m
    \<and> (\<exists>v. r = Inr v \<and> load_split (seen @ keys) m v))"
  using assms(2-)
proof (induction keys arbitrary: seen ld ms s)
  case (Cons k keys)
  show ?case
    unfolding load_blocks.simps runs_bind assms(1)
  proof (rule runs_mono [OF get_law [OF Cons.prems(1), of k]])
    fix r s1
    assume g: "valid s1 \<and> content s1 \<subseteq>\<^sub>m content s \<and> (\<exists>v. r = Inr v \<and> (v = None \<or> v = content s k))"
    then obtain v where v: "r = Inr v" "v = None \<or> v = content s k" by blast
    have s1: "valid s1" "content s1 \<subseteq>\<^sub>m m" using g Cons.prems(2) by (auto intro: map_le_trans)
    show "case r of Inl e \<Rightarrow> valid s1 \<and> content s1 \<subseteq>\<^sub>m m \<and> (\<exists>v. Inl e = Inr v \<and> load_split (seen @ k # keys) m v)
      | Inr x \<Rightarrow> runs (case x of None \<Rightarrow> load_blocks c keys ld (ms @ [k]) | Some b \<Rightarrow> load_blocks c keys (od_set k b ld) ms) s1
          (\<lambda>r s'. valid s' \<and> content s' \<subseteq>\<^sub>m m \<and> (\<exists>v. r = Inr v \<and> load_split (seen @ k # keys) m v))"
    proof (cases v)
      case None
      have "load_split (seen @ [k]) m \<lparr>loaded = ld, missing = ms @ [k]\<rparr>"
        using Cons.prems(3) by (auto simp: load_split_def)
      from Cons.IH [OF s1 this] None v show ?thesis by simp
    next
      case (Some b)
      then have "content s k = Some b" using v(2) by auto
      from map_le_Some [OF Cons.prems(2) this] have "m k = Some b" .
      then have "load_split (seen @ [k]) m \<lparr>loaded = od_set k b ld, missing = ms\<rparr>"
        using Cons.prems(3) by (auto simp: load_split_def map_le_def od_ok_set)
      from Cons.IH [OF s1 this] show ?thesis unfolding v(1) Some by simp
    qed
  qed
qed simp

lemma load_kv_runs:
  assumes "cn_store c = ops" "valid s"
  shows "runs (load_kv c keys) s (\<lambda>r s'. valid s' \<and> content s' \<subseteq>\<^sub>m content s
    \<and> (\<forall>v. r = Inr v \<longrightarrow> load_split keys (content s) v))"
proof -
  have l: "runs (load_blocks c keys [] []) s1 (\<lambda>r s'. valid s' \<and> content s' \<subseteq>\<^sub>m content s
      \<and> (\<forall>v. r = Inr v \<longrightarrow> load_split keys (content s) v))"
    if "valid s1" "content s1 \<subseteq>\<^sub>m content s" for s1
    using load_blocks_runs [OF assms(1) that, of "[]" "[]" "[]" keys]
    by (rule runs_mono) (auto simp: load_split_def)
  have ch: "runs (ts_prefetch_chain_multi ops keys 8) s0 (\<lambda>r s1. valid s1 \<and> content s1 \<subseteq>\<^sub>m content s)"
    if "valid s0" "content s0 \<subseteq>\<^sub>m content s" for s0
    using chain_law [OF that(1)] by (rule runs_mono) (use that in \<open>auto intro: map_le_trans\<close>)
  show ?thesis
    unfolding load_kv_def runs_bind assms(1)
    by (cases "prefix_reuse_enabled (cn_config c)"; cases "keys = []")
      (auto simp: assms load_split_nil l intro!: runs_mono [OF prefetch_law [OF assms(2)]] runs_mono [OF ch] split: sum.split)
qed

lemma store_blocks_runs:
  assumes "cn_store c = ops" "valid s"
  shows "runs (store_blocks c kvs) (s, q) (\<lambda>r (s', q'). valid s'
    \<and> (r = Inr () \<longrightarrow> content s' \<subseteq>\<^sub>m content s ++ map_of (rev kvs)))"
  using assms(2)
proof (induction kvs arbitrary: s q)
  case (Cons kv kvs)
  obtain k b where kv: "kv = (k, b)" by (cases kv)
  show ?case
    unfolding kv store_blocks.simps runs_bind runs_on_fst assms(1)
  proof (rule runs_mono [OF put_law [OF Cons.prems, of k b]])
    fix r s1
    assume p: "valid s1 \<and> content s1 \<subseteq>\<^sub>m (case r of Inl e \<Rightarrow> content s | Inr _ \<Rightarrow> (content s)(k \<mapsto> b))"
    show "case r of Inl e \<Rightarrow> (case (s1, q) of (s', q') \<Rightarrow> valid s'
          \<and> (Inl e = Inr () \<longrightarrow> content s' \<subseteq>\<^sub>m content s ++ map_of (rev ((k, b) # kvs))))
      | Inr x \<Rightarrow> runs (register_block c k) (s1, q) (\<lambda>r s'. case r of Inl e \<Rightarrow> (case s' of (s', q') \<Rightarrow> valid s'
          \<and> (Inl e = Inr () \<longrightarrow> content s' \<subseteq>\<^sub>m content s ++ map_of (rev ((k, b) # kvs))))
        | Inr x \<Rightarrow> runs (store_blocks c kvs) s' (\<lambda>r (s', q'). valid s'
          \<and> (r = Inr () \<longrightarrow> content s' \<subseteq>\<^sub>m content s ++ map_of (rev ((k, b) # kvs)))))"
    proof (cases r)
      case (Inr x)
      with p have "valid s1" and le: "content s1 ++ map_of (rev kvs) \<subseteq>\<^sub>m (content s)(k \<mapsto> b) ++ map_of (rev kvs)"
        by (auto intro: map_le_add_mono)
      with Inr show ?thesis
        by (auto intro!: runs_mono [OF Cons.IH] intro: map_le_trans)
    qed (use p in simp)
  qed
qed simp

lemma store_kv_runs:
  assumes "cn_store c = ops" "valid s"
  shows "runs (store_kv c keys tensors) (s, q) (\<lambda>r (s', q'). valid s'
    \<and> (r = Inr () \<longrightarrow> length keys = length tensors \<and> content s' \<subseteq>\<^sub>m content s ++ map_of (rev (zip keys tensors))))"
proof (cases "length keys = length tensors")
  case True
  show ?thesis using True unfolding store_kv_def assms(1)
    by (auto intro!: runs_mono [OF store_blocks_runs [OF assms, of "zip keys tensors" q]] runs_mono [OF record_law] split: sum.split)
qed (simp add: store_kv_def assms(2))

lemma store_load_sound:
  assumes "cn_store c = ops" "valid s"
  shows "\<exists>r1 s1 q1 r2 s2. store_kv c keys tensors (s, q) = Some (r1, (s1, q1)) \<and> load_kv c keys' s1 = Some (r2, s2)
    \<and> (\<forall>v. r1 = Inr () \<and> r2 = Inr v \<longrightarrow> map_of (loaded v) \<subseteq>\<^sub>m content s ++ map_of (rev (zip keys tensors))
         \<and> set keys' = od_dom (loaded v) \<union> set (missing v))"
proof -
  obtain r1 s1 q1 where 1: "store_kv c keys tensors (s, q) = Some (r1, (s1, q1))" "valid s1"
      "r1 = Inr () \<longrightarrow> content s1 \<subseteq>\<^sub>m content s ++ map_of (rev (zip keys tensors))"
    using runs_ends [OF store_kv_runs [OF assms, of keys tensors q]] by auto
  obtain r2 s2 where 2: "load_kv c keys' s1 = Some (r2, s2)" "\<forall>v. r2 = Inr v \<longrightarrow> load_split keys' (content s1) v"
    using runs_ends [OF load_kv_runs [OF assms(1) 1(2), of keys']] by auto
  from 1 2 map_le_trans show ?thesis by (fastforce simp: load_split_def)
qed

end

context lossless_store
begin

lemma store_blocks_lossless:
  assumes "cn_store c = ops" "valid s"
  shows "runs (store_blocks c kvs) (s, q) (\<lambda>r (s', q'). r = Inr () \<and> valid s' \<and> content s' = content s ++ map_of (rev kvs)
    \<and> q' = foldl (\<lambda>q k. sc_register_block (cn_scheduler c) k (cn_self_node c) q) q (map fst kvs))"
  using assms(2)
proof (induction kvs arbitrary: s q)
  case (Cons kv kvs)
  obtain k b where kv: "kv = (k, b)" by (cases kv)
  show ?case
    unfolding kv store_blocks.simps runs_bind runs_on_fst assms(1)
    by (rule runs_mono [OF put_lossless [OF Cons.prems]]) (auto intro!: runs_mono [OF Cons.IH])
qed simp

lemma load_blocks_lossless:
  assumes "cn_store c = ops" "valid s" "set keys \<subseteq> dom (content s)"
  shows "runs (load_blocks c keys ld ms) s (\<lambda>r s'. \<exists>v. r = Inr v \<and> missing v = ms
    \<and> (\<forall>k \<in> set keys. map_of (loaded v) k = content s k) \<and> (\<forall>k. k \<notin> set keys \<longrightarrow> map_of (loaded v) k = map_of ld k))"
  using assms(2,3)
proof (induction keys arbitrary: ld s)
  case (Cons k keys)
  then obtain b where b: "content s k = Some b" by auto
  have "runs (load_blocks c keys (od_set k b ld) ms) s1 (\<lambda>r s'. \<exists>v. r = Inr v \<and> missing v = ms
      \<and> (\<forall>j \<in> set (k # keys). map_of (loaded v) j = content s j)
      \<and> (\<forall>j. j \<notin> set (k # keys) \<longrightarrow> map_of (loaded v) j = map_of ld j))"
    if "valid s1" "content s1 = content s" for s1
  proof (rule runs_mono [OF Cons.IH [OF that(1)]])
    show "set keys \<subseteq> dom (content s1)" using Cons.prems(2) that(2) by simp
  next
    fix r s'
    assume "\<exists>v. r = Inr v \<and> missing v = ms \<and> (\<forall>j \<in> set keys. map_of (loaded v) j = content s1 j)
      \<and> (\<forall>j. j \<notin> set keys \<longrightarrow> map_of (loaded v) j = map_of (od_set k b ld) j)"
    then show "\<exists>v. r = Inr v \<and> missing v = ms \<and> (\<forall>j \<in> set (k # keys). map_of (loaded v) j = content s j)
      \<and> (\<forall>j. j \<notin> set (k # keys) \<longrightarrow> map_of (loaded v) j = map_of ld j)"
      using that(2) b by (cases "k \<in> set keys") auto
  qed
  then show ?case
    unfolding load_blocks.simps runs_bind assms(1)
    by (intro runs_mono [OF get_lossless [OF Cons.prems(1), of k]]) (auto simp: b)
qed simp

lemma load_kv_lossless:
  assumes "cn_store c = ops" "valid s" "set keys \<subseteq> dom (content s)"
  shows "runs (load_kv c keys) s (\<lambda>r s'. \<exists>v. r = Inr v \<and> missing v = []
    \<and> (\<forall>k \<in> set keys. map_of (loaded v) k = content s k) \<and> (\<forall>k. k \<notin> set keys \<longrightarrow> map_of (loaded v) k = None))"
proof -
  have l: "runs (load_blocks c keys [] []) s1 (\<lambda>r s'. \<exists>v. r = Inr v \<and> missing v = []
      \<and> (\<forall>k \<in> set keys. map_of (loaded v) k = content s k) \<and> (\<forall>k. k \<notin> set keys \<longrightarrow> map_of (loaded v) k = None))"
    if "valid s1" "content s1 = content s" for s1
    using load_blocks_lossless [OF assms(1) that(1), of keys "[]" "[]"] assms(3) that(2) by (auto intro: runs_mono)
  show ?thesis
    unfolding load_kv_def runs_bind assms(1)
    by (cases "prefix_reuse_enabled (cn_config c)"; cases "keys = []")
      (auto simp: assms l intro!: runs_mono [OF prefetch_lossless [OF assms(2)]] runs_mono [OF chain_lossless] split: sum.split)
qed

lemma store_kv_lossless:
  assumes "cn_store c = ops" "valid s" "length keys = length tensors"
  shows "runs (store_kv c keys tensors) (s, q) (\<lambda>r (s', q'). r = Inr () \<and> valid s'
    \<and> content s' = content s ++ map_of (rev (zip keys tensors))
    \<and> q' = foldl (\<lambda>q k. sc_register_block (cn_scheduler c) k (cn_self_node c) q) q keys)"
  using assms(3) unfolding store_kv_def assms(1)
  by (auto intro!: runs_mono [OF store_blocks_lossless [OF assms(1,2), of "zip keys tensors" q]] runs_mono [OF record_law] split: sum.split)

lemma store_load_lossless:
  assumes "cn_store c = ops" "valid s" "length keys = length tensors"
  shows "\<exists>s1 v s2. store_kv c keys tensors (s, q) =
        Some (Inr (), (s1, foldl (\<lambda>q k. sc_register_block (cn_scheduler c) k (cn_self_node c) q) q keys))
    \<and> load_kv c keys s1 = Some (Inr v, s2) \<and> missing v = [] \<and> map_of (loaded v) = map_of (rev (zip keys tensors))"
proof -
  let ?m = "map_of (rev (zip keys tensors))"
  obtain s1 q1 where 1: "store_kv c keys tensors (s, q) = Some (Inr (), (s1, q1))" "valid s1" "content s1 = content s ++ ?m"
      "q1 = foldl (\<lambda>q k. sc_register_block (cn_scheduler c) k (cn_self_node c) q) q keys"
    using runs_ends [OF store_kv_lossless [OF assms, of q]] by auto
  have dom: "dom ?m = set keys"
    using assms(3) unfolding dom_map_of_conv_image_fst set_rev by (metis list.set_map map_fst_zip)
  then have "set keys \<subseteq> dom (content s1)" by (auto simp: 1)
  from runs_ends [OF load_kv_lossless [OF assms(1) 1(2) this]]
  obtain v s2 where v: "load_kv c keys s1 = Some (Inr v, s2)" "missing v = []"
      "\<forall>k \<in> set keys. map_of (loaded v) k = content s1 k" "\<forall>k. k \<notin> set keys \<longrightarrow> map_of (loaded v) k = None"
    by auto
  have "map_of (loaded v) k = ?m k" for k
  proof (cases "k \<in> set keys")
    case True
    then obtain b where "?m k = Some b" using dom by blast
    with True v(3) show ?thesis by (simp add: 1(3))
  next
    case False
    then have "?m k = None" using dom by blast
    with False v(4) show ?thesis by simp
  qed
  with 1 v(1,2) show ?thesis by (auto simp: fun_eq_iff)
qed

end

context bounded_store
begin

lemma store_blocks_fit:
  assumes "cn_store c = ops" "valid s" "room s = Some n" "\<forall>kb \<in> set kvs. length (snd kb) \<le> n"
  shows "runs (store_blocks c kvs) (s, q) (\<lambda>r (s', q'). r = Inr () \<and> valid s' \<and> room s' = Some n)"
  using assms(2-)
proof (induction kvs arbitrary: s q)
  case (Cons kv kvs)
  obtain k b where kv: "kv = (k, b)" by (cases kv)
  show ?case
    unfolding kv store_blocks.simps runs_bind runs_on_fst assms(1)
    by (rule runs_mono [OF runs_conj [OF put_law put_room, OF Cons.prems(1,1), of k b]])
      (use Cons.prems kv in \<open>auto intro!: runs_mono [OF Cons.IH]\<close>)
qed simp

lemma store_kv_fits:
  assumes "cn_store c = ops" "valid s" "room s = Some n" "\<forall>b \<in> set tensors. length b \<le> n" "length keys = length tensors"
  shows "runs (store_kv c keys tensors) (s, q) (\<lambda>r (s', q'). r = Inr () \<and> valid s' \<and> room s' = Some n)"
proof -
  have "\<forall>kb \<in> set (zip keys tensors). length (snd kb) \<le> n" using assms(4) by (auto dest: set_zip_rightD)
  then show ?thesis unfolding store_kv_def assms(1) using assms(5)
    by (auto intro!: runs_mono [OF store_blocks_fit [OF assms(1-3), of "zip keys tensors" q]]
        runs_mono [OF runs_conj [OF record_law record_room]] split: sum.split)
qed

lemma load_kv_fits:
  assumes "cn_store c = ops" "valid s" "room s \<noteq> None"
  shows "runs (load_kv c keys) s (\<lambda>r s'. \<exists>v. r = Inr v)"
proof -
  have l: "runs (load_blocks c ks [] []) s1 (\<lambda>r s'. \<exists>v. r = Inr v)" if "valid s1" for ks s1
    using load_blocks_runs [OF assms(1) that map_le_refl load_split_nil, of ks] by (rule runs_mono) auto
  have ch: "runs (ts_prefetch_chain_multi ops keys 8) s1 (\<lambda>r s'. valid s' \<and> (\<exists>v. r = Inr v))"
    if "valid s1" "room s1 \<noteq> None" for s1
    by (rule runs_mono [OF runs_conj [OF chain_law [OF that(1)] chain_room [OF that]]]) auto
  have p: "runs (ts_prefetch ops ks) s (\<lambda>r s'. valid s' \<and> r = Inr () \<and> room s' \<noteq> None)" for ks
    by (rule runs_mono [OF runs_conj [OF prefetch_law [OF assms(2)] prefetch_room [OF assms(2,3)]]]) (use assms(3) in auto)
  show ?thesis
    unfolding load_kv_def runs_bind assms(1)
    by (cases "prefix_reuse_enabled (cn_config c)"; cases "keys = []")
      (auto simp: assms l intro!: runs_mono [OF p] runs_mono [OF ch])
qed

lemma store_load_fits:
  assumes "cn_store c = ops" "valid s" "room s = Some n" "\<forall>b \<in> set tensors. length b \<le> n" "length keys = length tensors"
  shows "\<exists>s1 q1 v s2. store_kv c keys tensors (s, q) = Some (Inr (), (s1, q1)) \<and> load_kv c keys' s1 = Some (Inr v, s2)
    \<and> map_of (loaded v) \<subseteq>\<^sub>m content s ++ map_of (rev (zip keys tensors)) \<and> set keys' = od_dom (loaded v) \<union> set (missing v)"
proof -
  obtain s1 q1 where 1: "store_kv c keys tensors (s, q) = Some (Inr (), (s1, q1))" "valid s1" "room s1 = Some n"
    using runs_ends [OF store_kv_fits [OF assms, of q]] by auto
  obtain v s2 where 2: "load_kv c keys' s1 = Some (Inr v, s2)"
    using runs_ends [OF load_kv_fits [OF assms(1) 1(2), of keys']] 1(3) by auto
  from store_load_sound [OF assms(1,2), of keys tensors q keys'] 1(1) 2 show ?thesis by auto
qed

end

section \<open>The in-memory stand-ins\<close>

record FakeTieredStore =
  fk_data :: "(BlockKey, bytes) odict"
  fk_prefetched :: "BlockKey list"
  fk_recorded :: "BlockKey list list"
  fk_chain_heads :: "BlockKey list"
  fk_chain_anchors :: "BlockKey list list"

definition FakeTieredStore_init :: FakeTieredStore where
  "FakeTieredStore_init =
     \<lparr>fk_data = [], fk_prefetched = [], fk_recorded = [], fk_chain_heads = [], fk_chain_anchors = []\<rparr>"

definition fake_store :: "FakeTieredStore TieredStore" where
  "fake_store =
     \<lparr>ts_put = (\<lambda>key payload s. Some (Inr (), s\<lparr>fk_data := od_set key payload (fk_data s)\<rparr>)),
      ts_get = (\<lambda>key s. Some (Inr (map_of (fk_data s) key), s)),
      ts_exists = (\<lambda>key s. od_contains key (fk_data s)),
      ts_prefetch = (\<lambda>keys s. Some (Inr (), s\<lparr>fk_prefetched := fk_prefetched s @ keys\<rparr>)),
      ts_record_sequence = (\<lambda>keys s. Some (Inr (), s\<lparr>fk_recorded := fk_recorded s @ [keys]\<rparr>)),
      ts_prefetch_chain = (\<lambda>head budget s. Some (Inr 0, s\<lparr>fk_chain_heads := fk_chain_heads s @ [head]\<rparr>)),
      ts_prefetch_chain_multi =
        (\<lambda>anchors budget s. Some (Inr 0, s\<lparr>fk_chain_anchors := fk_chain_anchors s @ [anchors]\<rparr>))\<rparr>"

definition fake_scheduler :: "(BlockKey \<times> string) list Scheduler" where
  "fake_scheduler =
     \<lparr>sc_register_block = (\<lambda>key node q. q @ [(key, node)]), sc_route = (\<lambda>keys q. ''127.0.0.1:0'')\<rparr>"

interpretation fake: lossless_store fake_store "\<lambda>_. True" "\<lambda>s. map_of (fk_data s)"
  by unfold_locales (auto simp: fake_store_def runs_def od_contains_def map_of_eq_None_iff)

section \<open>Properties\<close>

text \<open>Storing and then loading always ends and never returns stale or foreign data: with any store that
  keeps at most the last payload put under a key, when neither call raises, every payload loaded is
  the last one stored for its key and every requested key is either loaded or reported missing.\<close>

lemma load_never_stale:
  assumes "tiered_store (cn_store c) valid content" "valid s"
  shows "\<exists>r1 s1 q1 r2 s2. store_kv c keys tensors (s, q) = Some (r1, (s1, q1)) \<and> load_kv c keys' s1 = Some (r2, s2)
    \<and> (\<forall>v. r1 = Inr () \<and> r2 = Inr v \<longrightarrow> map_of (loaded v) \<subseteq>\<^sub>m content s ++ map_of (rev (zip keys tensors))
         \<and> set keys' = od_dom (loaded v) \<union> set (missing v))"
  using tiered_store.store_load_sound [OF assms(1) refl assms(2)] .

text \<open>A connector over the stand-ins, for the witnesses.\<close>

definition fake_connector :: "(FakeTieredStore, (BlockKey \<times> string) list) ProjectKVConnector" where
  "fake_connector =
     \<lparr>cn_config = \<lparr>prefix_reuse_enabled = True,
        capabilities = \<lparr>cap_rdma = True, cap_gpu_direct = False, cap_nvme = False\<rparr>\<rparr>,
      cn_scheduler = fake_scheduler, cn_store = fake_store, cn_self_node = ''10.0.0.1:8080''\<rparr>"

lemma fake_connector_store: "cn_store fake_connector = fake_store"
  by (simp add: fake_connector_def)

lemma fake_connector_lossless: "lossless_store (cn_store fake_connector) (\<lambda>_. True) (\<lambda>s. map_of (fk_data s))"
  unfolding fake_connector_store by unfold_locales

text \<open>C29. With a store that drops and refuses nothing, what was stored is loaded back: no key is missing and
  every key has the payload stored for it last; and every stored key is registered with the connector's
  own node, in order. Any list of payloads whose length differs from that of the keys, surplus keys and
  surplus payloads alike, raises \<^verbatim>\<open>ValueError\<close> before the store or the scheduler is touched.\<close>

theorem store_load_roundtrip:
  assumes "lossless_store (cn_store c) valid content" "valid s" "length keys = length tensors"
  shows "(\<exists>s1 v s2. store_kv c keys tensors (s, q) =
        Some (Inr (), (s1, foldl (\<lambda>q k. sc_register_block (cn_scheduler c) k (cn_self_node c) q) q keys))
    \<and> load_kv c keys s1 = Some (Inr v, s2) \<and> missing v = [] \<and> map_of (loaded v) = map_of (rev (zip keys tensors)))
    \<and> (\<forall>ts. length ts \<noteq> length keys \<longrightarrow> store_kv c keys ts (s, q) = Some (Inl ValueError, (s, q)))"
  using lossless_store.store_load_lossless [OF assms(1) refl assms(2,3)]
  by (simp add: store_kv_def prog_raise_def)

theorem store_load_roundtrip_witness:
  "(\<exists>s1 v s2. load_kv fake_connector [\<lparr>bk_hash_id = 1, bk_layer = 0, bk_version = 1\<rparr>] s1 = Some (Inr v, s2)
     \<and> missing v = [] \<and> map_of (loaded v) = [\<lparr>bk_hash_id = 1, bk_layer = 0, bk_version = 1\<rparr> \<mapsto> [7]])
   \<and> store_kv fake_connector [\<lparr>bk_hash_id = 1, bk_layer = 0, bk_version = 1\<rparr>] [] (FakeTieredStore_init, [])
       = Some (Inl ValueError, (FakeTieredStore_init, []))"
  using store_load_roundtrip [OF fake_connector_lossless, where s = FakeTieredStore_init and q = "[]" and tensors = "[[7]]"
      and keys = "[\<lparr>bk_hash_id = 1, bk_layer = 0, bk_version = 1\<rparr>]"]
  by auto

end
