(* ===== verification/Storage_Manager.thy ===== *)
theory Storage_Manager
  imports Connector Float64 "HOL-Library.Product_Lexorder"
begin

text \<open>
  The tiered store of the C++ core, \<^verbatim>\<open>src/storage/tiered_storage_manager.cpp\<close> and its header: the
  placement of blocks in up to three tiers, S3-FIFO eviction from the fastest tier, LRU eviction
  from the slower ones, weighted tenant quotas, demotion and promotion. The mutex serialises
  whole operations, so each operation is one function on the state. \<^verbatim>\<open>size_t\<close> and
  \<^verbatim>\<open>uint64_t\<close> arithmetic wraps at \<open>2 ^ 64\<close>, \<^verbatim>\<open>double\<close> is binary64.
\<close>

section \<open>Machine integers\<close>

definition u64_add :: "nat \<Rightarrow> nat \<Rightarrow> nat" where
  "u64_add a b = (a + b) mod 2 ^ 64"

definition u64_sub :: "nat \<Rightarrow> nat \<Rightarrow> nat" where
  "u64_sub a b = (if b \<le> a then a - b else 2 ^ 64 + a - b)"

lemma u64_add_exact: "a + b < 2 ^ 64 \<Longrightarrow> u64_add a b = a + b"
  by (simp add: u64_add_def)

lemma u64_sub_exact [simp]: "u64_sub (a + b) b = a"
  by (simp add: u64_sub_def)

section \<open>The order of block keys\<close>

text \<open>\<^verbatim>\<open>operator<=>\<close> of \<^verbatim>\<open>BlockKey\<close> compares the fields in their order.\<close>

definition key_rank :: "('a::linorder) BlockKey_scheme \<Rightarrow> int \<times> int \<times> int \<times> 'a" where
  "key_rank k = (bk_hash_id k, bk_layer k, bk_version k, BlockKey.more k)"

lemma key_rank_inject: "key_rank j = key_rank k \<longleftrightarrow> j = k"
  by (cases j; cases k) (simp add: key_rank_def)

instantiation BlockKey_ext :: (linorder) linorder
begin

definition less_eq_BlockKey_ext :: "'a BlockKey_scheme \<Rightarrow> 'a BlockKey_scheme \<Rightarrow> bool" where
  "less_eq_BlockKey_ext j k \<longleftrightarrow> key_rank j \<le> key_rank k"

definition less_BlockKey_ext :: "'a BlockKey_scheme \<Rightarrow> 'a BlockKey_scheme \<Rightarrow> bool" where
  "less_BlockKey_ext j k \<longleftrightarrow> key_rank j < key_rank k"

instance
  by standard (auto simp: less_eq_BlockKey_ext_def less_BlockKey_ext_def key_rank_inject order.strict_iff_order)

end

section \<open>Data\<close>

datatype Tier = kHBM | kDRAM | kNVMe

datatype StatusCode =
    kInvalidArgument
  | kNotFound
  | kAlreadyExists
  | kOutOfCapacity
  | kBackpressure
  | kAddressNotRegistered
  | kTransportUnavailable
  | kTransferFailed
  | kUnreachable
  | kNotSupported
  | kInternal

text \<open>
  A \<^verbatim>\<open>Status\<close> is success (\<^verbatim>\<open>kOk\<close>) or another code; \<open>Undefined\<close> marks the point where the code would
  dereference an end iterator.
\<close>

datatype status = Ok | Failed StatusCode | Undefined

record TierConfig =
  hbm_capacity_bytes :: "nat option"
  dram_capacity_bytes :: "nat option"
  nvme_capacity_bytes :: "nat option"
  high_water_ratio :: pyfloat
  tenant_weights :: "(nat \<times> pyfloat) list"

record AccessStats =
  access_count :: nat
  last_access_ts :: nat

record TierEntry =
  te_key :: BlockKey
  te_tier :: Tier
  te_size_bytes :: nat
  te_stats :: AccessStats
  te_tenant_id :: nat

text \<open>The payload halves of a block; shape and element type keep their defaults at this boundary.\<close>

record KVCacheBlock =
  kb_key :: BlockKey
  k_payload :: bytes
  v_payload :: bytes

record StoredBlock =
  sb_block :: KVCacheBlock
  sb_entry :: TierEntry
  s3_freq :: nat
  s3_in_main :: bool

text \<open>A \<^verbatim>\<open>std::set\<close> of (recency, key) pairs.\<close>

type_synonym victim_set = "(nat \<times> BlockKey) set"

record TieredStorageManager =
  mgr_config :: TierConfig
  logical_clock :: nat
  mgr_blocks :: "BlockKey \<rightharpoonup> StoredBlock"
  victim_index :: "Tier \<Rightarrow> victim_set"
  s3_small_fifo :: "BlockKey list"
  s3_main_fifo :: "BlockKey list"
  s3_small_used_bytes :: nat
  fastest_tier_cache :: "Tier option"
  used_bytes :: "Tier \<Rightarrow> nat"
  mgr_ghost :: "BlockKey set"
  ghost_fifo :: "BlockKey list"
  tenant_used :: "Tier \<Rightarrow> nat \<rightharpoonup> nat"
  tenant_victim_index :: "Tier \<Rightarrow> (nat \<times> victim_set) list"

definition kGhostCapacity :: nat where
  "kGhostCapacity = 8192"

definition BlockSizeBytes :: "KVCacheBlock \<Rightarrow> nat" where
  "BlockSizeBytes block = length (k_payload block) + length (v_payload block)"

section \<open>Configuration\<close>

fun tier_capacity :: "TierConfig \<Rightarrow> Tier \<Rightarrow> nat option" where
  "tier_capacity config kHBM = hbm_capacity_bytes config"
| "tier_capacity config kDRAM = dram_capacity_bytes config"
| "tier_capacity config kNVMe = nvme_capacity_bytes config"

definition CapacityOf :: "TierConfig \<Rightarrow> Tier \<Rightarrow> nat" where
  "CapacityOf config tier = (case tier_capacity config tier of None \<Rightarrow> 0 | Some c \<Rightarrow> c)"

definition configured :: "TierConfig \<Rightarrow> Tier \<Rightarrow> bool" where
  "configured config tier \<longleftrightarrow> tier_capacity config tier \<noteq> None"

text \<open>The target, then the faster tiers upwards, then the slower ones downwards.\<close>

fun resolve_order :: "Tier \<Rightarrow> Tier list" where
  "resolve_order kHBM = [kHBM, kDRAM, kNVMe]"
| "resolve_order kDRAM = [kDRAM, kHBM, kNVMe]"
| "resolve_order kNVMe = [kNVMe, kDRAM, kHBM]"

definition ResolveConfiguredTier :: "TierConfig \<Rightarrow> Tier \<Rightarrow> Tier option" where
  "ResolveConfiguredTier config target = find (configured config) (resolve_order target)"

fun slower_tiers :: "Tier \<Rightarrow> Tier list" where
  "slower_tiers kHBM = [kDRAM, kNVMe]"
| "slower_tiers kDRAM = [kNVMe]"
| "slower_tiers kNVMe = []"

definition NextSlowerConfigured :: "TierConfig \<Rightarrow> Tier \<Rightarrow> Tier option" where
  "NextSlowerConfigured config tier = find (configured config) (slower_tiers tier)"

definition EvictionThresholdOf :: "TierConfig \<Rightarrow> Tier \<Rightarrow> nat" where
  "EvictionThresholdOf config tier =
     (let capacity = int_to_float (int (CapacityOf config tier))
      in nat \<lfloor>min capacity (fmul capacity (high_water_ratio config))\<rfloor>)"

definition QuotaEnabled :: "TieredStorageManager \<Rightarrow> bool" where
  "QuotaEnabled m \<longleftrightarrow> tenant_weights (mgr_config m) \<noteq> []"

definition TieredStorageManager_init :: "TierConfig \<Rightarrow> TieredStorageManager" where
  "TieredStorageManager_init config =
     \<lparr>mgr_config = config, logical_clock = 0, mgr_blocks = Map.empty, victim_index = (\<lambda>_. {}),
      s3_small_fifo = [], s3_main_fifo = [], s3_small_used_bytes = 0,
      fastest_tier_cache = ResolveConfiguredTier config kHBM, used_bytes = (\<lambda>_. 0),
      mgr_ghost = {}, ghost_fifo = [], tenant_used = (\<lambda>_. Map.empty), tenant_victim_index = (\<lambda>_. [])\<rparr>"

section \<open>Indices and accounting\<close>

definition victim_order :: "TierEntry \<Rightarrow> nat \<times> BlockKey" where
  "victim_order entry = (last_access_ts (te_stats entry), te_key entry)"

definition IndexInsert :: "TierEntry \<Rightarrow> TieredStorageManager \<Rightarrow> TieredStorageManager" where
  "IndexInsert entry m =
     (let t = te_tier entry
      in m\<lparr>victim_index := (victim_index m)(t := insert (victim_order entry) (victim_index m t))\<rparr>)"

definition IndexErase :: "TierEntry \<Rightarrow> TieredStorageManager \<Rightarrow> TieredStorageManager" where
  "IndexErase entry m =
     (let t = te_tier entry
      in m\<lparr>victim_index := (victim_index m)(t := victim_index m t - {victim_order entry})\<rparr>)"

text \<open>A \<^verbatim>\<open>std::map\<close>: an association list in ascending key order.\<close>

fun map_put :: "nat \<Rightarrow> 'a \<Rightarrow> (nat \<times> 'a) list \<Rightarrow> (nat \<times> 'a) list" where
  "map_put k v [] = [(k, v)]"
| "map_put k v ((k', v') # rest) =
     (if k < k' then (k, v) # (k', v') # rest
      else if k = k' then (k, v) # rest
      else (k', v') # map_put k v rest)"

definition value_or :: "'a \<Rightarrow> 'a option \<Rightarrow> 'a" where
  "value_or d v = (case v of None \<Rightarrow> d | Some x \<Rightarrow> x)"

definition AccountInsert :: "TierEntry \<Rightarrow> TieredStorageManager \<Rightarrow> TieredStorageManager" where
  "AccountInsert entry m =
     (if \<not> QuotaEnabled m then m
      else
        (let t = te_tier entry; u = te_tenant_id entry;
             used = u64_add (value_or 0 (tenant_used m t u)) (te_size_bytes entry);
             index = insert (victim_order entry) (value_or {} (map_of (tenant_victim_index m t) u))
         in m\<lparr>tenant_used := (tenant_used m)(t := (tenant_used m t)(u \<mapsto> used)),
              tenant_victim_index := (tenant_victim_index m)(t := map_put u index (tenant_victim_index m t))\<rparr>))"

definition erase_used :: "nat \<Rightarrow> nat \<Rightarrow> (nat \<rightharpoonup> nat) \<Rightarrow> (nat \<rightharpoonup> nat)" where
  "erase_used u sz used =
     (case used u of
        None \<Rightarrow> used
      | Some n \<Rightarrow> if n - min n sz = 0 then used(u := None) else used(u \<mapsto> n - min n sz))"

definition erase_victim :: "nat \<Rightarrow> nat \<times> BlockKey \<Rightarrow> (nat \<times> victim_set) list \<Rightarrow> (nat \<times> victim_set) list" where
  "erase_victim u v tvi =
     (case map_of tvi u of
        None \<Rightarrow> tvi
      | Some index \<Rightarrow> if index - {v} = {} then AList.delete u tvi else map_put u (index - {v}) tvi)"

definition AccountErase :: "TierEntry \<Rightarrow> TieredStorageManager \<Rightarrow> TieredStorageManager" where
  "AccountErase entry m =
     (if \<not> QuotaEnabled m then m
      else
        (let t = te_tier entry; u = te_tenant_id entry
         in m\<lparr>tenant_used := (tenant_used m)(t := erase_used u (te_size_bytes entry) (tenant_used m t)),
              tenant_victim_index :=
                (tenant_victim_index m)(t := erase_victim u (victim_order entry) (tenant_victim_index m t))\<rparr>))"

definition AddUsed :: "Tier \<Rightarrow> nat \<Rightarrow> TieredStorageManager \<Rightarrow> TieredStorageManager" where
  "AddUsed t sz m = m\<lparr>used_bytes := (used_bytes m)(t := u64_add (used_bytes m t) sz)\<rparr>"

definition RemoveLocked :: "BlockKey \<Rightarrow> TieredStorageManager \<Rightarrow> TieredStorageManager" where
  "RemoveLocked key m =
     (case mgr_blocks m key of
        None \<Rightarrow> m
      | Some b \<Rightarrow>
          (let entry = sb_entry b; t = te_tier entry;
               m1 = (if fastest_tier_cache m = Some t
                     then (if \<not> s3_in_main b
                           then m\<lparr>s3_small_used_bytes := u64_sub (s3_small_used_bytes m) (te_size_bytes entry)\<rparr>
                           else m)
                     else IndexErase entry m);
               m2 = AccountErase entry m1
           in m2\<lparr>used_bytes := (used_bytes m2)(t := u64_sub (used_bytes m2 t) (te_size_bytes entry)),
                 mgr_blocks := (mgr_blocks m2)(key := None)\<rparr>))"

section \<open>Ghost queue\<close>

fun ghost_trim :: "BlockKey set \<Rightarrow> BlockKey list \<Rightarrow> BlockKey set \<times> BlockKey list" where
  "ghost_trim ghost [] = (ghost, [])"
| "ghost_trim ghost (k # fifo) =
     (if kGhostCapacity < length (k # fifo) then ghost_trim (ghost - {k}) fifo else (ghost, k # fifo))"

definition GhostInsert :: "BlockKey \<Rightarrow> TieredStorageManager \<Rightarrow> TieredStorageManager" where
  "GhostInsert key m =
     (if key \<in> mgr_ghost m then m
      else
        (let (ghost, fifo) = ghost_trim (insert key (mgr_ghost m)) (ghost_fifo m @ [key])
         in m\<lparr>mgr_ghost := ghost, ghost_fifo := fifo\<rparr>))"

definition GhostConsume :: "BlockKey \<Rightarrow> TieredStorageManager \<Rightarrow> bool \<times> TieredStorageManager" where
  "GhostConsume key m =
     (if key \<in> mgr_ghost m then (True, m\<lparr>mgr_ghost := mgr_ghost m - {key}\<rparr>) else (False, m))"

section \<open>Victims\<close>

text \<open>The frequencies of the queued keys, for the termination of the loop below.\<close>

definition block_freq :: "TieredStorageManager \<Rightarrow> BlockKey \<Rightarrow> nat" where
  "block_freq m key = (case mgr_blocks m key of None \<Rightarrow> 0 | Some b \<Rightarrow> s3_freq b)"

definition s3_work :: "TieredStorageManager \<Rightarrow> nat" where
  "s3_work m = 2 * length (s3_small_fifo m) + length (s3_main_fifo m) +
     (\<Sum>k \<in> set (s3_small_fifo m @ s3_main_fifo m). block_freq m k)"

text \<open>Whether the key at the head of a queue still belongs to it.\<close>

definition live_in :: "bool \<Rightarrow> Tier \<Rightarrow> BlockKey \<Rightarrow> TieredStorageManager \<Rightarrow> StoredBlock option" where
  "live_in main fast key m =
     (case mgr_blocks m key of
        None \<Rightarrow> None
      | Some b \<Rightarrow> if te_tier (sb_entry b) \<noteq> fast \<or> s3_in_main b \<noteq> main then None else Some b)"

text \<open>A reused block of the small queue moves to the main queue; one of the main queue goes to its end.\<close>

definition s3_promote :: "BlockKey \<Rightarrow> StoredBlock \<Rightarrow> TieredStorageManager \<Rightarrow> TieredStorageManager" where
  "s3_promote key b m =
     m\<lparr>mgr_blocks := (mgr_blocks m)(key \<mapsto> b\<lparr>s3_in_main := True, s3_freq := 0\<rparr>),
       s3_small_used_bytes := u64_sub (s3_small_used_bytes m) (te_size_bytes (sb_entry b)),
       s3_main_fifo := s3_main_fifo m @ [key]\<rparr>"

definition s3_requeue :: "BlockKey \<Rightarrow> StoredBlock \<Rightarrow> TieredStorageManager \<Rightarrow> TieredStorageManager" where
  "s3_requeue key b m =
     m\<lparr>mgr_blocks := (mgr_blocks m)(key \<mapsto> b\<lparr>s3_freq := s3_freq b - 1\<rparr>),
       s3_main_fifo := s3_main_fifo m @ [key]\<rparr>"

definition pop_small :: "TieredStorageManager \<Rightarrow> TieredStorageManager" where
  "pop_small m = m\<lparr>s3_small_fifo := tl (s3_small_fifo m)\<rparr>"

definition pop_main :: "TieredStorageManager \<Rightarrow> TieredStorageManager" where
  "pop_main m = m\<lparr>s3_main_fifo := tl (s3_main_fifo m)\<rparr>"

definition s3_from_small :: "Tier \<Rightarrow> TieredStorageManager \<Rightarrow> bool" where
  "s3_from_small fast m \<longleftrightarrow>
     (CapacityOf (mgr_config m) fast div 10 < s3_small_used_bytes m \<and> s3_small_fifo m \<noteq> []) \<or> s3_main_fifo m = []"

lemma sum_mono_set:
  assumes "A \<subseteq> B" "finite B" "\<And>k. k \<in> A \<Longrightarrow> f k \<le> g k"
  shows "sum f A \<le> (sum g B :: nat)"
proof -
  have "sum f A \<le> sum g A" using assms(3) by (rule sum_mono)
  also have "\<dots> \<le> sum g B" using assms(1,2) by (intro sum_mono2) simp_all
  finally show ?thesis .
qed

lemma live_in_Some:
  "live_in main fast key m = Some b \<longleftrightarrow>
     mgr_blocks m key = Some b \<and> te_tier (sb_entry b) = fast \<and> s3_in_main b = main"
  by (auto simp: live_in_def split: option.splits)

lemma s3_work_small:
  assumes "s3_small_fifo m = key # rest" "set rest' \<subseteq> set (key # s3_main_fifo m)"
    and "length rest' \<le> Suc (length (s3_main_fifo m))" "s3_small_fifo m' = rest" "s3_main_fifo m' = rest'"
    and "\<And>k. block_freq m' k \<le> block_freq m k"
  shows "s3_work m' < s3_work m"
proof -
  have "sum (block_freq m') (set (s3_small_fifo m' @ s3_main_fifo m')) \<le> sum (block_freq m) (set (s3_small_fifo m @ s3_main_fifo m))"
    using assms by (intro sum_mono_set) auto
  with assms show ?thesis by (simp add: s3_work_def)
qed

lemma s3_work_main:
  assumes "s3_main_fifo m = key # rest" "s3_small_fifo m' = s3_small_fifo m"
    and "s3_main_fifo m' = rest \<or> s3_main_fifo m' = rest @ [key] \<and> block_freq m' key < block_freq m key"
    and "\<And>k. block_freq m' k \<le> block_freq m k"
  shows "s3_work m' < s3_work m"
  using assms(3)
proof
  assume r: "s3_main_fifo m' = rest"
  have "sum (block_freq m') (set (s3_small_fifo m' @ s3_main_fifo m')) \<le> sum (block_freq m) (set (s3_small_fifo m @ s3_main_fifo m))"
    using assms r by (intro sum_mono_set) auto
  with assms r show ?thesis by (simp add: s3_work_def)
next
  assume r: "s3_main_fifo m' = rest @ [key] \<and> block_freq m' key < block_freq m key"
  then have "sum (block_freq m') (set (s3_small_fifo m @ key # rest)) < sum (block_freq m) (set (s3_small_fifo m @ key # rest))"
    using assms(4) by (intro sum_strict_mono_ex1) auto
  with assms r show ?thesis by (simp add: s3_work_def insert_commute)
qed

lemmas s3_moves = s3_promote_def s3_requeue_def pop_small_def pop_main_def

lemma block_freq_moves [simp]:
  "block_freq (pop_small m) k = block_freq m k" "block_freq (pop_main m) k = block_freq m k"
  "block_freq (s3_promote key b m) k = (if k = key then 0 else block_freq m k)"
  "block_freq (s3_requeue key b m) k = (if k = key then s3_freq b - 1 else block_freq m k)"
  by (simp_all add: s3_moves block_freq_def)

lemma fifo_moves [simp]:
  "s3_small_fifo (pop_small m) = tl (s3_small_fifo m)" "s3_main_fifo (pop_small m) = s3_main_fifo m"
  "s3_small_fifo (pop_main m) = s3_small_fifo m" "s3_main_fifo (pop_main m) = tl (s3_main_fifo m)"
  "s3_small_fifo (s3_promote key b m) = s3_small_fifo m" "s3_main_fifo (s3_promote key b m) = s3_main_fifo m @ [key]"
  "s3_small_fifo (s3_requeue key b m) = s3_small_fifo m" "s3_main_fifo (s3_requeue key b m) = s3_main_fifo m @ [key]"
  "mgr_blocks (pop_small m) = mgr_blocks m" "mgr_blocks (pop_main m) = mgr_blocks m"
  by (simp_all add: s3_moves)

lemma s3_work_moves:
  "s3_small_fifo m \<noteq> [] \<Longrightarrow> s3_work (pop_small m) < s3_work m"
  "s3_small_fifo m \<noteq> [] \<Longrightarrow> s3_work (s3_promote (hd (s3_small_fifo m)) b (pop_small m)) < s3_work m"
  "s3_main_fifo m \<noteq> [] \<Longrightarrow> s3_work (pop_main m) < s3_work m"
  "s3_main_fifo m \<noteq> [] \<Longrightarrow> mgr_blocks m (hd (s3_main_fifo m)) = Some b \<Longrightarrow> 0 < s3_freq b \<Longrightarrow>
     s3_work (s3_requeue (hd (s3_main_fifo m)) b (pop_main m)) < s3_work m"
proof -
  assume "s3_small_fifo m \<noteq> []"
  then have s: "s3_small_fifo m = hd (s3_small_fifo m) # tl (s3_small_fifo m)" by simp
  show "s3_work (pop_small m) < s3_work m" by (rule s3_work_small [OF s]) auto
  show "s3_work (s3_promote (hd (s3_small_fifo m)) b (pop_small m)) < s3_work m"
    by (rule s3_work_small [OF s]) auto
next
  assume "s3_main_fifo m \<noteq> []"
  then have s: "s3_main_fifo m = hd (s3_main_fifo m) # tl (s3_main_fifo m)" by simp
  show "s3_work (pop_main m) < s3_work m" by (rule s3_work_main [OF s]) auto
  assume "mgr_blocks m (hd (s3_main_fifo m)) = Some b" "0 < s3_freq b"
  then have "block_freq m (hd (s3_main_fifo m)) = s3_freq b" "0 < s3_freq b" by (simp_all add: block_freq_def)
  then show "s3_work (s3_requeue (hd (s3_main_fifo m)) b (pop_main m)) < s3_work m"
    by (intro s3_work_main [OF s]) auto
qed

function PickS3Victim :: "Tier \<Rightarrow> TieredStorageManager \<Rightarrow> BlockKey option \<times> TieredStorageManager" where
  "PickS3Victim fast m =
     (if s3_from_small fast m
      then (if s3_small_fifo m = [] then (None, m)
            else
              (let key = hd (s3_small_fifo m); m1 = pop_small m
               in case live_in False fast key m1 of
                    None \<Rightarrow> PickS3Victim fast m1
                  | Some b \<Rightarrow>
                      if 0 < s3_freq b then PickS3Victim fast (s3_promote key b m1)
                      else (Some key, GhostInsert key m1)))
      else
        (let key = hd (s3_main_fifo m); m1 = pop_main m
         in case live_in True fast key m1 of
              None \<Rightarrow> PickS3Victim fast m1
            | Some b \<Rightarrow>
                if 0 < s3_freq b then PickS3Victim fast (s3_requeue key b m1)
                else (Some key, m1)))"
  by pat_completeness auto

termination
  by (relation "measure (\<lambda>(fast, m). s3_work m)") (auto simp: s3_from_small_def live_in_Some s3_work_moves)

declare PickS3Victim.simps [simp del]

text \<open>The least (recency, key) pair of a slower tier.\<close>

definition PickVictim :: "Tier \<Rightarrow> TieredStorageManager \<Rightarrow> BlockKey option" where
  "PickVictim tier m =
     (if victim_index m tier = {} then None else Some (snd (Min (victim_index m tier))))"

definition TenantShareOf :: "nat \<Rightarrow> Tier \<Rightarrow> TieredStorageManager \<Rightarrow> pyfloat" where
  "TenantShareOf tenant tier m =
     (let total = foldl (\<lambda>acc iw. fadd acc (snd iw)) 0 (tenant_weights (mgr_config m))
      in if total \<le> 0 then 0
         else
           (let weight = value_or 0 (map_of (tenant_weights (mgr_config m)) tenant)
            in fdiv (fmul (int_to_float (int (CapacityOf (mgr_config m) tier))) weight) total))"

definition worst_step ::
  "Tier \<Rightarrow> TieredStorageManager \<Rightarrow> pyfloat \<times> victim_set option \<Rightarrow> nat \<times> victim_set \<Rightarrow> pyfloat \<times> victim_set option"
where
  "worst_step tier m acc ti =
     (let (worst_overage, worst_index) = acc; (tenant, index) = ti
      in if index = {} then acc
         else
           (let used = int_to_float (int (value_or 0 (tenant_used m tier tenant)));
                overage = fl (used - TenantShareOf tenant tier m)
            in if worst_overage < overage then (overage, Some index) else acc))"

definition PickQuotaVictim :: "Tier \<Rightarrow> TieredStorageManager \<Rightarrow> BlockKey option" where
  "PickQuotaVictim tier m =
     (case snd (foldl (worst_step tier m) (0, None) (tenant_victim_index m tier)) of
        None \<Rightarrow> None
      | Some index \<Rightarrow> Some (snd (Min index)))"

text \<open>The choice of a victim in the loop of \<^verbatim>\<open>EnforceCapacityLocked\<close>.\<close>

definition choose_victim :: "Tier \<Rightarrow> TieredStorageManager \<Rightarrow> BlockKey option \<times> TieredStorageManager" where
  "choose_victim tier m =
     (case (if QuotaEnabled m then PickQuotaVictim tier m else None) of
        Some key \<Rightarrow> (Some key, m)
      | None \<Rightarrow> if fastest_tier_cache m = Some tier then PickS3Victim tier m else (PickVictim tier m, m))"

section \<open>Capacity\<close>

definition tick :: "TieredStorageManager \<Rightarrow> TieredStorageManager" where
  "tick m = m\<lparr>logical_clock := u64_add (logical_clock m) 1\<rparr>"

text \<open>A victim enters a slower tier with fresh recency.\<close>

definition demote :: "Tier \<Rightarrow> StoredBlock \<Rightarrow> TieredStorageManager \<Rightarrow> TieredStorageManager" where
  "demote slower b m =
     (let block = sb_block b; sz = BlockSizeBytes block;
          stats = (te_stats (sb_entry b))\<lparr>last_access_ts := logical_clock m\<rparr>;
          entry = \<lparr>te_key = kb_key block, te_tier = slower, te_size_bytes = sz, te_stats = stats,
                   te_tenant_id = te_tenant_id (sb_entry b)\<rparr>;
          m1 = m\<lparr>mgr_blocks := (mgr_blocks m)(kb_key block \<mapsto>
                   \<lparr>sb_block = block, sb_entry = entry, s3_freq = 0, s3_in_main = False\<rparr>)\<rparr>
      in AddUsed slower sz (AccountInsert entry (IndexInsert entry m1)))"

partial_function (option) EnforceCapacity ::
  "Tier \<Rightarrow> TieredStorageManager \<Rightarrow> (status \<times> TieredStorageManager) option" where
  "EnforceCapacity tier m =
     (if used_bytes m tier \<le> EvictionThresholdOf (mgr_config m) tier then Some (Ok, m)
      else
        (let (victim_key, m1) = choose_victim tier m
         in case victim_key of
              None \<Rightarrow> Some (Failed kInternal, m1)
            | Some key \<Rightarrow>
                (case mgr_blocks m1 key of
                   None \<Rightarrow> Some (Undefined, m1)
                 | Some b \<Rightarrow>
                     (let m2 = RemoveLocked key m1
                      in case NextSlowerConfigured (mgr_config m2) tier of
                           None \<Rightarrow> EnforceCapacity tier m2
                         | Some slower \<Rightarrow>
                             (let m3 = tick m2
                              in if BlockSizeBytes (sb_block b) \<le> CapacityOf (mgr_config m3) slower
                                 then Option.bind (EnforceCapacity slower (demote slower b m3)) (\<lambda>(st, m4).
                                        if st = Ok then EnforceCapacity tier m4 else Some (st, m4))
                                 else EnforceCapacity tier m3)))))"

section \<open>Operations\<close>

definition fresh_stats :: AccessStats where
  "fresh_stats = \<lparr>access_count = 0, last_access_ts = 0\<rparr>"

text \<open>The insertion at the end of \<^verbatim>\<open>PlaceLocked\<close> and of a promoting read.\<close>

definition insert_stored :: "StoredBlock \<Rightarrow> TieredStorageManager \<Rightarrow> TieredStorageManager" where
  "insert_stored stored m =
     (let entry = sb_entry stored; key = te_key entry; tier = te_tier entry; sz = te_size_bytes entry;
          is_fastest = (fastest_tier_cache m = Some tier);
          m1 = (if is_fastest
                then if s3_in_main stored then m\<lparr>s3_main_fifo := s3_main_fifo m @ [key]\<rparr>
                     else m\<lparr>s3_small_fifo := s3_small_fifo m @ [key],
                            s3_small_used_bytes := u64_add (s3_small_used_bytes m) sz\<rparr>
                else m);
          m2 = m1\<lparr>mgr_blocks := (mgr_blocks m1)(key \<mapsto> stored)\<rparr>;
          m3 = (if \<not> is_fastest then IndexInsert entry m2 else m2)
      in AddUsed tier sz (AccountInsert entry m3))"

definition PlaceLocked ::
  "KVCacheBlock \<Rightarrow> Tier \<Rightarrow> nat \<Rightarrow> TieredStorageManager \<Rightarrow> (status \<times> TieredStorageManager) option" where
  "PlaceLocked block tier tenant_id m =
     (let sz = BlockSizeBytes block; key = kb_key block
      in if EvictionThresholdOf (mgr_config m) tier < sz then Some (Failed kOutOfCapacity, m)
         else
           (let (stats0, m1) = (case mgr_blocks m key of
                                  None \<Rightarrow> (fresh_stats, m)
                                | Some b \<Rightarrow> (te_stats (sb_entry b), RemoveLocked key m));
                m2 = tick m1;
                count = u64_add (access_count stats0) 1;
                (ghost_hit, m3) = GhostConsume key m2;
                stats = \<lparr>access_count = (if count = 1 \<and> ghost_hit then 2 else count),
                         last_access_ts = logical_clock m2\<rparr>;
                is_fastest = (fastest_tier_cache m3 = Some tier);
                stored = \<lparr>sb_block = block,
                          sb_entry = \<lparr>te_key = key, te_tier = tier, te_size_bytes = sz, te_stats = stats,
                                      te_tenant_id = tenant_id\<rparr>,
                          s3_freq = 0,
                          s3_in_main = (is_fastest \<and> (ghost_hit \<or> 1 < access_count stats))\<rparr>
            in EnforceCapacity tier (insert_stored stored m3)))"

definition ManagerWrite ::
  "KVCacheBlock \<Rightarrow> Tier \<Rightarrow> nat \<Rightarrow> TieredStorageManager \<Rightarrow> (status \<times> TieredStorageManager) option" where
  "ManagerWrite block target tenant_id m =
     (case ResolveConfiguredTier (mgr_config m) target of
        None \<Rightarrow> Some (Failed kInvalidArgument, m)
      | Some tier \<Rightarrow> PlaceLocked block tier tenant_id m)"

text \<open>A hit refreshes the statistics of the block in place.\<close>

definition touch_entry :: "TieredStorageManager \<Rightarrow> TierEntry \<Rightarrow> TierEntry" where
  "touch_entry m entry =
     entry\<lparr>te_stats := \<lparr>access_count = u64_add (access_count (te_stats entry)) 1,
                        last_access_ts = logical_clock m\<rparr>\<rparr>"

definition refresh_fast :: "BlockKey \<Rightarrow> StoredBlock \<Rightarrow> TieredStorageManager \<Rightarrow> TieredStorageManager" where
  "refresh_fast key b m =
     (let m1 = tick (AccountErase (sb_entry b) m);
          entry = touch_entry m1 (sb_entry b);
          m2 = m1\<lparr>mgr_blocks := (mgr_blocks m1)(key \<mapsto> b\<lparr>sb_entry := entry, s3_freq := min (s3_freq b + 1) 3\<rparr>)\<rparr>
      in AccountInsert entry m2)"

definition refresh_slow :: "BlockKey \<Rightarrow> StoredBlock \<Rightarrow> TieredStorageManager \<Rightarrow> TieredStorageManager" where
  "refresh_slow key b m =
     (let m1 = tick (AccountErase (sb_entry b) (IndexErase (sb_entry b) m));
          entry = touch_entry m1 (sb_entry b);
          m2 = m1\<lparr>mgr_blocks := (mgr_blocks m1)(key \<mapsto> b\<lparr>sb_entry := entry\<rparr>)\<rparr>
      in AccountInsert entry (IndexInsert entry m2))"

definition promote_read ::
  "BlockKey \<Rightarrow> Tier \<Rightarrow> StoredBlock \<Rightarrow> TieredStorageManager \<Rightarrow> ((StatusCode + KVCacheBlock) \<times> TieredStorageManager) option"
where
  "promote_read key fast b m =
     (let entry = \<lparr>te_key = key, te_tier = fast, te_size_bytes = te_size_bytes (sb_entry b),
                   te_stats = te_stats (sb_entry b), te_tenant_id = te_tenant_id (sb_entry b)\<rparr>;
          stored = \<lparr>sb_block = sb_block b, sb_entry = entry, s3_freq = 0, s3_in_main = True\<rparr>
      in Option.bind (EnforceCapacity fast (insert_stored stored (RemoveLocked key m))) (\<lambda>(st, m').
           Some (case st of
                   Failed code \<Rightarrow> (Inl code, m')
                 | Undefined \<Rightarrow> (Inl kInternal, m')
                 | Ok \<Rightarrow> (case mgr_blocks m' key of
                           None \<Rightarrow> (Inl kInternal, m')
                         | Some b' \<Rightarrow> (Inr (sb_block b'), m')))))"

definition ManagerRead ::
  "BlockKey \<Rightarrow> TieredStorageManager \<Rightarrow> ((StatusCode + KVCacheBlock) \<times> TieredStorageManager) option" where
  "ManagerRead key m =
     (case mgr_blocks m key of
        None \<Rightarrow> Some (Inl kNotFound, m)
      | Some b \<Rightarrow>
          if fastest_tier_cache m = Some (te_tier (sb_entry b))
          then Some (Inr (sb_block b), refresh_fast key b m)
          else
            (let m1 = refresh_slow key b m; b1 = the (mgr_blocks m1 key)
             in case fastest_tier_cache m1 of
                  None \<Rightarrow> Some (Inr (sb_block b1), m1)
                | Some fast \<Rightarrow>
                    if te_size_bytes (sb_entry b1) \<le> EvictionThresholdOf (mgr_config m1) fast
                    then promote_read key fast b1 m1
                    else Some (Inr (sb_block b1), m1)))"

definition ManagerLocate :: "BlockKey \<Rightarrow> TieredStorageManager \<Rightarrow> Tier option" where
  "ManagerLocate key m = map_option (\<lambda>b. te_tier (sb_entry b)) (mgr_blocks m key)"

fun prefetch_blocks ::
  "Tier \<Rightarrow> BlockKey list \<Rightarrow> TieredStorageManager \<Rightarrow> (status \<times> TieredStorageManager) option" where
  "prefetch_blocks fastest [] m = Some (Ok, m)"
| "prefetch_blocks fastest (key # rest) m =
     (case mgr_blocks m key of
        None \<Rightarrow> prefetch_blocks fastest rest m
      | Some b \<Rightarrow>
          if te_tier (sb_entry b) = fastest
             \<or> EvictionThresholdOf (mgr_config m) fastest < BlockSizeBytes (sb_block b)
          then prefetch_blocks fastest rest m
          else Option.bind (PlaceLocked (sb_block b) fastest (te_tenant_id (sb_entry b)) m) (\<lambda>(st, m').
                 if st = Ok then prefetch_blocks fastest rest m' else Some (st, m')))"

definition ManagerPrefetch ::
  "BlockKey list \<Rightarrow> TieredStorageManager \<Rightarrow> (status \<times> TieredStorageManager) option" where
  "ManagerPrefetch predicted m =
     (case ResolveConfiguredTier (mgr_config m) kHBM of
        None \<Rightarrow> Some (Failed kInvalidArgument, m)
      | Some fastest \<Rightarrow> prefetch_blocks fastest predicted m)"

text \<open>Occupancy of a tier as (used, capacity), and the statistics of a block.\<close>

definition ManagerOccupancy :: "Tier \<Rightarrow> TieredStorageManager \<Rightarrow> nat \<times> nat" where
  "ManagerOccupancy tier m = (used_bytes m tier, CapacityOf (mgr_config m) tier)"

definition ManagerStats :: "BlockKey \<Rightarrow> TieredStorageManager \<Rightarrow> AccessStats option" where
  "ManagerStats key m = map_option (\<lambda>b. te_stats (sb_entry b)) (mgr_blocks m key)"

end
