(* ===== verification/Storage_Accounting.thy ===== *)
theory Storage_Accounting
  imports Storage_Manager
begin

text \<open>
  The invariant of the tiered store: what its byte counts, victim indices, tenant accounts and
  queues say about the block map, and that removing and inserting a block keeps it.
\<close>

abbreviation b_tier :: "StoredBlock \<Rightarrow> Tier" where "b_tier b \<equiv> te_tier (sb_entry b)"
abbreviation b_size :: "StoredBlock \<Rightarrow> nat" where "b_size b \<equiv> te_size_bytes (sb_entry b)"
abbreviation b_ts :: "StoredBlock \<Rightarrow> nat" where "b_ts b \<equiv> last_access_ts (te_stats (sb_entry b))"
abbreviation b_tenant :: "StoredBlock \<Rightarrow> nat" where "b_tenant b \<equiv> te_tenant_id (sb_entry b)"

type_synonym block_map = "BlockKey \<rightharpoonup> StoredBlock"

section \<open>Sums and orders over the block map\<close>

definition share :: "(StoredBlock \<Rightarrow> bool) \<Rightarrow> StoredBlock option \<Rightarrow> nat" where
  "share P ob = (case ob of None \<Rightarrow> 0 | Some b \<Rightarrow> if P b then b_size b else 0)"

definition bytes_where :: "block_map \<Rightarrow> (StoredBlock \<Rightarrow> bool) \<Rightarrow> nat" where
  "bytes_where B P = (\<Sum>k \<in> dom B. share P (B k))"

definition victims_where :: "block_map \<Rightarrow> (StoredBlock \<Rightarrow> bool) \<Rightarrow> victim_set" where
  "victims_where B P = {(b_ts b, k) | k b. B k = Some b \<and> P b}"

definition order_of :: "(StoredBlock \<Rightarrow> bool) \<Rightarrow> BlockKey \<Rightarrow> StoredBlock option \<Rightarrow> victim_set" where
  "order_of P k ob = (case ob of None \<Rightarrow> {} | Some b \<Rightarrow> if P b then {(b_ts b, k)} else {})"

lemma share_simps [simp]: "share P None = 0" "share P (Some b) = (if P b then b_size b else 0)"
  by (simp_all add: share_def)

lemma order_of_simps [simp]:
  "order_of P k None = {}" "order_of P k (Some b) = (if P b then {(b_ts b, k)} else {})"
  by (simp_all add: order_of_def)

lemma bytes_where_remove:
  assumes "finite (dom B)"
  shows "bytes_where B P = bytes_where (B(k := None)) P + share P (B k)"
proof (cases "k \<in> dom B")
  case True
  have "bytes_where B P = share P (B k) + (\<Sum>j \<in> dom B - {k}. share P (B j))"
    unfolding bytes_where_def using assms True by (rule sum.remove)
  also have "(\<Sum>j \<in> dom B - {k}. share P (B j)) = bytes_where (B(k := None)) P"
    unfolding bytes_where_def by (intro sum.cong) auto
  finally show ?thesis by simp
next
  case False
  then have "B(k := None) = B" by (intro ext) (simp add: domIff)
  with False show ?thesis by (simp add: domIff)
qed

lemma bytes_where_put:
  assumes "finite (dom B)"
  shows "bytes_where (B(k \<mapsto> b)) P = bytes_where (B(k := None)) P + (if P b then b_size b else 0)"
  using bytes_where_remove [of "B(k \<mapsto> b)" P k] assms by simp

lemma bytes_where_le:
  assumes "finite (dom B)" "B k = Some b" "P b"
  shows "b_size b \<le> bytes_where B P"
  using bytes_where_remove [OF assms(1), of P k] assms(2,3) by simp

lemma bytes_where_mono:
  assumes "\<And>b. P b \<Longrightarrow> Q b"
  shows "bytes_where B P \<le> bytes_where B Q"
  unfolding bytes_where_def using assms by (intro sum_mono) (auto simp: share_def split: option.splits)

lemma bytes_where_none: "(\<And>k b. B k = Some b \<Longrightarrow> \<not> P b) \<Longrightarrow> bytes_where B P = 0"
  unfolding bytes_where_def by (intro sum.neutral) (auto simp: share_def split: option.splits)

lemma victims_where_mem: "(ts, k) \<in> victims_where B P \<longleftrightarrow> (\<exists>b. B k = Some b \<and> P b \<and> ts = b_ts b)"
  by (auto simp: victims_where_def)

lemma victims_where_remove: "victims_where (B(k := None)) P = victims_where B P - order_of P k (B k)"
  by (auto simp: victims_where_mem order_of_def split: option.splits if_splits)

lemma victims_where_put:
  "victims_where (B(k \<mapsto> b)) P = victims_where (B(k := None)) P \<union> order_of P k (Some b)"
  by (auto simp: victims_where_mem split: if_splits)

lemma finite_victims_where: "finite (dom B) \<Longrightarrow> finite (victims_where B P)"
  by (rule finite_subset [of _ "(\<lambda>k. (b_ts (the (B k)), k)) ` dom B"]) (auto simp: victims_where_def image_iff Bex_def)

section \<open>Accounting relations\<close>

text \<open>Each relates one field of the manager to the block map.\<close>

definition used_rel :: "(Tier \<Rightarrow> nat) \<Rightarrow> block_map \<Rightarrow> bool" where
  "used_rel used B \<longleftrightarrow> (\<forall>t. used t = bytes_where B (\<lambda>b. b_tier b = t))"

definition small_rel :: "Tier option \<Rightarrow> nat \<Rightarrow> block_map \<Rightarrow> bool" where
  "small_rel fast n B \<longleftrightarrow> n = bytes_where B (\<lambda>b. fast = Some (b_tier b) \<and> \<not> s3_in_main b)"

definition index_rel :: "Tier option \<Rightarrow> (Tier \<Rightarrow> victim_set) \<Rightarrow> block_map \<Rightarrow> bool" where
  "index_rel fast index B \<longleftrightarrow> (\<forall>t. index t = victims_where B (\<lambda>b. b_tier b = t \<and> fast \<noteq> Some t))"

definition quota_rel :: "(Tier \<Rightarrow> nat \<rightharpoonup> nat) \<Rightarrow> (Tier \<Rightarrow> (nat \<times> victim_set) list) \<Rightarrow> block_map \<Rightarrow> bool" where
  "quota_rel U V B \<longleftrightarrow>
     (\<forall>t u. value_or 0 (U t u) = bytes_where B (\<lambda>b. b_tier b = t \<and> b_tenant b = u))
     \<and> (\<forall>t u. value_or {} (map_of (V t) u) = victims_where B (\<lambda>b. b_tier b = t \<and> b_tenant b = u))
     \<and> (\<forall>t. sorted_wrt (<) (map fst (V t)))"

lemma map_of_map_put [simp]: "map_of (map_put k v m) = (map_of m)(k \<mapsto> v)"
  by (induction k v m rule: map_put.induct) auto

lemma set_map_put: "fst ` set (map_put k v m) = insert k (fst ` set m)"
  by (induction k v m rule: map_put.induct) auto

lemma value_or_simps [simp]: "value_or d None = d" "value_or d (Some x) = x"
  by (simp_all add: value_or_def)

lemma sorted_map_put: "sorted_wrt (<) (map fst m) \<Longrightarrow> sorted_wrt (<) (map fst (map_put k v m))"
proof (induction k v m rule: map_put.induct)
  case (2 k v k' v' rest)
  then show ?case using set_map_put [of k v rest] by auto
qed simp

lemma sorted_erase_victim: "sorted_wrt (<) (map fst m) \<Longrightarrow> sorted_wrt (<) (map fst (erase_victim u v m))"
  by (auto simp: erase_victim_def sorted_map_put map_fst_delete sorted_wrt_filter split: option.splits)

lemma value_or_erase_victim:
  "value_or {} (map_of (erase_victim u v m) w) = value_or {} (map_of m w) - (if w = u then {v} else {})"
  by (auto simp: erase_victim_def AList.delete_conv split: option.splits)

lemma value_or_erase_used:
  "value_or 0 (erase_used u sz used w) = value_or 0 (used w) - (if w = u then sz else 0)"
  by (auto simp: erase_used_def split: option.splits)

section \<open>Removal and insertion of a block\<close>

lemma used_rel_remove:
  assumes "used_rel used B" "finite (dom B)" "B k = Some b"
  shows "used_rel (used(b_tier b := u64_sub (used (b_tier b)) (b_size b))) (B(k := None))"
  using assms bytes_where_remove [OF assms(2), of _ k] by (auto simp: used_rel_def)

lemma used_rel_put:
  assumes "used_rel used B" "finite (dom B)" "B k = None" "used (b_tier b) + b_size b < 2 ^ 64"
  shows "used_rel (used(b_tier b := u64_add (used (b_tier b)) (b_size b))) (B(k \<mapsto> b))"
  using assms bytes_where_put [OF assms(2), of k b] fun_upd_idem [of B k None]
  by (auto simp: used_rel_def u64_add_exact)

lemma small_rel_remove:
  assumes "small_rel fast n B" "finite (dom B)" "B k = Some b"
  shows "small_rel fast (if fast = Some (b_tier b) \<and> \<not> s3_in_main b then u64_sub n (b_size b) else n) (B(k := None))"
  using assms bytes_where_remove [OF assms(2), of _ k] by (auto simp: small_rel_def)

lemma small_rel_put:
  assumes "small_rel fast n B" "finite (dom B)" "B k = None" "n + b_size b < 2 ^ 64"
  shows "small_rel fast (if fast = Some (b_tier b) \<and> \<not> s3_in_main b then u64_add n (b_size b) else n) (B(k \<mapsto> b))"
  using assms bytes_where_put [OF assms(2), of k b] fun_upd_idem [of B k None]
  by (auto simp: small_rel_def u64_add_exact)

lemma index_rel_remove:
  assumes "index_rel fast index B" "B k = Some b"
  shows "index_rel fast (if fast = Some (b_tier b) then index
      else index(b_tier b := index (b_tier b) - {(b_ts b, k)})) (B(k := None))"
  using assms by (auto simp: index_rel_def victims_where_remove)

lemma index_rel_put:
  assumes "index_rel fast index B" "B k = None"
  shows "index_rel fast (if fast = Some (b_tier b) then index
      else index(b_tier b := insert (b_ts b, k) (index (b_tier b)))) (B(k \<mapsto> b))"
  using assms fun_upd_idem [of B k None] by (auto simp: index_rel_def victims_where_put)

lemma quota_rel_remove:
  assumes "quota_rel U V B" "finite (dom B)" "B k = Some b"
  defines "t \<equiv> b_tier b" and "u \<equiv> b_tenant b"
  shows "quota_rel (U(t := erase_used u (b_size b) (U t))) (V(t := erase_victim u (b_ts b, k) (V t))) (B(k := None))"
  using assms(1,3) bytes_where_remove [OF assms(2), of _ k]
  by (auto simp: quota_rel_def t_def u_def value_or_erase_used value_or_erase_victim sorted_erase_victim victims_where_remove)

lemma quota_rel_put:
  fixes b :: StoredBlock
  assumes "quota_rel U V B" "finite (dom B)" "B k = None"
  defines "t \<equiv> b_tier b" and "u \<equiv> b_tenant b"
  assumes "value_or 0 (U t u) + b_size b < 2 ^ 64"
  shows "quota_rel (U(t := (U t)(u \<mapsto> u64_add (value_or 0 (U t u)) (b_size b))))
    (V(t := map_put u (insert (b_ts b, k) (value_or {} (map_of (V t) u))) (V t))) (B(k \<mapsto> b))"
  using assms(1,3,6) bytes_where_put [OF assms(2), of k b] fun_upd_idem [of B k None]
  by (auto simp: quota_rel_def t_def u_def u64_add_exact sorted_map_put victims_where_put)

section \<open>The invariant\<close>

text \<open>Capacities a \<^verbatim>\<open>double\<close> represents exactly, and a high-water ratio that is not negative.\<close>

definition config_ok :: "TierConfig \<Rightarrow> bool" where
  "config_ok c \<longleftrightarrow> 0 \<le> high_water_ratio c \<and> (\<forall>t. CapacityOf c t \<le> 2 ^ 53)"

definition block_ok :: "TierConfig \<Rightarrow> BlockKey \<Rightarrow> StoredBlock \<Rightarrow> bool" where
  "block_ok c k b \<longleftrightarrow> te_key (sb_entry b) = k \<and> kb_key (sb_block b) = k
     \<and> b_size b = BlockSizeBytes (sb_block b)
     \<and> configured c (b_tier b) \<and> b_size b \<le> CapacityOf c (b_tier b)"

definition blocks_ok :: "TierConfig \<Rightarrow> block_map \<Rightarrow> bool" where
  "blocks_ok c B \<longleftrightarrow> finite (dom B) \<and> (\<forall>k b. B k = Some b \<longrightarrow> block_ok c k b)"

definition ghost_ok :: "TieredStorageManager \<Rightarrow> bool" where
  "ghost_ok m \<longleftrightarrow> mgr_ghost m \<subseteq> set (ghost_fifo m) \<and> length (ghost_fifo m) \<le> kGhostCapacity"

definition mgr_core :: "TieredStorageManager \<Rightarrow> bool" where
  "mgr_core m \<longleftrightarrow> config_ok (mgr_config m)
     \<and> fastest_tier_cache m = ResolveConfiguredTier (mgr_config m) kHBM
     \<and> blocks_ok (mgr_config m) (mgr_blocks m)
     \<and> used_rel (used_bytes m) (mgr_blocks m)
     \<and> small_rel (fastest_tier_cache m) (s3_small_used_bytes m) (mgr_blocks m)
     \<and> index_rel (fastest_tier_cache m) (victim_index m) (mgr_blocks m)
     \<and> (QuotaEnabled m \<longrightarrow> quota_rel (tenant_used m) (tenant_victim_index m) (mgr_blocks m))
     \<and> ghost_ok m"

text \<open>Every block of the fastest tier outside \<open>X\<close> is in the queue it belongs to.\<close>

definition queues_ok :: "BlockKey set \<Rightarrow> TieredStorageManager \<Rightarrow> bool" where
  "queues_ok X m \<longleftrightarrow> (\<forall>k b. mgr_blocks m k = Some b \<and> fastest_tier_cache m = Some (b_tier b) \<and> k \<notin> X \<longrightarrow>
     (s3_in_main b \<longrightarrow> k \<in> set (s3_main_fifo m)) \<and> (\<not> s3_in_main b \<longrightarrow> k \<in> set (s3_small_fifo m)))"

definition mgr_inv :: "TieredStorageManager \<Rightarrow> bool" where
  "mgr_inv m \<longleftrightarrow> mgr_core m \<and> queues_ok {} m"

definition fits :: "TieredStorageManager \<Rightarrow> Tier \<Rightarrow> bool" where
  "fits m t \<longleftrightarrow> used_bytes m t \<le> EvictionThresholdOf (mgr_config m) t"

lemma mgr_coreD:
  assumes "mgr_core m"
  shows "config_ok (mgr_config m)" "fastest_tier_cache m = ResolveConfiguredTier (mgr_config m) kHBM"
    and "finite (dom (mgr_blocks m))" "mgr_blocks m k = Some b \<Longrightarrow> block_ok (mgr_config m) k b"
    and "used_rel (used_bytes m) (mgr_blocks m)"
    and "small_rel (fastest_tier_cache m) (s3_small_used_bytes m) (mgr_blocks m)"
    and "index_rel (fastest_tier_cache m) (victim_index m) (mgr_blocks m)"
    and "QuotaEnabled m \<Longrightarrow> quota_rel (tenant_used m) (tenant_victim_index m) (mgr_blocks m)"
    and "ghost_ok m"
  using assms by (auto simp: mgr_core_def blocks_ok_def)

lemma threshold_le_capacity:
  assumes "config_ok c"
  shows "EvictionThresholdOf c t \<le> CapacityOf c t"
proof -
  have "int_to_float (int (CapacityOf c t)) = of_nat (CapacityOf c t)"
    using assms f64.rnd_int [of "int (CapacityOf c t)"] by (simp add: config_ok_def int_to_float_def)
  then have "\<lfloor>min (int_to_float (int (CapacityOf c t))) (fmul (int_to_float (int (CapacityOf c t))) (high_water_ratio c))\<rfloor>
      \<le> int (CapacityOf c t)"
    by (simp add: floor_le_iff min_def)
  then show ?thesis by (simp add: EvictionThresholdOf_def Let_def)
qed

lemma unconfigured_empty:
  assumes "mgr_core m" "\<not> configured (mgr_config m) t"
  shows "used_bytes m t = 0"
  using mgr_coreD(4,5) [OF assms(1)] assms(2) bytes_where_none [of "mgr_blocks m" "\<lambda>b. b_tier b = t"]
  by (auto simp: used_rel_def block_ok_def)

lemma unconfigured_fits: "mgr_core m \<Longrightarrow> \<not> configured (mgr_config m) t \<Longrightarrow> fits m t"
  by (simp add: fits_def unconfigured_empty)

lemma fastest_configured: "ResolveConfiguredTier c t = Some t' \<Longrightarrow> configured c t'"
  by (auto simp: ResolveConfiguredTier_def find_Some_iff)

section \<open>Frames of the helpers\<close>

lemma QuotaEnabled_cong: "mgr_config m = mgr_config m' \<Longrightarrow> QuotaEnabled m = QuotaEnabled m'"
  by (simp add: QuotaEnabled_def)

lemma QuotaEnabled_upd [simp]:
  "QuotaEnabled (m\<lparr>mgr_blocks := B\<rparr>) = QuotaEnabled m" "QuotaEnabled (m\<lparr>victim_index := I\<rparr>) = QuotaEnabled m"
  "QuotaEnabled (m\<lparr>s3_small_used_bytes := n\<rparr>) = QuotaEnabled m" "QuotaEnabled (m\<lparr>used_bytes := u\<rparr>) = QuotaEnabled m"
  "QuotaEnabled (m\<lparr>s3_small_fifo := q\<rparr>) = QuotaEnabled m" "QuotaEnabled (m\<lparr>s3_main_fifo := q\<rparr>) = QuotaEnabled m"
  "QuotaEnabled (m\<lparr>logical_clock := c\<rparr>) = QuotaEnabled m"
  by (simp_all add: QuotaEnabled_def)

lemma RemoveLocked_fields:
  assumes "mgr_blocks m key = Some b"
  defines "m' \<equiv> RemoveLocked key m" and "t \<equiv> b_tier b" and "u \<equiv> b_tenant b"
  shows "mgr_config m' = mgr_config m" "fastest_tier_cache m' = fastest_tier_cache m"
    and "mgr_blocks m' = (mgr_blocks m)(key := None)"
    and "used_bytes m' = (used_bytes m)(t := u64_sub (used_bytes m t) (b_size b))"
    and "s3_small_used_bytes m' = (if fastest_tier_cache m = Some t \<and> \<not> s3_in_main b
           then u64_sub (s3_small_used_bytes m) (b_size b) else s3_small_used_bytes m)"
    and "victim_index m' = (if fastest_tier_cache m = Some t then victim_index m
           else (victim_index m)(t := victim_index m t - {victim_order (sb_entry b)}))"
    and "QuotaEnabled m \<Longrightarrow> tenant_used m' = (tenant_used m)(t := erase_used u (b_size b) (tenant_used m t))"
    and "QuotaEnabled m \<Longrightarrow> tenant_victim_index m' =
           (tenant_victim_index m)(t := erase_victim u (victim_order (sb_entry b)) (tenant_victim_index m t))"
    and "mgr_ghost m' = mgr_ghost m" "ghost_fifo m' = ghost_fifo m"
    and "s3_small_fifo m' = s3_small_fifo m" "s3_main_fifo m' = s3_main_fifo m"
    and "logical_clock m' = logical_clock m"
  unfolding m'_def t_def u_def using assms(1)
  by (simp_all add: RemoveLocked_def Let_def AccountErase_def IndexErase_def)

lemma RemoveLocked_core:
  assumes "mgr_core m" "mgr_blocks m key = Some b"
  shows "mgr_core (RemoveLocked key m)"
proof -
  note c = mgr_coreD [OF assms(1)]
  note f = RemoveLocked_fields [OF assms(2)]
  have k: "victim_order (sb_entry b) = (b_ts b, key)"
    using c(4) [OF assms(2)] by (simp add: victim_order_def block_ok_def)
  have "blocks_ok (mgr_config m) ((mgr_blocks m)(key := None))"
    using c(3,4) by (auto simp: blocks_ok_def split: if_splits)
  moreover have "QuotaEnabled (RemoveLocked key m) = QuotaEnabled m" by (rule QuotaEnabled_cong) (rule f(1))
  ultimately show ?thesis
    unfolding mgr_core_def f(1-6) k
    using c(1,2,9) used_rel_remove [OF c(5) c(3) assms(2)] small_rel_remove [OF c(6) c(3) assms(2)]
      index_rel_remove [OF c(7) assms(2)] quota_rel_remove [OF c(8) c(3) assms(2)] f(7,8)
    by (simp add: ghost_ok_def f(9,10) k)
qed

lemma insert_stored_fields:
  fixes stored :: StoredBlock and m :: TieredStorageManager
  defines "t \<equiv> b_tier stored" and "u \<equiv> b_tenant stored" and "key \<equiv> te_key (sb_entry stored)"
  defines "m' \<equiv> insert_stored stored m"
  shows "mgr_config m' = mgr_config m" "fastest_tier_cache m' = fastest_tier_cache m"
    and "mgr_blocks m' = (mgr_blocks m)(key \<mapsto> stored)"
    and "used_bytes m' = (used_bytes m)(t := u64_add (used_bytes m t) (b_size stored))"
    and "s3_small_used_bytes m' = (if fastest_tier_cache m = Some t \<and> \<not> s3_in_main stored
           then u64_add (s3_small_used_bytes m) (b_size stored) else s3_small_used_bytes m)"
    and "victim_index m' = (if fastest_tier_cache m = Some t then victim_index m
           else (victim_index m)(t := insert (victim_order (sb_entry stored)) (victim_index m t)))"
    and "QuotaEnabled m \<Longrightarrow> tenant_used m' =
           (tenant_used m)(t := (tenant_used m t)(u \<mapsto> u64_add (value_or 0 (tenant_used m t u)) (b_size stored)))"
    and "QuotaEnabled m \<Longrightarrow> tenant_victim_index m' =
           (tenant_victim_index m)(t := map_put u (insert (victim_order (sb_entry stored))
              (value_or {} (map_of (tenant_victim_index m t) u))) (tenant_victim_index m t))"
    and "mgr_ghost m' = mgr_ghost m" "ghost_fifo m' = ghost_fifo m"
    and "s3_small_fifo m' = (if fastest_tier_cache m = Some t \<and> \<not> s3_in_main stored
           then s3_small_fifo m @ [key] else s3_small_fifo m)"
    and "s3_main_fifo m' = (if fastest_tier_cache m = Some t \<and> s3_in_main stored
           then s3_main_fifo m @ [key] else s3_main_fifo m)"
    and "logical_clock m' = logical_clock m"
  unfolding m'_def t_def u_def key_def
  by (simp_all add: insert_stored_def Let_def AccountInsert_def IndexInsert_def AddUsed_def)

lemma tenant_used_le:
  assumes "mgr_core m" "QuotaEnabled m"
  shows "value_or 0 (tenant_used m t u) \<le> used_bytes m t"
  using mgr_coreD(5) [OF assms(1)] mgr_coreD(8) [OF assms] bytes_where_mono [of "\<lambda>b. b_tier b = t \<and> b_tenant b = u" "\<lambda>b. b_tier b = t"]
  by (simp add: quota_rel_def used_rel_def)

lemma small_used_le:
  assumes "mgr_core m" "fastest_tier_cache m = Some t"
  shows "s3_small_used_bytes m \<le> used_bytes m t"
  using mgr_coreD(5,6) [OF assms(1)] assms(2)
    bytes_where_mono [of "\<lambda>b. fastest_tier_cache m = Some (b_tier b) \<and> \<not> s3_in_main b" "\<lambda>b. b_tier b = t"]
  by (simp add: small_rel_def used_rel_def)

lemma insert_stored_core:
  assumes "mgr_core m" "mgr_blocks m key = None" "block_ok (mgr_config m) key stored"
    and "fits m (b_tier stored)"
  shows "mgr_core (insert_stored stored m)"
proof -
  note c = mgr_coreD [OF assms(1)]
  have key: "te_key (sb_entry stored) = key" using assms(3) by (simp add: block_ok_def)
  note f = insert_stored_fields [where stored = stored and m = m, unfolded key]
  have k: "victim_order (sb_entry stored) = (b_ts stored, key)" by (simp add: victim_order_def key)
  have "used_bytes m (b_tier stored) \<le> 2 ^ 53" "b_size stored \<le> 2 ^ 53"
    using assms(3,4) threshold_le_capacity [OF c(1), of "b_tier stored"] c(1)
    by (auto simp: fits_def block_ok_def config_ok_def intro: order_trans)
  then have o: "used_bytes m (b_tier stored) + b_size stored < 2 ^ 64" by simp
  have o2: "s3_small_used_bytes m + b_size stored < 2 ^ 64" if "fastest_tier_cache m = Some (b_tier stored)"
    using small_used_le [OF assms(1) that] o by simp
  have o3: "value_or 0 (tenant_used m (b_tier stored) (b_tenant stored)) + b_size stored < 2 ^ 64" if "QuotaEnabled m"
    using tenant_used_le [OF assms(1) that, of "b_tier stored" "b_tenant stored"] o by simp
  have "blocks_ok (mgr_config m) ((mgr_blocks m)(key \<mapsto> stored))"
    using c(3,4) assms(3) by (auto simp: blocks_ok_def split: if_splits)
  moreover have "QuotaEnabled (insert_stored stored m) = QuotaEnabled m" by (rule QuotaEnabled_cong) (rule f(1))
  moreover have "small_rel (fastest_tier_cache m) (if fastest_tier_cache m = Some (b_tier stored) \<and> \<not> s3_in_main stored
      then u64_add (s3_small_used_bytes m) (b_size stored) else s3_small_used_bytes m) ((mgr_blocks m)(key \<mapsto> stored))"
  proof (cases "fastest_tier_cache m = Some (b_tier stored)")
    case True
    from small_rel_put [OF c(6) c(3) assms(2) o2 [OF True]] show ?thesis .
  next
    case False
    with c(6) bytes_where_put [OF c(3), of key stored] fun_upd_idem [of "mgr_blocks m" key None] assms(2) show ?thesis by (simp add: small_rel_def)
  qed
  ultimately show ?thesis
    unfolding mgr_core_def f(1-6) k
    using c(1,2,9) used_rel_put [OF c(5) c(3) assms(2) o]
      index_rel_put [OF c(7) assms(2)] quota_rel_put [OF c(8) c(3) assms(2) o3] f(7,8)
    by (simp add: ghost_ok_def f(9,10) k)
qed

end
