(* ===== verification/Storage_Eviction.thy ===== *)
theory Storage_Eviction
  imports Storage_Accounting
begin

text \<open>
  Eviction: the victim is always a block of the tier, the loops end, and enforcing the capacity of a
  tier brings it and every slower tier within their thresholds.
\<close>

section \<open>Victims are blocks of the tier\<close>

text \<open>What the choice of a victim leaves alone: the blocks and their entries, everything but queues.\<close>

definition same_entries :: "TieredStorageManager \<Rightarrow> TieredStorageManager \<Rightarrow> bool" where
  "same_entries m m' \<longleftrightarrow> mgr_config m' = mgr_config m \<and> fastest_tier_cache m' = fastest_tier_cache m
     \<and> used_bytes m' = used_bytes m \<and> logical_clock m' = logical_clock m
     \<and> (\<forall>k. map_option (\<lambda>b. (sb_block b, sb_entry b)) (mgr_blocks m' k)
            = map_option (\<lambda>b. (sb_block b, sb_entry b)) (mgr_blocks m k))
     \<and> (\<forall>k b. fastest_tier_cache m \<noteq> Some (b_tier b) \<longrightarrow> (mgr_blocks m' k = Some b \<longleftrightarrow> mgr_blocks m k = Some b))"

lemma same_entries_refl [simp]: "same_entries m m"
  by (simp add: same_entries_def)

lemma same_entries_trans: "same_entries m m1 \<Longrightarrow> same_entries m1 m2 \<Longrightarrow> same_entries m m2"
  by (simp add: same_entries_def)

lemma map_option_eq_Some2: "map_option f x = map_option f y \<Longrightarrow> x = Some b \<Longrightarrow> \<exists>b'. y = Some b' \<and> f b = f b'"
  by (cases y) auto

lemma same_entries_block:
  assumes "same_entries m m'" "mgr_blocks m' k = Some b"
  shows "\<exists>b'. mgr_blocks m k = Some b' \<and> sb_block b' = sb_block b \<and> sb_entry b' = sb_entry b"
proof -
  have "map_option (\<lambda>b. (sb_block b, sb_entry b)) (mgr_blocks m' k) = map_option (\<lambda>b. (sb_block b, sb_entry b)) (mgr_blocks m k)"
    using assms(1) by (simp add: same_entries_def)
  from map_option_eq_Some2 [OF this assms(2)] show ?thesis by auto
qed

text \<open>Changing the queue marks of a block of the fastest tier in place.\<close>

lemma bytes_where_update:
  assumes "finite (dom B)" "B k = Some b" "P b' \<longleftrightarrow> P b" "b_size b' = b_size b"
  shows "bytes_where (B(k \<mapsto> b')) P = bytes_where B P"
  using bytes_where_put [OF assms(1), of k b' P] bytes_where_remove [OF assms(1), of P k] assms(2-4) by simp

lemma victims_where_update:
  assumes "B k = Some b" "P b' \<longleftrightarrow> P b" "b_ts b' = b_ts b"
  shows "victims_where (B(k \<mapsto> b')) P = victims_where B P"
  using assms by (auto simp: victims_where_mem split: if_splits)

lemma remark_core:
  assumes "mgr_core m" "mgr_blocks m key = Some b" "sb_entry b' = sb_entry b" "sb_block b' = sb_block b"
    and "small_rel (fastest_tier_cache m) n ((mgr_blocks m)(key \<mapsto> b'))"
  shows "mgr_core (m\<lparr>mgr_blocks := (mgr_blocks m)(key \<mapsto> b'), s3_small_used_bytes := n, s3_main_fifo := q\<rparr>)"
proof -
  note c = mgr_coreD [OF assms(1)]
  note u = bytes_where_update [where B = "mgr_blocks m", OF c(3) assms(2)]
    victims_where_update [where B = "mgr_blocks m", OF assms(2)]
  have "blocks_ok (mgr_config m) ((mgr_blocks m)(key \<mapsto> b'))"
    using c(3,4) c(4) [OF assms(2)] assms(3,4) unfolding blocks_ok_def by (auto simp: block_ok_def [of _ key b'] block_ok_def [of _ key b])
  moreover have "used_rel (used_bytes m) ((mgr_blocks m)(key \<mapsto> b'))"
    using c(5) assms(3) by (simp add: used_rel_def u)
  moreover have "index_rel (fastest_tier_cache m) (victim_index m) ((mgr_blocks m)(key \<mapsto> b'))"
    using c(7) assms(3) by (simp add: index_rel_def u)
  moreover have "quota_rel (tenant_used m) (tenant_victim_index m) ((mgr_blocks m)(key \<mapsto> b'))" if "QuotaEnabled m"
    using c(8) [OF that] assms(3) by (simp add: quota_rel_def u)
  ultimately show ?thesis
    using c(1,2,9) assms(5) by (simp add: mgr_core_def ghost_ok_def QuotaEnabled_def)
qed

lemma s3_promote_core:
  assumes "mgr_core m" "mgr_blocks m key = Some b" "fastest_tier_cache m = Some (b_tier b)" "\<not> s3_in_main b"
  shows "mgr_core (s3_promote key b m)"
proof -
  note c = mgr_coreD [OF assms(1)]
  have "small_rel (fastest_tier_cache m) (u64_sub (s3_small_used_bytes m) (b_size b))
      ((mgr_blocks m)(key \<mapsto> b\<lparr>s3_in_main := True, s3_freq := 0\<rparr>))"
    using small_rel_remove [OF c(6) c(3) assms(2)] assms(3,4) bytes_where_put [OF c(3), of key "b\<lparr>s3_in_main := True, s3_freq := 0\<rparr>"]
    by (simp add: small_rel_def)
  then show ?thesis unfolding s3_promote_def by (intro remark_core [OF assms(1,2)]) simp_all
qed

lemma s3_requeue_core:
  assumes "mgr_core m" "mgr_blocks m key = Some b"
  shows "mgr_core (s3_requeue key b m)"
proof -
  note c = mgr_coreD [OF assms(1)]
  let ?b = "b\<lparr>s3_freq := s3_freq b - 1\<rparr>"
  have "small_rel (fastest_tier_cache m) (s3_small_used_bytes m) ((mgr_blocks m)(key \<mapsto> ?b))"
    using c(6) by (simp add: small_rel_def bytes_where_update [where B = "mgr_blocks m", OF c(3) assms(2)])
  from remark_core [OF assms _ _ this, of "s3_main_fifo m @ [key]"]
  show ?thesis by (simp add: s3_requeue_def)
qed

lemma same_entries_moves:
  assumes "mgr_blocks m key = Some b" "fastest_tier_cache m = Some (b_tier b)"
  shows "same_entries m (s3_promote key b m)" "same_entries m (s3_requeue key b m)"
    and "same_entries m (pop_small m)" "same_entries m (pop_main m)"
  using assms by (auto simp: same_entries_def s3_moves)

lemma mgr_core_fifo [simp]:
  "mgr_core (m\<lparr>s3_small_fifo := q\<rparr>) = mgr_core m" "mgr_core (m\<lparr>s3_main_fifo := q\<rparr>) = mgr_core m"
  "mgr_core (m\<lparr>logical_clock := n\<rparr>) = mgr_core m"
  unfolding mgr_core_def by (simp_all add: ghost_ok_def QuotaEnabled_def)

lemma pops_core: "mgr_core (pop_small m) = mgr_core m" "mgr_core (pop_main m) = mgr_core m"
  by (simp_all add: s3_moves)

lemma mgr_core_ghost: "mgr_core m \<Longrightarrow> g \<subseteq> set q \<Longrightarrow> length q \<le> kGhostCapacity \<Longrightarrow> mgr_core (m\<lparr>mgr_ghost := g, ghost_fifo := q\<rparr>)"
  unfolding mgr_core_def by (auto simp: ghost_ok_def QuotaEnabled_def simp del: not_None_eq)

lemma pops_same: "same_entries m (pop_small m)" "same_entries m (pop_main m)"
  "fastest_tier_cache (pop_small m) = fastest_tier_cache m" "fastest_tier_cache (pop_main m) = fastest_tier_cache m"
  by (simp_all add: same_entries_def s3_moves)

lemma ghost_trim_laws:
  "ghost_trim g q = (g', q') \<Longrightarrow> g \<subseteq> set q \<Longrightarrow> g' \<subseteq> set q' \<and> length q' \<le> kGhostCapacity"
  by (induction g q rule: ghost_trim.induct) (auto simp: kGhostCapacity_def split: if_splits)

lemma GhostInsert_laws:
  assumes "mgr_core m"
  shows "mgr_core (GhostInsert key m)" "same_entries m (GhostInsert key m)"
    and "queues_ok X (GhostInsert key m) = queues_ok X m" "mgr_blocks (GhostInsert key m) = mgr_blocks m"
proof -
  obtain g q where t: "ghost_trim (insert key (mgr_ghost m)) (ghost_fifo m @ [key]) = (g, q)"
    by (cases "ghost_trim (insert key (mgr_ghost m)) (ghost_fifo m @ [key])")
  have "g \<subseteq> set q \<and> length q \<le> kGhostCapacity"
    using ghost_trim_laws [OF t] mgr_coreD(9) [OF assms] by (auto simp: ghost_ok_def)
  then show "mgr_core (GhostInsert key m)" "same_entries m (GhostInsert key m)"
      "queues_ok X (GhostInsert key m) = queues_ok X m" "mgr_blocks (GhostInsert key m) = mgr_blocks m"
    using assms mgr_core_ghost by (auto simp: GhostInsert_def t same_entries_def queues_ok_def)
qed

text \<open>The chosen victim: a block of the tier whose removal leaves the queues complete.\<close>

definition victim_ok :: "Tier \<Rightarrow> TieredStorageManager \<Rightarrow> BlockKey option \<times> TieredStorageManager \<Rightarrow> bool" where
  "victim_ok tier m r \<longleftrightarrow> mgr_core (snd r) \<and> same_entries m (snd r)
     \<and> (case fst r of
          None \<Rightarrow> \<not> (\<exists>k b. mgr_blocks m k = Some b \<and> b_tier b = tier)
        | Some key \<Rightarrow> (\<exists>b. mgr_blocks (snd r) key = Some b \<and> b_tier b = tier) \<and> queues_ok {key} (snd r))"

lemma victim_ok_trans: "same_entries m m1 \<Longrightarrow> victim_ok tier m1 r \<Longrightarrow> victim_ok tier m r"
  unfolding victim_ok_def using same_entries_trans same_entries_block [of m1 m]
  by (cases r; cases "fst r") (fastforce simp: same_entries_def dest: map_option_eq_Some2)+

lemma queues_okD:
  assumes "queues_ok X m" "mgr_blocks m k = Some b" "fastest_tier_cache m = Some (b_tier b)" "k \<notin> X"
  shows "s3_in_main b \<Longrightarrow> k \<in> set (s3_main_fifo m)" "\<not> s3_in_main b \<Longrightarrow> k \<in> set (s3_small_fifo m)"
  using assms unfolding queues_ok_def by blast+

lemma queues_okI:
  "(\<And>k b. mgr_blocks m k = Some b \<Longrightarrow> fastest_tier_cache m = Some (b_tier b) \<Longrightarrow> k \<notin> X \<Longrightarrow>
     (s3_in_main b \<longrightarrow> k \<in> set (s3_main_fifo m)) \<and> (\<not> s3_in_main b \<longrightarrow> k \<in> set (s3_small_fifo m))) \<Longrightarrow> queues_ok X m"
  unfolding queues_ok_def by blast

lemma tl_keeps: "k \<in> set q \<Longrightarrow> k \<noteq> hd q \<Longrightarrow> k \<in> set (tl q)"
  by (cases q) auto

lemma queues_pop_small:
  assumes "queues_ok {} m"
  shows "queues_ok {hd (s3_small_fifo m)} (pop_small m)"
    and "live_in False fast (hd (s3_small_fifo m)) m = None \<Longrightarrow> fastest_tier_cache m = Some fast \<Longrightarrow> queues_ok {} (pop_small m)"
  using queues_okD [OF assms] tl_keeps
  by (intro queues_okI; force simp: live_in_def pops_same split: if_splits)+

lemma queues_pop_main:
  assumes "queues_ok {} m"
  shows "queues_ok {hd (s3_main_fifo m)} (pop_main m)"
    and "live_in True fast (hd (s3_main_fifo m)) m = None \<Longrightarrow> fastest_tier_cache m = Some fast \<Longrightarrow> queues_ok {} (pop_main m)"
  using queues_okD [OF assms] tl_keeps
  by (intro queues_okI; force simp: live_in_def pops_same split: if_splits)+

lemma queues_requeue:
  assumes "queues_ok {key} m" "mgr_blocks m key = Some b"
  shows "queues_ok {} (s3_promote key b m)" "s3_in_main b \<Longrightarrow> queues_ok {} (s3_requeue key b m)"
  using queues_okD [OF assms(1)]
  by (intro queues_okI; fastforce simp: s3_promote_def s3_requeue_def split: if_splits)+

lemma live_in_pops [simp]: "live_in q fast key (pop_small m) = live_in q fast key m" "live_in q fast key (pop_main m) = live_in q fast key m"
  by (simp_all add: live_in_def)

text \<open>A live entry with a frequency goes to the end of the main queue.\<close>

lemma small_promoted:
  assumes "mgr_inv m" "fastest_tier_cache m = Some fast" "live_in False fast (hd (s3_small_fifo m)) (pop_small m) = Some b"
  defines "m' \<equiv> s3_promote (hd (s3_small_fifo m)) b (pop_small m)"
  shows "mgr_inv m'" "fastest_tier_cache m' = Some fast" "same_entries m m'"
proof -
  have core: "mgr_core (pop_small m)" and f: "fastest_tier_cache (pop_small m) = Some fast"
    using assms(1,2) by (simp_all add: mgr_inv_def pops_core pops_same)
  have s: "queues_ok {hd (s3_small_fifo m)} (pop_small m)" using queues_pop_small(1) assms(1) by (simp add: mgr_inv_def)
  have b: "mgr_blocks (pop_small m) (hd (s3_small_fifo m)) = Some b" "b_tier b = fast" "\<not> s3_in_main b"
    using assms(3) by (auto simp: live_in_Some)
  show "mgr_inv m'" using s3_promote_core [OF core b(1)] queues_requeue(1) [OF s b(1)] f b by (simp add: mgr_inv_def m'_def)
  show "fastest_tier_cache m' = Some fast" using f by (simp add: m'_def s3_promote_def)
  show "same_entries m m'"
    using same_entries_trans [OF pops_same(1) [of m]] same_entries_moves(1) [OF b(1)] f b(2) by (simp add: m'_def)
qed

lemma main_requeued:
  assumes "mgr_inv m" "fastest_tier_cache m = Some fast" "live_in True fast (hd (s3_main_fifo m)) (pop_main m) = Some b"
  defines "m' \<equiv> s3_requeue (hd (s3_main_fifo m)) b (pop_main m)"
  shows "mgr_inv m'" "fastest_tier_cache m' = Some fast" "same_entries m m'"
proof -
  have core: "mgr_core (pop_main m)" and f: "fastest_tier_cache (pop_main m) = Some fast"
    using assms(1,2) by (simp_all add: mgr_inv_def pops_core pops_same)
  have s: "queues_ok {hd (s3_main_fifo m)} (pop_main m)" using queues_pop_main(1) assms(1) by (simp add: mgr_inv_def)
  have b: "mgr_blocks (pop_main m) (hd (s3_main_fifo m)) = Some b" "b_tier b = fast" "s3_in_main b"
    using assms(3) by (auto simp: live_in_Some)
  show "mgr_inv m'" using s3_requeue_core [OF core b(1)] queues_requeue(2) [OF s b(1)] b by (simp add: mgr_inv_def m'_def)
  show "fastest_tier_cache m' = Some fast" using f by (simp add: m'_def s3_requeue_def)
  show "same_entries m m'"
    using same_entries_trans [OF pops_same(2) [of m]] same_entries_moves(2) [OF b(1)] f b(2) by (simp add: m'_def)
qed

text \<open>A stale head is dropped, which changes no block.\<close>

lemma stale_dropped:
  assumes "mgr_inv m" "fastest_tier_cache m = Some fast"
  shows "live_in False fast (hd (s3_small_fifo m)) m = None \<Longrightarrow> mgr_inv (pop_small m)"
    and "live_in True fast (hd (s3_main_fifo m)) m = None \<Longrightarrow> mgr_inv (pop_main m)"
  using assms queues_pop_small(2) [of m fast] queues_pop_main(2) [of m fast] by (auto simp: mgr_inv_def pops_core)

text \<open>The victim taken from each queue, given that the rest of the scan finds one.\<close>

lemma small_victim:
  assumes "mgr_inv m" "fastest_tier_cache m = Some fast" "s3_from_small fast m"
    and IH: "\<And>m'. mgr_inv m' \<Longrightarrow> fastest_tier_cache m' = Some fast \<Longrightarrow> s3_work m' < s3_work m \<Longrightarrow> victim_ok fast m' (PickS3Victim fast m')"
  shows "victim_ok fast m (PickS3Victim fast m)"
proof -
  let ?k = "hd (s3_small_fifo m)" and ?m = "pop_small m"
  have core: "mgr_core m" "mgr_core ?m" and q: "queues_ok {} m" using assms(1) by (auto simp: mgr_inv_def pops_core)
  note e = pops_same(1) [of m]
  consider "s3_small_fifo m = []" | "s3_small_fifo m \<noteq> []" "live_in False fast ?k ?m = None"
    | b where "s3_small_fifo m \<noteq> []" "live_in False fast ?k ?m = Some b" "0 < s3_freq b"
    | b where "s3_small_fifo m \<noteq> []" "live_in False fast ?k ?m = Some b" "s3_freq b = 0"
    by (cases "s3_small_fifo m = []"; cases "live_in False fast ?k ?m") auto
  then show ?thesis
  proof cases
    case 1
    then have "s3_main_fifo m = []" using assms(3) by (auto simp: s3_from_small_def)
    then have "\<not> (\<exists>k b. mgr_blocks m k = Some b \<and> b_tier b = fast)"
      using queues_okD [OF q] assms(2) 1 by (force split: if_splits)
    then show ?thesis using assms(3) 1 core(1) by (subst PickS3Victim.simps) (simp add: victim_ok_def)
  next
    case 2
    have "victim_ok fast ?m (PickS3Victim fast ?m)"
      using stale_dropped(1) [OF assms(1,2)] assms(2) 2 by (intro IH) (simp_all add: s3_work_moves pops_same)
    then show ?thesis using assms(3) 2 victim_ok_trans [OF e] by (subst PickS3Victim.simps) simp
  next
    case (3 b)
    note p = small_promoted [OF assms(1,2) 3(2)]
    have "s3_work (s3_promote ?k b ?m) < s3_work m" using 3 by (auto simp: live_in_Some s3_work_moves)
    from IH [OF p(1,2) this] show ?thesis using assms(3) 3 victim_ok_trans [OF p(3)] by (subst PickS3Victim.simps) simp
  next
    case (4 b)
    then have "PickS3Victim fast m = (Some ?k, GhostInsert ?k ?m)"
      using assms(3) by (subst PickS3Victim.simps) (simp add: Let_def)
    then show ?thesis using 4 GhostInsert_laws [OF core(2), where key = ?k] queues_pop_small(1) [OF q] same_entries_trans [OF e]
      by (simp add: victim_ok_def live_in_Some)
  qed
qed

lemma main_victim:
  assumes "mgr_inv m" "fastest_tier_cache m = Some fast" "\<not> s3_from_small fast m"
    and IH: "\<And>m'. mgr_inv m' \<Longrightarrow> fastest_tier_cache m' = Some fast \<Longrightarrow> s3_work m' < s3_work m \<Longrightarrow> victim_ok fast m' (PickS3Victim fast m')"
  shows "victim_ok fast m (PickS3Victim fast m)"
proof -
  let ?k = "hd (s3_main_fifo m)" and ?m = "pop_main m"
  note e = pops_same(2) [of m]
  have ne: "s3_main_fifo m \<noteq> []" using assms(3) by (auto simp: s3_from_small_def)
  consider "live_in True fast ?k ?m = None" | b where "live_in True fast ?k ?m = Some b" "0 < s3_freq b"
    | b where "live_in True fast ?k ?m = Some b" "s3_freq b = 0"
    by (cases "live_in True fast ?k ?m") auto
  then show ?thesis
  proof cases
    case 1
    have "victim_ok fast ?m (PickS3Victim fast ?m)"
      using stale_dropped(2) [OF assms(1,2)] assms(2) 1 ne by (intro IH) (simp_all add: s3_work_moves pops_same)
    then show ?thesis using assms(3) 1 victim_ok_trans [OF e] by (subst PickS3Victim.simps) simp
  next
    case (2 b)
    note p = main_requeued [OF assms(1,2) 2(1)]
    have "s3_work (s3_requeue ?k b ?m) < s3_work m" using 2 ne by (auto simp: live_in_Some s3_work_moves)
    from IH [OF p(1,2) this] show ?thesis using assms(3) 2 victim_ok_trans [OF p(3)] by (subst PickS3Victim.simps) simp
  next
    case (3 b)
    then have "PickS3Victim fast m = (Some ?k, ?m)" using assms(3) by (subst PickS3Victim.simps) (simp add: Let_def)
    then show ?thesis using 3 queues_pop_main(1) assms(1) e by (simp add: victim_ok_def live_in_Some mgr_inv_def pops_core)
  qed
qed

lemma PickS3Victim_ok:
  assumes "mgr_inv m" "fastest_tier_cache m = Some fast"
  shows "victim_ok fast m (PickS3Victim fast m)"
  using assms
proof (induction "s3_work m" arbitrary: m rule: less_induct)
  case less
  then show ?case using small_victim [of m fast] main_victim [of m fast] by blast
qed

lemma Min_victims:
  assumes "finite (dom B)" "victims_where B P \<noteq> {}"
  shows "\<exists>b. B (snd (Min (victims_where B P))) = Some b \<and> P b"
  using Min_in [OF finite_victims_where [OF assms(1)] assms(2)] victims_where_mem [of "fst (Min (victims_where B P))"]
  by (metis prod.collapse)

lemma PickVictim_ok:
  assumes "mgr_core m" "fastest_tier_cache m \<noteq> Some tier"
  shows "case PickVictim tier m of
      None \<Rightarrow> \<not> (\<exists>k b. mgr_blocks m k = Some b \<and> b_tier b = tier)
    | Some key \<Rightarrow> \<exists>b. mgr_blocks m key = Some b \<and> b_tier b = tier"
proof -
  note c = mgr_coreD [OF assms(1)]
  have i: "victim_index m tier = victims_where (mgr_blocks m) (\<lambda>b. b_tier b = tier)"
    using c(7) assms(2) by (simp add: index_rel_def)
  have "\<not> (\<exists>k b. mgr_blocks m k = Some b \<and> b_tier b = tier)" if "victim_index m tier = {}"
    using that by (auto simp: i victims_where_def)
  with Min_victims [OF c(3), of "\<lambda>b. b_tier b = tier"] show ?thesis by (simp add: PickVictim_def i)
qed

lemma foldl_worst_step:
  "snd (foldl (worst_step tier m) acc xs) = snd acc
   \<or> (\<exists>u index. (u, index) \<in> set xs \<and> index \<noteq> {} \<and> snd (foldl (worst_step tier m) acc xs) = Some index)"
proof (induction xs arbitrary: acc)
  case (Cons x xs)
  have "snd (worst_step tier m acc x) = snd acc \<or> snd x \<noteq> {} \<and> snd (worst_step tier m acc x) = Some (snd x)"
    by (cases x; cases acc) (auto simp: worst_step_def Let_def)
  then show ?case using Cons.IH [of "worst_step tier m acc x"] by (cases x) fastforce
qed simp

lemma PickQuotaVictim_ok:
  assumes "mgr_core m" "QuotaEnabled m" "PickQuotaVictim tier m = Some key"
  shows "\<exists>b. mgr_blocks m key = Some b \<and> b_tier b = tier"
proof -
  note c = mgr_coreD [OF assms(1)]
  obtain u index where i: "(u, index) \<in> set (tenant_victim_index m tier)" "index \<noteq> {}" "key = snd (Min index)"
    using assms(3) foldl_worst_step [of tier m "(0, None)" "tenant_victim_index m tier"]
    by (auto simp: PickQuotaVictim_def split: option.splits)
  have "sorted_wrt (<) (map fst (tenant_victim_index m tier))" using c(8) [OF assms(2)] by (simp add: quota_rel_def)
  then have "distinct (map fst (tenant_victim_index m tier))" by (simp add: strict_sorted_iff)
  then have "map_of (tenant_victim_index m tier) u = Some index" using i(1) by simp
  then have "index = victims_where (mgr_blocks m) (\<lambda>b. b_tier b = tier \<and> b_tenant b = u)"
    using c(8) [OF assms(2)] by (metis quota_rel_def value_or_simps(2))
  with Min_victims [OF c(3)] i(2,3) show ?thesis by blast
qed

lemma queues_ok_mono: "queues_ok X m \<Longrightarrow> X \<subseteq> Y \<Longrightarrow> queues_ok Y m"
  unfolding queues_ok_def by blast

lemma choose_victim_ok:
  assumes "mgr_inv m"
  shows "victim_ok tier m (choose_victim tier m)"
proof -
  have core: "mgr_core m" and q: "queues_ok {} m" using assms by (auto simp: mgr_inv_def)
  show ?thesis
  proof (cases "if QuotaEnabled m then PickQuotaVictim tier m else None")
    case (Some key)
    then have "\<exists>b. mgr_blocks m key = Some b \<and> b_tier b = tier"
      using PickQuotaVictim_ok [OF core] by (auto split: if_splits)
    with Some core queues_ok_mono [OF q] show ?thesis by (simp add: choose_victim_def victim_ok_def)
  next
    case None
    show ?thesis
    proof (cases "fastest_tier_cache m = Some tier")
      case True
      with None PickS3Victim_ok [OF assms True] show ?thesis by (simp add: choose_victim_def)
    next
      case False
      with None PickVictim_ok [OF core False] core queues_ok_mono [OF q]
      show ?thesis by (simp add: choose_victim_def victim_ok_def split: option.splits)
    qed
  qed
qed

lemma choose_victim_slow: "fastest_tier_cache m \<noteq> Some tier \<Longrightarrow> snd (choose_victim tier m) = m"
  by (simp add: choose_victim_def split: option.splits)

section \<open>Capacity enforcement\<close>

definition mgr_content :: "TieredStorageManager \<Rightarrow> BlockKey \<rightharpoonup> KVCacheBlock" where
  "mgr_content m k = map_option sb_block (mgr_blocks m k)"

text \<open>What enforcing the capacity of a tier can change: blocks of that tier and of slower ones.\<close>

definition enforce_frame :: "Tier \<Rightarrow> TieredStorageManager \<Rightarrow> TieredStorageManager \<Rightarrow> bool" where
  "enforce_frame tier m m' \<longleftrightarrow> mgr_config m' = mgr_config m \<and> mgr_content m' \<subseteq>\<^sub>m mgr_content m
     \<and> (\<forall>k b. b_tier b \<notin> set (tier # slower_tiers tier) \<longrightarrow> (mgr_blocks m' k = Some b \<longleftrightarrow> mgr_blocks m k = Some b))"

lemma enforce_frame_refl [simp]: "enforce_frame tier m m"
  by (simp add: enforce_frame_def)

lemma enforce_frame_trans: "enforce_frame tier m m1 \<Longrightarrow> enforce_frame tier m1 m2 \<Longrightarrow> enforce_frame tier m m2"
  by (auto simp: enforce_frame_def intro: map_le_trans)

lemma slower_slower: "s \<in> set (slower_tiers t) \<Longrightarrow> set (slower_tiers s) \<subseteq> set (slower_tiers t)"
  "s \<in> set (slower_tiers t) \<Longrightarrow> t \<notin> set (s # slower_tiers s)"
  "s \<in> set (slower_tiers t) \<Longrightarrow> length (slower_tiers s) < length (slower_tiers t)"
  by (cases t; cases s; simp)+

lemma enforce_frame_slower: "s \<in> set (slower_tiers t) \<Longrightarrow> enforce_frame s m m' \<Longrightarrow> enforce_frame t m m'"
proof -
  assume s: "s \<in> set (slower_tiers t)" and f: "enforce_frame s m m'"
  have "tier \<notin> set (s # slower_tiers s)" if "tier \<notin> set (t # slower_tiers t)" for tier
    using that s slower_slower(1) [OF s] by auto
  with f show ?thesis by (simp add: enforce_frame_def)
qed

lemma NextSlowerConfigured_Some:
  assumes "NextSlowerConfigured c t = Some s"
  shows "s \<in> set (slower_tiers t)" "configured c s"
    and "t' \<in> set (slower_tiers t) \<Longrightarrow> t' \<noteq> s \<Longrightarrow> t' \<notin> set (slower_tiers s) \<Longrightarrow> \<not> configured c t'"
  using assms by (cases t; cases t'; auto simp: NextSlowerConfigured_def split: if_splits)+

lemma fastest_not_slower:
  assumes "ResolveConfiguredTier c kHBM = Some s" "s \<in> set (slower_tiers t)"
  shows "\<not> configured c t"
  using assms by (cases t; cases s) (auto simp: ResolveConfiguredTier_def split: if_splits)

definition tier_keys :: "TieredStorageManager \<Rightarrow> Tier \<Rightarrow> BlockKey set" where
  "tier_keys m t = {k. \<exists>b. mgr_blocks m k = Some b \<and> b_tier b = t}"

lemma finite_tier_keys: "mgr_core m \<Longrightarrow> finite (tier_keys m t)"
  by (rule finite_subset [OF _ mgr_coreD(3)]) (auto simp: tier_keys_def)

lemma map_option_fst: "map_option (\<lambda>b. (f b, g b)) x = map_option (\<lambda>b. (f b, g b)) y \<Longrightarrow> map_option f x = map_option f y"
  by (cases x; cases y) auto

text \<open>One eviction without its cascade.\<close>

lemma evict_one:
  assumes "mgr_inv m" "choose_victim t m = (Some key, m1)" "mgr_blocks m1 key = Some b"
  shows "mgr_inv (RemoveLocked key m1)" "b_tier b = t" "block_ok (mgr_config m) key b"
    and "enforce_frame t m (RemoveLocked key m1)"
    and "tier_keys (RemoveLocked key m1) t = tier_keys m t - {key}" "key \<in> tier_keys m t"
    and "\<And>t'. t' \<noteq> t \<Longrightarrow> used_bytes (RemoveLocked key m1) t' = used_bytes m t'"
    and "mgr_content m key = Some (sb_block b)" "mgr_blocks (RemoveLocked key m1) key = None"
proof -
  have v: "victim_ok t m (Some key, m1)" using choose_victim_ok [OF assms(1), of t] assms(2) by simp
  then have core: "mgr_core m1" and e: "same_entries m m1" and q: "queues_ok {key} m1" and t: "b_tier b = t"
    using assms(3) by (auto simp: victim_ok_def)
  show "b_tier b = t" by (rule t)
  have cfg: "mgr_config m1 = mgr_config m" "fastest_tier_cache m1 = fastest_tier_cache m" using e by (auto simp: same_entries_def)
  show "block_ok (mgr_config m) key b" using mgr_coreD(4) [OF core assms(3)] cfg by simp
  note f = RemoveLocked_fields [OF assms(3)]
  show "mgr_blocks (RemoveLocked key m1) key = None" by (simp add: f(3))
  have "queues_ok {} (RemoveLocked key m1)"
    by (rule queues_okI) (use queues_okD [OF q] in \<open>auto simp: f split: if_splits\<close>)
  with RemoveLocked_core [OF core assms(3)] show "mgr_inv (RemoveLocked key m1)" by (simp add: mgr_inv_def)
  obtain b0 where b0: "mgr_blocks m key = Some b0" "sb_block b0 = sb_block b" "sb_entry b0 = sb_entry b"
    using same_entries_block [OF e assms(3)] by auto
  show "mgr_content m key = Some (sb_block b)" by (simp add: mgr_content_def b0)
  show "key \<in> tier_keys m t" using b0 t by (simp add: tier_keys_def)
  have opt: "map_option (\<lambda>b. (sb_block b, sb_entry b)) (mgr_blocks m1 k) = map_option (\<lambda>b. (sb_block b, sb_entry b)) (mgr_blocks m k)" for k
    using e by (simp add: same_entries_def)
  have "mgr_content m1 k = mgr_content m k" for k
    unfolding mgr_content_def using map_option_fst [OF opt] .
  then have "mgr_content (RemoveLocked key m1) \<subseteq>\<^sub>m mgr_content m"
    by (auto simp: map_le_def mgr_content_def f(3) split: if_splits)
  moreover have "mgr_blocks (RemoveLocked key m1) k = Some b' \<longleftrightarrow> mgr_blocks m k = Some b'"
    if "b_tier b' \<noteq> t" for k b'
  proof (cases "fastest_tier_cache m = Some t")
    case True
    with that e have "mgr_blocks m1 k = Some b' \<longleftrightarrow> mgr_blocks m k = Some b'" by (auto simp: same_entries_def)
    with that t assms(3) show ?thesis by (auto simp: f(3))
  next
    case False
    from choose_victim_slow [OF this] have "mgr_blocks m1 = mgr_blocks m" using assms(2) by simp
    with that t assms(3) show ?thesis by (auto simp: f(3))
  qed
  ultimately show "enforce_frame t m (RemoveLocked key m1)" by (simp add: enforce_frame_def f(1) cfg)
  have "tier_keys m1 t = tier_keys m t"
    using same_entries_block [OF e] map_option_eq_Some2 [OF opt [symmetric]] by (fastforce simp: tier_keys_def)
  then show "tier_keys (RemoveLocked key m1) t = tier_keys m t - {key}"
    by (auto simp: tier_keys_def f(3))
  show "used_bytes (RemoveLocked key m1) t' = used_bytes m t'" if "t' \<noteq> t" for t'
    using that e t by (simp add: f(4) same_entries_def)
qed

text \<open>The demotion of a victim is an insertion into the slower tier.\<close>

definition demoted :: "Tier \<Rightarrow> StoredBlock \<Rightarrow> nat \<Rightarrow> StoredBlock" where
  "demoted slower b clock =
     \<lparr>sb_block = sb_block b,
      sb_entry = \<lparr>te_key = kb_key (sb_block b), te_tier = slower, te_size_bytes = BlockSizeBytes (sb_block b),
                  te_stats = (te_stats (sb_entry b))\<lparr>last_access_ts := clock\<rparr>, te_tenant_id = b_tenant b\<rparr>,
      s3_freq = 0, s3_in_main = False\<rparr>"

lemma demoted_simps [simp]:
  "sb_block (demoted t b n) = sb_block b" "b_tier (demoted t b n) = t"
  "b_size (demoted t b n) = BlockSizeBytes (sb_block b)" "te_key (sb_entry (demoted t b n)) = kb_key (sb_block b)"
  "\<not> s3_in_main (demoted t b n)"
  by (simp_all add: demoted_def)

lemma demote_insert:
  "fastest_tier_cache m \<noteq> Some slower \<Longrightarrow> demote slower b m = insert_stored (demoted slower b (logical_clock m)) m"
  by (simp add: demote_def insert_stored_def demoted_def Let_def)

lemma insert_stored_queues:
  assumes "queues_ok {} m"
  shows "queues_ok {} (insert_stored stored m)"
  by (rule queues_okI) (use queues_okD [OF assms] in \<open>auto simp: insert_stored_fields split: if_splits\<close>)

lemma tick_fields [simp]:
  "mgr_config (tick m) = mgr_config m" "mgr_blocks (tick m) = mgr_blocks m" "used_bytes (tick m) = used_bytes m"
  "fastest_tier_cache (tick m) = fastest_tier_cache m" "mgr_core (tick m) = mgr_core m"
  "queues_ok X (tick m) = queues_ok X m" "mgr_inv (tick m) = mgr_inv m"
  "mgr_content (tick m) = mgr_content m" "tier_keys (tick m) t = tier_keys m t" "fits (tick m) t = fits m t"
  by (simp_all add: tick_def queues_ok_def mgr_inv_def mgr_content_def tier_keys_def fits_def fun_eq_iff)

lemma demote_ok:
  assumes "mgr_inv m" "mgr_blocks m key = None" "block_ok (mgr_config m) key b" "configured (mgr_config m) slower"
    and "BlockSizeBytes (sb_block b) \<le> CapacityOf (mgr_config m) slower" "fastest_tier_cache m \<noteq> Some slower"
    and "fits m slower"
  shows "mgr_inv (demote slower b m)" "mgr_content (demote slower b m) = (mgr_content m)(key \<mapsto> sb_block b)"
    and "mgr_config (demote slower b m) = mgr_config m"
    and "b_tier b' \<noteq> slower \<Longrightarrow> mgr_blocks (demote slower b m) k = Some b' \<longleftrightarrow> mgr_blocks m k = Some b'"
    and "t \<noteq> slower \<Longrightarrow> used_bytes (demote slower b m) t = used_bytes m t"
proof -
  let ?d = "demoted slower b (logical_clock m)"
  note d = demote_insert [OF assms(6), of b]
  have ok: "block_ok (mgr_config m) key ?d" using assms(3-5) by (simp add: block_ok_def)
  have k: "te_key (sb_entry ?d) = key" using ok by (simp add: block_ok_def)
  have core: "mgr_core m" and q: "queues_ok {} m" using assms(1) by (auto simp: mgr_inv_def)
  show "mgr_inv (demote slower b m)"
    using insert_stored_core [OF core assms(2) ok] assms(7) insert_stored_queues [OF q] by (simp add: d mgr_inv_def)
  note f = insert_stored_fields [where stored = ?d and m = m, unfolded k]
  show "mgr_content (demote slower b m) = (mgr_content m)(key \<mapsto> sb_block b)"
    by (rule ext) (simp add: d mgr_content_def f(3))
  show "mgr_config (demote slower b m) = mgr_config m" by (simp add: d f(1))
  show "b_tier b' \<noteq> slower \<Longrightarrow> mgr_blocks (demote slower b m) k = Some b' \<longleftrightarrow> mgr_blocks m k = Some b'"
    using assms(2) by (auto simp: d f(3))
  show "t \<noteq> slower \<Longrightarrow> used_bytes (demote slower b m) t = used_bytes m t"
    by (simp add: d f(4))
qed

text \<open>The result every enforcement has.\<close>

definition enforced :: "Tier \<Rightarrow> TieredStorageManager \<Rightarrow> (status \<times> TieredStorageManager) option \<Rightarrow> bool" where
  "enforced t m r \<longleftrightarrow> (\<exists>m'. r = Some (Ok, m') \<and> mgr_inv m' \<and> (\<forall>t' \<in> set (t # slower_tiers t). fits m' t')
     \<and> enforce_frame t m m')"

lemma enforced_trans:
  assumes "enforce_frame t m m1" "enforced t m1 r"
  shows "enforced t m r"
  using assms enforce_frame_trans unfolding enforced_def by blast

lemma empty_tier_fits:
  assumes "mgr_core m" "tier_keys m t = {}"
  shows "fits m t"
proof -
  have "used_bytes m t = 0"
    using mgr_coreD(5) [OF assms(1)] assms(2) bytes_where_none [of "mgr_blocks m" "\<lambda>b. b_tier b = t"]
    by (auto simp: used_rel_def tier_keys_def)
  then show ?thesis by (simp add: fits_def)
qed

lemma fits_frame:
  assumes "mgr_inv m" "mgr_inv m'" "enforce_frame s m m'" "t \<notin> set (s # slower_tiers s)"
  shows "tier_keys m' t = tier_keys m t"
  using assms(3,4) by (auto simp: enforce_frame_def tier_keys_def)

text \<open>A demotion followed by the enforcement of the slower tier.\<close>

lemma demotion_enforced:
  assumes inv: "mgr_inv m" and frame: "enforce_frame t m0 m" and cfg: "configured (mgr_config m) t"
    and next_tier: "NextSlowerConfigured (mgr_config m) t = Some slower"
    and b: "block_ok (mgr_config m) key b" "mgr_blocks m key = None" "mgr_content m0 key = Some (sb_block b)"
    and sz: "BlockSizeBytes (sb_block b) \<le> CapacityOf (mgr_config m) slower"
    and fits: "\<forall>t' \<in> set (slower_tiers t). fits m t'"
    and IH: "\<And>m'. mgr_inv m' \<Longrightarrow> configured (mgr_config m') slower \<Longrightarrow>
       \<forall>t' \<in> set (slower_tiers slower). fits m' t' \<Longrightarrow> enforced slower m' (EnforceCapacity slower m')"
  shows "\<exists>m'. EnforceCapacity slower (demote slower b m) = Some (Ok, m') \<and> mgr_inv m' \<and> mgr_config m' = mgr_config m
    \<and> tier_keys m' t = tier_keys m t \<and> (\<forall>t' \<in> set (slower_tiers t). fits m' t') \<and> enforce_frame t m0 m'"
proof -
  note sl = NextSlowerConfigured_Some [OF next_tier]
  have "fastest_tier_cache m \<noteq> Some slower"
    using fastest_not_slower [OF _ sl(1), of "mgr_config m"] cfg mgr_coreD(2) [of m] inv by (auto simp: mgr_inv_def)
  note d = demote_ok [OF inv b(2,1) sl(2) sz this]
  have fs: "fits m slower" using fits sl(1) by blast
  let ?m = "demote slower b m"
  have "\<forall>t' \<in> set (slower_tiers slower). fits ?m t'"
    using fits slower_slower [OF sl(1)] d(3,5) [OF fs] slower_slower(2) by (fastforce simp: fits_def)
  then obtain m' where m': "EnforceCapacity slower ?m = Some (Ok, m')" "mgr_inv m'"
      "\<forall>t' \<in> set (slower # slower_tiers slower). fits m' t'" "enforce_frame slower ?m m'"
    using IH [OF d(1) [OF fs]] sl(2) d(3) [OF fs] by (auto simp: enforced_def)
  have c: "mgr_config m' = mgr_config m" using m'(4) d(3) [OF fs] by (simp add: enforce_frame_def)
  have t: "t \<noteq> slower" using slower_slower(2) [OF sl(1)] by auto
  have "tier_keys m' t = tier_keys ?m t"
    using m'(4) slower_slower(2) [OF sl(1)] by (auto simp: enforce_frame_def tier_keys_def)
  also have "\<dots> = tier_keys m t" using d(4) [OF fs] t by (auto simp: tier_keys_def)
  finally have keys: "tier_keys m' t = tier_keys m t" .
  have "fits m' t'" if "t' \<in> set (slower_tiers t)" for t'
    using m'(2,3) sl(3) [OF that] unconfigured_fits [of m' t'] c by (auto simp: mgr_inv_def)
  moreover have "enforce_frame t m0 ?m"
  proof -
    have "mgr_content ?m \<subseteq>\<^sub>m mgr_content m0"
      using frame b(3) d(2) [OF fs] by (auto simp: enforce_frame_def map_le_def)
    moreover have "mgr_blocks ?m k = Some b' \<longleftrightarrow> mgr_blocks m0 k = Some b'"
      if "b_tier b' \<notin> set (t # slower_tiers t)" for k b'
      using that frame d(4) [OF fs, of b' k] sl(1) by (auto simp: enforce_frame_def)
    ultimately show ?thesis using frame d(3) [OF fs] by (simp add: enforce_frame_def)
  qed
  ultimately show ?thesis
    using m'(1,2) c keys enforce_frame_trans [OF _ enforce_frame_slower [OF sl(1) m'(4)]] by blast
qed

text \<open>A tier above its threshold has a victim, and removing it gets one key closer to an empty tier.\<close>

lemma victim_removed:
  assumes "mgr_inv m" "\<forall>t' \<in> set (slower_tiers t). fits m t'" "\<not> fits m t"
  obtains key m1 b where "choose_victim t m = (Some key, m1)" "mgr_blocks m1 key = Some b"
    "mgr_config (RemoveLocked key m1) = mgr_config m" "card (tier_keys (RemoveLocked key m1) t) < card (tier_keys m t)"
    "\<forall>t' \<in> set (slower_tiers t). fits (RemoveLocked key m1) t'"
proof -
  have core: "mgr_core m" using assms(1) by (simp add: mgr_inv_def)
  obtain vk m1 where ch: "choose_victim t m = (vk, m1)" by (cases "choose_victim t m")
  have v: "victim_ok t m (vk, m1)" using choose_victim_ok [OF assms(1), of t] ch by simp
  have "vk \<noteq> None" using v assms(3) empty_tier_fits [OF core, of t] by (cases vk) (auto simp: victim_ok_def tier_keys_def)
  then obtain key b where vk: "vk = Some key" and b: "mgr_blocks m1 key = Some b" using v by (auto simp: victim_ok_def)
  note e = evict_one [OF assms(1) ch [unfolded vk] b]
  have cfg: "mgr_config (RemoveLocked key m1) = mgr_config m" using e(4) by (simp add: enforce_frame_def)
  have "card (tier_keys (RemoveLocked key m1) t) < card (tier_keys m t)"
    unfolding e(5) by (rule card_Diff1_less [OF finite_tier_keys [OF core] e(6)])
  moreover have "\<forall>t' \<in> set (slower_tiers t). fits (RemoveLocked key m1) t'"
    using assms(2) e(7) slower_slower(2) cfg by (fastforce simp: fits_def)
  ultimately show thesis using that ch vk b cfg by blast
qed

text \<open>One round of the loop, given that it succeeds with fewer keys in this tier and on every slower tier.\<close>

lemma enforce_round:
  assumes inv: "mgr_inv m" and conf: "configured (mgr_config m) t" and fits: "\<forall>t' \<in> set (slower_tiers t). fits m t'" and over: "\<not> fits m t"
    and here: "\<And>m'. card (tier_keys m' t) < card (tier_keys m t) \<Longrightarrow> mgr_inv m' \<Longrightarrow> mgr_config m' = mgr_config m \<Longrightarrow>
      \<forall>t' \<in> set (slower_tiers t). fits m' t' \<Longrightarrow> enforced t m' (EnforceCapacity t m')"
    and below: "\<And>slower m'. slower \<in> set (slower_tiers t) \<Longrightarrow> mgr_inv m' \<Longrightarrow> configured (mgr_config m') slower \<Longrightarrow>
      \<forall>t' \<in> set (slower_tiers slower). fits m' t' \<Longrightarrow> enforced slower m' (EnforceCapacity slower m')"
  shows "enforced t m (EnforceCapacity t m)"
proof -
  obtain key m1 b where ch: "choose_victim t m = (Some key, m1)" and b: "mgr_blocks m1 key = Some b"
    and v: "mgr_config (RemoveLocked key m1) = mgr_config m" "card (tier_keys (RemoveLocked key m1) t) < card (tier_keys m t)"
      "\<forall>t' \<in> set (slower_tiers t). fits (RemoveLocked key m1) t'"
    using victim_removed [OF inv fits over] by blast
  define m2 where "m2 = RemoveLocked key m1"
  note v = v [folded m2_def] and e = evict_one [OF inv ch b, folded m2_def]
  have tick: "enforce_frame t m (tick m2)" using e(4) by (simp add: enforce_frame_def)
  note step = EnforceCapacity.simps [of t m] over [unfolded fits_def] ch b m2_def [symmetric] v(1)
  consider "NextSlowerConfigured (mgr_config m) t = None"
    | slower where "NextSlowerConfigured (mgr_config m) t = Some slower" "\<not> BlockSizeBytes (sb_block b) \<le> CapacityOf (mgr_config m) slower"
    | slower where "NextSlowerConfigured (mgr_config m) t = Some slower" "BlockSizeBytes (sb_block b) \<le> CapacityOf (mgr_config m) slower"
    by (cases "NextSlowerConfigured (mgr_config m) t") auto
  then show ?thesis
  proof cases
    case 1
    have "EnforceCapacity t m = EnforceCapacity t m2" using 1 by (simp add: step)
    with here [OF v(2) e(1) v(1,3)] enforced_trans [OF e(4)] show ?thesis by simp
  next
    case (2 slower)
    have "EnforceCapacity t m = EnforceCapacity t (tick m2)" using 2 by (simp add: step)
    with here [of "tick m2"] v e(1) enforced_trans [OF tick] show ?thesis by simp
  next
    case (3 slower)
    have "\<exists>m'. EnforceCapacity slower (demote slower b (tick m2)) = Some (Ok, m') \<and> mgr_inv m'
        \<and> mgr_config m' = mgr_config (tick m2) \<and> tier_keys m' t = tier_keys (tick m2) t
        \<and> (\<forall>t' \<in> set (slower_tiers t). fits m' t') \<and> enforce_frame t m m'"
      by (rule demotion_enforced [where key = key, OF _ tick])
        (use e(1,3,8,9) v 3 conf below [OF NextSlowerConfigured_Some(1) [OF 3(1)]] in simp_all)
    then obtain m5 where m5: "EnforceCapacity slower (demote slower b (tick m2)) = Some (Ok, m5)" "mgr_inv m5"
        "mgr_config m5 = mgr_config m" "tier_keys m5 t = tier_keys m2 t" "\<forall>t' \<in> set (slower_tiers t). fits m5 t'"
        "enforce_frame t m m5"
      using v(1) by auto
    have "EnforceCapacity t m = EnforceCapacity t m5" using 3 m5(1) by (simp add: step)
    with here [OF _ m5(2,3,5)] m5(4) v(2) enforced_trans [OF m5(6)] show ?thesis by simp
  qed
qed

lemma EnforceCapacity_ok:
  assumes "mgr_inv m" "configured (mgr_config m) t" "\<forall>t' \<in> set (slower_tiers t). fits m t'"
  shows "enforced t m (EnforceCapacity t m)"
  using assms
proof (induction "length (slower_tiers t)" arbitrary: t m rule: less_induct)
  case level: less
  from level.prems show ?case
  proof (induction "card (tier_keys m t)" arbitrary: m rule: less_induct)
    case less
    show ?case
    proof (cases "fits m t")
      case True
      then have "EnforceCapacity t m = Some (Ok, m)" by (subst EnforceCapacity.simps) (simp add: fits_def)
      with True less.prems show ?thesis by (simp add: enforced_def)
    next
      case False
      show ?thesis
        by (rule enforce_round [OF less.prems False])
          (use less.hyps less.prems(2) level.hyps [OF slower_slower(3)] in auto)
    qed
  qed
qed

end
