(* ===== verification/Storage_Safety.thy ===== *)
theory Storage_Safety
  imports Storage_Eviction
begin

text \<open>
  The public operations of the tiered store: each ends, keeps the invariant and the capacities, and
  never changes the content of a block.
\<close>

section \<open>Operations\<close>

text \<open>The state between operations: the invariant, and every tier within its threshold.\<close>

definition store_ok :: "TieredStorageManager \<Rightarrow> bool" where
  "store_ok m \<longleftrightarrow> mgr_inv m \<and> (\<forall>t. fits m t)"

lemma store_ok_init: "config_ok c \<Longrightarrow> store_ok (TieredStorageManager_init c)"
  by (simp add: store_ok_def mgr_inv_def mgr_core_def TieredStorageManager_init_def blocks_ok_def used_rel_def
      small_rel_def index_rel_def quota_rel_def ghost_ok_def queues_ok_def fits_def bytes_where_def victims_where_def)

lemma bytes_where_cong:
  assumes "finite (dom B)" "finite (dom B')" "\<And>k b. P b \<Longrightarrow> B' k = Some b \<longleftrightarrow> B k = Some b"
  shows "bytes_where B' P = bytes_where B P"
proof -
  have s: "share P (B' k) = share P (B k)" for k
  proof (cases "\<exists>b. P b \<and> B k = Some b")
    case True
    then obtain b where "P b" "B k = Some b" by blast
    with assms(3) [of b k] show ?thesis by simp
  next
    case False
    with assms(3) have "share P (B k) = 0" "share P (B' k) = 0"
      by (auto simp: share_def split: option.splits)
    then show ?thesis by simp
  qed
  have "bytes_where B' P = (\<Sum>k \<in> dom B \<union> dom B'. share P (B' k))"
    unfolding bytes_where_def using assms(1,2) by (intro sum.mono_neutral_left) (auto simp: share_def split: option.splits)
  also have "\<dots> = (\<Sum>k \<in> dom B \<union> dom B'. share P (B k))" by (simp add: s)
  also have "\<dots> = bytes_where B P"
    unfolding bytes_where_def using assms(1,2) by (intro sum.mono_neutral_right) (auto simp: share_def split: option.splits)
  finally show ?thesis .
qed

lemma used_frame:
  assumes "mgr_inv m" "mgr_inv m'" "enforce_frame s m m'" "t \<notin> set (s # slower_tiers s)"
  shows "used_bytes m' t = used_bytes m t"
proof -
  have c: "mgr_core m" "mgr_core m'" using assms by (auto simp: mgr_inv_def)
  have "bytes_where (mgr_blocks m') (\<lambda>b. b_tier b = t) = bytes_where (mgr_blocks m) (\<lambda>b. b_tier b = t)"
    by (rule bytes_where_cong [OF mgr_coreD(3) mgr_coreD(3)]) (use c assms(3,4) in \<open>auto simp: enforce_frame_def\<close>)
  with mgr_coreD(5) [OF c(1)] mgr_coreD(5) [OF c(2)] show ?thesis by (simp add: used_rel_def)
qed

text \<open>Insertion of a fresh block with the enforcement that follows it.\<close>

lemma place_enforced:
  assumes "store_ok m" "mgr_blocks m key = None" "block_ok (mgr_config m) key stored"
  shows "\<exists>m'. EnforceCapacity (b_tier stored) (insert_stored stored m) = Some (Ok, m') \<and> store_ok m'
    \<and> mgr_config m' = mgr_config m \<and> mgr_content m' \<subseteq>\<^sub>m (mgr_content m)(key \<mapsto> sb_block stored)"
proof -
  let ?t = "b_tier stored" and ?m = "insert_stored stored m"
  have core: "mgr_core m" and q: "queues_ok {} m" and f: "fits m t" for t
    using assms(1) by (auto simp: store_ok_def mgr_inv_def)
  have k: "te_key (sb_entry stored) = key" using assms(3) by (simp add: block_ok_def)
  note i = insert_stored_fields [where stored = stored and m = m, unfolded k]
  have inv: "mgr_inv ?m"
    using insert_stored_core [OF core assms(2,3) f] insert_stored_queues [OF q] by (simp add: mgr_inv_def)
  have other: "fits ?m t" if "t \<noteq> ?t" for t using f [of t] that by (simp add: fits_def i(1,4))
  have "enforced ?t ?m (EnforceCapacity ?t ?m)"
    using assms(3) other slower_slower(2) by (intro EnforceCapacity_ok [OF inv]) (fastforce simp: i(1) block_ok_def)+
  then obtain m' where m': "EnforceCapacity ?t ?m = Some (Ok, m')" "mgr_inv m'"
      "\<forall>t' \<in> set (?t # slower_tiers ?t). fits m' t'" "enforce_frame ?t ?m m'"
    by (auto simp: enforced_def)
  have "fits m' t" for t
  proof (cases "t \<in> set (?t # slower_tiers ?t)")
    case False
    from used_frame [OF inv m'(2,4) False] other [of t] False m'(4) show ?thesis
      by (simp add: fits_def enforce_frame_def)
  qed (use m'(3) in blast)
  moreover have "mgr_content ?m = (mgr_content m)(key \<mapsto> sb_block stored)"
    by (rule ext) (simp add: mgr_content_def i(3))
  ultimately show ?thesis using m' i(1) by (auto simp: store_ok_def enforce_frame_def)
qed

lemma remove_ok:
  assumes "store_ok m" "mgr_blocks m key = Some b"
  shows "store_ok (RemoveLocked key m)" "mgr_content (RemoveLocked key m) = (mgr_content m)(key := None)"
proof -
  note f = RemoveLocked_fields [OF assms(2)]
  have core: "mgr_core m" and q: "queues_ok {} m" and fm: "fits m t" for t
    using assms(1) by (auto simp: store_ok_def mgr_inv_def)
  have "queues_ok {} (RemoveLocked key m)"
    by (rule queues_okI) (use queues_okD [OF q] in \<open>auto simp: f split: if_splits\<close>)
  moreover have "b_size b \<le> used_bytes m (b_tier b)"
    using mgr_coreD(3,5) [OF core] assms(2) bytes_where_le [of "mgr_blocks m" key b "\<lambda>b'. b_tier b' = b_tier b"]
    by (simp add: used_rel_def)
  then have "fits (RemoveLocked key m) t" for t using fm [of t] by (auto simp: fits_def f(1,4) u64_sub_def)
  ultimately show "store_ok (RemoveLocked key m)"
    using RemoveLocked_core [OF core assms(2)] by (simp add: store_ok_def mgr_inv_def)
  show "mgr_content (RemoveLocked key m) = (mgr_content m)(key := None)"
    by (rule ext) (simp add: mgr_content_def f(3))
qed

lemma tick_ok [simp]: "store_ok (tick m) = store_ok m"
  by (simp add: store_ok_def)

lemma GhostConsume_ok:
  assumes "store_ok m" "GhostConsume key m = (hit, m')"
  shows "store_ok m'" "mgr_content m' = mgr_content m" "mgr_config m' = mgr_config m" "mgr_blocks m' = mgr_blocks m"
    and "fastest_tier_cache m' = fastest_tier_cache m"
proof -
  have "mgr_core m" using assms(1) by (simp add: store_ok_def mgr_inv_def)
  then have "mgr_core (m\<lparr>mgr_ghost := mgr_ghost m - {key}\<rparr>)"
    using mgr_core_ghost [of m "mgr_ghost m - {key}" "ghost_fifo m"] mgr_coreD(9) [of m] by (auto simp: ghost_ok_def)
  then show "store_ok m'" "mgr_content m' = mgr_content m" "mgr_config m' = mgr_config m" "mgr_blocks m' = mgr_blocks m"
      "fastest_tier_cache m' = fastest_tier_cache m"
    using assms by (auto simp: GhostConsume_def store_ok_def mgr_inv_def fits_def queues_ok_def mgr_content_def fun_eq_iff
        split: if_splits)
qed

lemma PlaceLocked_ok:
  assumes "store_ok m" "configured (mgr_config m) tier"
  shows "\<exists>st m'. PlaceLocked block tier tenant m = Some (st, m') \<and> store_ok m' \<and> mgr_config m' = mgr_config m
    \<and> (st = Ok \<longrightarrow> mgr_content m' \<subseteq>\<^sub>m (mgr_content m)(kb_key block \<mapsto> block))
    \<and> st = (if EvictionThresholdOf (mgr_config m) tier < BlockSizeBytes block then Failed kOutOfCapacity else Ok)
    \<and> (st \<noteq> Ok \<longrightarrow> m' = m)"
proof (cases "EvictionThresholdOf (mgr_config m) tier < BlockSizeBytes block")
  case True
  then show ?thesis using assms by (simp add: PlaceLocked_def)
next
  case False
  let ?key = "kb_key block"
  define st0 where "st0 = (case mgr_blocks m ?key of None \<Rightarrow> (fresh_stats, m) | Some b \<Rightarrow> (te_stats (sb_entry b), RemoveLocked ?key m))"
  obtain stats0 m1 where s0: "st0 = (stats0, m1)" by (cases st0)
  have m1: "store_ok m1" "mgr_blocks m1 ?key = None" "mgr_config m1 = mgr_config m" "mgr_content m1 \<subseteq>\<^sub>m mgr_content m"
    using s0 assms(1) remove_ok [OF assms(1), of ?key] RemoveLocked_fields(1,3) [of m ?key]
    by (auto simp: st0_def map_le_def mgr_content_def split: option.splits)
  obtain hit m3 where g: "GhostConsume ?key (tick m1) = (hit, m3)" by (cases "GhostConsume ?key (tick m1)")
  have m3: "store_ok m3" "mgr_blocks m3 ?key = None" "mgr_config m3 = mgr_config m" "mgr_content m3 \<subseteq>\<^sub>m mgr_content m"
    using GhostConsume_ok [OF _ g] m1 by simp_all
  obtain stored where e: "PlaceLocked block tier tenant m = EnforceCapacity tier (insert_stored stored m3)"
    and st: "sb_block stored = block" "b_tier stored = tier" "te_key (sb_entry stored) = ?key" "b_size stored = BlockSizeBytes block"
    using False s0 g unfolding PlaceLocked_def st0_def by (simp add: Let_def split: prod.splits)
  have "block_ok (mgr_config m3) ?key stored"
    using st False assms threshold_le_capacity [of "mgr_config m" tier] m3(3)
    by (auto simp: block_ok_def store_ok_def mgr_inv_def mgr_core_def)
  from place_enforced [OF m3(1,2) this] obtain m' where m': "PlaceLocked block tier tenant m = Some (Ok, m')" "store_ok m'"
      "mgr_config m' = mgr_config m" "mgr_content m' \<subseteq>\<^sub>m (mgr_content m3)(?key \<mapsto> block)"
    using e st m3(3) by auto
  from map_le_trans [OF m'(4) map_le_upd [OF m3(4)]] m' False show ?thesis by simp
qed

lemma ManagerWrite_ok:
  assumes "store_ok m"
  shows "\<exists>st m'. ManagerWrite block target tenant m = Some (st, m') \<and> store_ok m' \<and> mgr_config m' = mgr_config m
    \<and> (st = Ok \<longrightarrow> mgr_content m' \<subseteq>\<^sub>m (mgr_content m)(kb_key block \<mapsto> block))
    \<and> st = (case ResolveConfiguredTier (mgr_config m) target of
              None \<Rightarrow> Failed kInvalidArgument
            | Some tier \<Rightarrow> if EvictionThresholdOf (mgr_config m) tier < BlockSizeBytes block then Failed kOutOfCapacity else Ok)
    \<and> (st \<noteq> Ok \<longrightarrow> m' = m)"
proof (cases "ResolveConfiguredTier (mgr_config m) target")
  case None
  then show ?thesis using assms by (simp add: ManagerWrite_def)
next
  case (Some tier)
  from PlaceLocked_ok [OF assms fastest_configured [OF Some]] Some show ?thesis by (simp add: ManagerWrite_def)
qed

section \<open>Reads\<close>

text \<open>Both refreshes replace a block by one that differs in its statistics only.\<close>

lemma refresh_core:
  fixes m m' :: TieredStorageManager and b b' :: StoredBlock
  defines "B \<equiv> mgr_blocks m" and "t \<equiv> b_tier b" and "u \<equiv> b_tenant b"
  assumes core: "mgr_core m" and le: "\<And>t. fits m t" and b: "B key = Some b"
    and b': "b_tier b' = t" "b_tenant b' = u" "b_size b' = b_size b" "sb_block b' = sb_block b"
      "te_key (sb_entry b') = te_key (sb_entry b)" "s3_in_main b' = s3_in_main b"
    and same: "mgr_config m' = mgr_config m" "fastest_tier_cache m' = fastest_tier_cache m" "mgr_blocks m' = B(key \<mapsto> b')"
      "used_bytes m' = used_bytes m" "s3_small_used_bytes m' = s3_small_used_bytes m" "mgr_ghost m' = mgr_ghost m"
      "ghost_fifo m' = ghost_fifo m"
    and index: "victim_index m' = (if fastest_tier_cache m = Some t then victim_index m
      else (victim_index m)(t := insert (b_ts b', key) (victim_index m t - {(b_ts b, key)})))"
    and quota: "QuotaEnabled m \<Longrightarrow> tenant_used m' = (tenant_used m)(t := (erase_used u (b_size b) (tenant_used m t))
        (u \<mapsto> u64_add (value_or 0 (erase_used u (b_size b) (tenant_used m t) u)) (b_size b)))"
      "QuotaEnabled m \<Longrightarrow> tenant_victim_index m' = (tenant_victim_index m)(t :=
        map_put u (insert (b_ts b', key) (value_or {} (map_of (erase_victim u (b_ts b, key) (tenant_victim_index m t)) u)))
          (erase_victim u (b_ts b, key) (tenant_victim_index m t)))"
  shows "mgr_core m'"
proof -
  note c = mgr_coreD [OF core, folded B_def]
  have put: "(B(key := None))(key \<mapsto> b') = B(key \<mapsto> b')" by simp
  have bw: "bytes_where (B(key \<mapsto> b')) P = bytes_where B P" if "P b' \<longleftrightarrow> P b" for P
    by (rule bytes_where_update [OF c(3) b that b'(3)])
  have "blocks_ok (mgr_config m) (B(key \<mapsto> b'))"
    using c(3,4) c(4) [OF b] b' unfolding blocks_ok_def t_def by (auto simp: block_ok_def [of _ key b'] block_ok_def [of _ key b])
  moreover have "used_rel (used_bytes m) (B(key \<mapsto> b'))" using c(5) b'(1) by (simp add: used_rel_def bw t_def)
  moreover have "small_rel (fastest_tier_cache m) (s3_small_used_bytes m) (B(key \<mapsto> b'))"
    using c(6) b'(1,6) by (simp add: small_rel_def bw t_def)
  moreover have "index_rel (fastest_tier_cache m) (victim_index m') (B(key \<mapsto> b'))"
    using index_rel_put [OF index_rel_remove [OF c(7) b], of key b'] b'(1)
    by (cases "fastest_tier_cache m = Some t") (simp_all add: index t_def)
  moreover have "quota_rel (tenant_used m') (tenant_victim_index m') (B(key \<mapsto> b'))" if q: "QuotaEnabled m"
  proof -
    let ?U = "(tenant_used m)(t := erase_used u (b_size b) (tenant_used m t))"
    let ?V = "(tenant_victim_index m)(t := erase_victim u (b_ts b, key) (tenant_victim_index m t))"
    have r: "quota_rel ?U ?V (B(key := None))"
      using quota_rel_remove [OF c(8) [OF q] c(3) b] by (simp add: t_def u_def)
    have "used_bytes m t \<le> 2 ^ 53"
      using le [of t] threshold_le_capacity [OF c(1), of t] c(1) by (auto simp: config_ok_def fits_def intro: order_trans)
    then have "value_or 0 (?U t u) + b_size b < 2 ^ 64"
      using tenant_used_le [OF core q, of t u] c(8) [OF q] bytes_where_le [OF c(3) b, of "\<lambda>b. b_tier b = t \<and> b_tenant b = u"]
      by (simp add: quota_rel_def value_or_erase_used t_def u_def)
    then have "value_or 0 (?U (b_tier b') (b_tenant b')) + b_size b' < 2 ^ 64" using b'(1-3) by simp
    from quota_rel_put [of ?U ?V "B(key := None)" key b', OF r _ _ this] c(3) b'(1-3) quota [OF q] show ?thesis by simp
  qed
  ultimately show ?thesis
    using c(1,2,9) same QuotaEnabled_cong [OF same(1)] by (simp add: mgr_core_def ghost_ok_def B_def)
qed

lemma refresh_fast_ok:
  assumes "store_ok m" "mgr_blocks m key = Some b" "fastest_tier_cache m = Some (b_tier b)"
  shows "store_ok (refresh_fast key b m)" "mgr_content (refresh_fast key b m) = mgr_content m"
    and "mgr_config (refresh_fast key b m) = mgr_config m"
proof -
  let ?m = "refresh_fast key b m"
  have core: "mgr_core m" and q: "queues_ok {} m" and f: "fits m t" for t
    using assms(1) by (auto simp: store_ok_def mgr_inv_def)
  have k: "te_key (sb_entry b) = key" using mgr_coreD(4) [OF core assms(2)] by (simp add: block_ok_def)
  define b' where "b' = b\<lparr>sb_entry := touch_entry (tick m) (sb_entry b), s3_freq := min (s3_freq b + 1) 3\<rparr>"
  note d = refresh_fast_def Let_def AccountErase_def AccountInsert_def QuotaEnabled_def tick_def touch_entry_def
    victim_order_def
  have B: "mgr_blocks ?m = (mgr_blocks m)(key \<mapsto> b')" by (simp add: d b'_def)
  have F: "mgr_config ?m = mgr_config m" "fastest_tier_cache ?m = fastest_tier_cache m" "used_bytes ?m = used_bytes m"
    "s3_small_fifo ?m = s3_small_fifo m" "s3_main_fifo ?m = s3_main_fifo m"
    by (simp_all add: d)
  have "mgr_core ?m"
    by (rule refresh_core [OF core f assms(2), where b' = b']) (use assms(3) k in \<open>simp_all add: B F b'_def\<close>, simp_all add: d)
  moreover have "queues_ok {} ?m"
    by (rule queues_okI) (use queues_okD [OF q] queues_okD [OF q assms(2)] in \<open>auto simp: B F b'_def touch_entry_def split: if_splits\<close>)
  moreover have "fits ?m t" for t using f [of t] by (simp add: fits_def F)
  ultimately show "store_ok ?m" by (auto simp: store_ok_def mgr_inv_def)
  show "mgr_content ?m = mgr_content m" by (rule ext) (simp add: mgr_content_def B b'_def assms(2))
  show "mgr_config ?m = mgr_config m" by (rule F(1))
qed

lemma refresh_slow_ok:
  assumes "store_ok m" "mgr_blocks m key = Some b" "fastest_tier_cache m \<noteq> Some (b_tier b)"
  shows "store_ok (refresh_slow key b m)" "mgr_content (refresh_slow key b m) = mgr_content m"
    and "mgr_config (refresh_slow key b m) = mgr_config m" "fastest_tier_cache (refresh_slow key b m) = fastest_tier_cache m"
    and "\<exists>b'. mgr_blocks (refresh_slow key b m) key = Some b' \<and> sb_block b' = sb_block b \<and> b_tier b' = b_tier b"
proof -
  let ?m = "refresh_slow key b m"
  have core: "mgr_core m" and q: "queues_ok {} m" and f: "fits m t" for t
    using assms(1) by (auto simp: store_ok_def mgr_inv_def)
  have k: "te_key (sb_entry b) = key" using mgr_coreD(4) [OF core assms(2)] by (simp add: block_ok_def)
  define b' where "b' = b\<lparr>sb_entry := touch_entry (tick m) (sb_entry b)\<rparr>"
  note d = refresh_slow_def Let_def AccountErase_def AccountInsert_def QuotaEnabled_def tick_def touch_entry_def
    victim_order_def IndexErase_def IndexInsert_def
  have B: "mgr_blocks ?m = (mgr_blocks m)(key \<mapsto> b')" by (simp add: d b'_def)
  have F: "mgr_config ?m = mgr_config m" "fastest_tier_cache ?m = fastest_tier_cache m" "used_bytes ?m = used_bytes m"
    "s3_small_fifo ?m = s3_small_fifo m" "s3_main_fifo ?m = s3_main_fifo m"
    by (simp_all add: d)
  have "mgr_core ?m"
    by (rule refresh_core [OF core f assms(2), where b' = b']) (use assms(3) k in \<open>simp_all add: B F b'_def\<close>, simp_all add: d)
  moreover have "queues_ok {} ?m"
    by (rule queues_okI) (use queues_okD [OF q] queues_okD [OF q assms(2)] in \<open>auto simp: B F b'_def touch_entry_def split: if_splits\<close>)
  moreover have "fits ?m t" for t using f [of t] by (simp add: fits_def F)
  ultimately show "store_ok ?m" by (auto simp: store_ok_def mgr_inv_def)
  show "mgr_content ?m = mgr_content m" by (rule ext) (simp add: mgr_content_def B b'_def assms(2))
  show "mgr_config ?m = mgr_config m" "fastest_tier_cache ?m = fastest_tier_cache m" by (rule F)+
  show "\<exists>b'. mgr_blocks ?m key = Some b' \<and> sb_block b' = sb_block b \<and> b_tier b' = b_tier b"
    by (simp add: B b'_def touch_entry_def)
qed

text \<open>A promoting read takes the block out of its tier and inserts it into the fastest one.\<close>

lemma promote_read_ok:
  assumes "store_ok m" "mgr_blocks m key = Some b"
    and "fastest_tier_cache m = Some fast" "b_size b \<le> EvictionThresholdOf (mgr_config m) fast"
  obtains m' where "promote_read key fast b m = Some (case mgr_blocks m' key of None \<Rightarrow> (Inl kInternal, m') | Some b' \<Rightarrow> (Inr (sb_block b'), m'))"
    "store_ok m'" "mgr_config m' = mgr_config m" "mgr_content m' \<subseteq>\<^sub>m mgr_content m"
proof -
  define stored where "stored = \<lparr>sb_block = sb_block b, sb_entry = \<lparr>te_key = key, te_tier = fast,
    te_size_bytes = b_size b, te_stats = te_stats (sb_entry b), te_tenant_id = b_tenant b\<rparr>, s3_freq = 0, s3_in_main = True\<rparr>"
  have c: "mgr_core m" using assms(1) by (simp add: store_ok_def mgr_inv_def)
  let ?m = "RemoveLocked key m"
  have m: "store_ok ?m" "mgr_content ?m = (mgr_content m)(key := None)" "mgr_blocks ?m key = None" "mgr_config ?m = mgr_config m"
    using remove_ok [OF assms(1,2)] RemoveLocked_fields(1,3) [OF assms(2)] by simp_all
  have "configured (mgr_config m) fast" using fastest_configured mgr_coreD(2) [OF c] assms(3) by metis
  then have "block_ok (mgr_config ?m) key stored"
    using mgr_coreD(4) [OF c assms(2)] assms(4) threshold_le_capacity [OF mgr_coreD(1) [OF c], of fast] m(4)
    by (simp add: block_ok_def stored_def)
  from place_enforced [OF m(1,3) this] obtain m' where m': "EnforceCapacity fast (insert_stored stored ?m) = Some (Ok, m')"
      "store_ok m'" "mgr_config m' = mgr_config ?m" "mgr_content m' \<subseteq>\<^sub>m (mgr_content ?m)(key \<mapsto> sb_block b)"
    by (auto simp: stored_def)
  moreover have "(mgr_content ?m)(key \<mapsto> sb_block b) = mgr_content m" using assms(2) m(2) by (intro ext) (simp add: mgr_content_def)
  moreover have "promote_read key fast b m = Some (case mgr_blocks m' key of None \<Rightarrow> (Inl kInternal, m') | Some b' \<Rightarrow> (Inr (sb_block b'), m'))"
    using m'(1) by (simp add: promote_read_def stored_def)
  ultimately show thesis using that m(4) by simp
qed

lemma ManagerRead_ok:
  assumes "store_ok m"
  shows "\<exists>r m'. ManagerRead key m = Some (r, m') \<and> store_ok m' \<and> mgr_config m' = mgr_config m
    \<and> mgr_content m' \<subseteq>\<^sub>m mgr_content m
    \<and> (case r of
         Inr block \<Rightarrow> mgr_content m key = Some block
       | Inl code \<Rightarrow> (code = kNotFound \<and> mgr_content m key = None \<and> m' = m)
                  \<or> (code = kInternal \<and> mgr_content m key \<noteq> None \<and> mgr_content m' key = None))"
proof (cases "mgr_blocks m key")
  case None
  then show ?thesis using assms by (simp add: ManagerRead_def mgr_content_def)
next
  case (Some b)
  have content: "mgr_content m key = Some (sb_block b)" by (simp add: mgr_content_def Some)
  show ?thesis
  proof (cases "fastest_tier_cache m = Some (b_tier b)")
    case True
    with refresh_fast_ok [OF assms Some True] Some content show ?thesis by (simp add: ManagerRead_def)
  next
    case False
    define m1 where "m1 = refresh_slow key b m"
    note r = refresh_slow_ok [OF assms Some False, folded m1_def]
    obtain b1 where b1: "mgr_blocks m1 key = Some b1" "sb_block b1 = sb_block b" using r(5) by blast
    show ?thesis
    proof (cases "\<exists>fast. fastest_tier_cache m1 = Some fast \<and> b_size b1 \<le> EvictionThresholdOf (mgr_config m1) fast")
      case False2: False
      then have "ManagerRead key m = Some (Inr (sb_block b1), m1)"
        using Some False b1 by (auto simp: ManagerRead_def m1_def [symmetric] split: option.splits)
      then show ?thesis using r b1 content by simp
    next
      case True
      then obtain fast where fast: "fastest_tier_cache m1 = Some fast" "b_size b1 \<le> EvictionThresholdOf (mgr_config m1) fast"
        by blast
      obtain m' where m': "promote_read key fast b1 m1 = Some (case mgr_blocks m' key of None \<Rightarrow> (Inl kInternal, m') | Some b' \<Rightarrow> (Inr (sb_block b'), m'))"
          "store_ok m'" "mgr_config m' = mgr_config m1" "mgr_content m' \<subseteq>\<^sub>m mgr_content m"
        using promote_read_ok [OF r(1) b1(1) fast] unfolding r(2) by blast
      have "ManagerRead key m = Some (case mgr_blocks m' key of None \<Rightarrow> (Inl kInternal, m') | Some b' \<Rightarrow> (Inr (sb_block b'), m'))"
        using Some False b1 fast m'(1) by (simp add: ManagerRead_def m1_def [symmetric])
      moreover have "mgr_content m key = Some (sb_block b')" if "mgr_blocks m' key = Some b'" for b'
        using map_le_Some [OF m'(4), of key "sb_block b'"] that by (simp add: mgr_content_def)
      ultimately show ?thesis using m' r(3) content
        by (cases "mgr_blocks m' key") (auto simp: mgr_content_def [of m'])
    qed
  qed
qed

lemma prefetch_blocks_ok:
  assumes "store_ok m" "configured (mgr_config m) fastest"
  shows "\<exists>m'. prefetch_blocks fastest keys m = Some (Ok, m') \<and> store_ok m' \<and> mgr_config m' = mgr_config m
    \<and> mgr_content m' \<subseteq>\<^sub>m mgr_content m"
  using assms
proof (induction keys arbitrary: m)
  case (Cons key keys)
  show ?case
  proof (cases "\<exists>b. mgr_blocks m key = Some b \<and> b_tier b \<noteq> fastest \<and> BlockSizeBytes (sb_block b) \<le> EvictionThresholdOf (mgr_config m) fastest")
    case False
    then have "prefetch_blocks fastest (key # keys) m = prefetch_blocks fastest keys m" by (auto split: option.splits)
    with Cons show ?thesis by simp
  next
    case True
    then obtain b where b: "mgr_blocks m key = Some b" "b_tier b \<noteq> fastest" "BlockSizeBytes (sb_block b) \<le> EvictionThresholdOf (mgr_config m) fastest"
      by blast
    obtain m1 where m1: "PlaceLocked (sb_block b) fastest (b_tenant b) m = Some (Ok, m1)" "store_ok m1" "mgr_config m1 = mgr_config m"
        "mgr_content m1 \<subseteq>\<^sub>m (mgr_content m)(kb_key (sb_block b) \<mapsto> sb_block b)"
      using PlaceLocked_ok [OF Cons.prems, of "sb_block b" "b_tenant b"] b(3) by auto
    have "kb_key (sb_block b) = key"
      using mgr_coreD(4) [OF _ b(1)] Cons.prems(1) by (simp add: store_ok_def mgr_inv_def block_ok_def)
    then have "mgr_content m1 \<subseteq>\<^sub>m mgr_content m"
      using m1(4) b(1) fun_upd_idem [of "mgr_content m" key "Some (sb_block b)"] by (simp add: mgr_content_def [of m key])
    with Cons.IH [OF m1(2)] m1 b Cons.prems(2) map_le_trans show ?thesis by fastforce
  qed
qed simp

lemma ManagerPrefetch_ok:
  assumes "store_ok m"
  shows "\<exists>st m'. ManagerPrefetch keys m = Some (st, m') \<and> store_ok m' \<and> mgr_config m' = mgr_config m
    \<and> mgr_content m' \<subseteq>\<^sub>m mgr_content m
    \<and> st = (if ResolveConfiguredTier (mgr_config m) kHBM = None then Failed kInvalidArgument else Ok)"
proof (cases "ResolveConfiguredTier (mgr_config m) kHBM")
  case None
  then show ?thesis using assms by (simp add: ManagerPrefetch_def)
next
  case (Some fastest)
  from prefetch_blocks_ok [OF assms fastest_configured [OF Some], of keys] Some show ?thesis
    by (auto simp: ManagerPrefetch_def)
qed

section \<open>Reachable stores\<close>

text \<open>The states of a store built from a configuration, after any sequence of public operations.\<close>

inductive store_reach :: "TierConfig \<Rightarrow> TieredStorageManager \<Rightarrow> bool" for config where
  init: "store_reach config (TieredStorageManager_init config)"
| put: "store_reach config m \<Longrightarrow> ManagerWrite block target tenant m = Some (st, m') \<Longrightarrow> store_reach config m'"
| get: "store_reach config m \<Longrightarrow> ManagerRead key m = Some (r, m') \<Longrightarrow> store_reach config m'"
| prefetch: "store_reach config m \<Longrightarrow> ManagerPrefetch keys m = Some (st, m') \<Longrightarrow> store_reach config m'"

lemma store_reach_ok:
  assumes "store_reach config m" "config_ok config"
  shows "store_ok m \<and> mgr_config m = config"
  using assms(1)
proof induction
  case init
  show ?case using store_ok_init [OF assms(2)] by (simp add: TieredStorageManager_init_def)
next
  case (put m block target tenant st m')
  then show ?case using ManagerWrite_ok [of m block target tenant] by auto
next
  case (get m key r m')
  then show ?case using ManagerRead_ok [of m key] by auto
next
  case (prefetch m keys st m')
  then show ?case using ManagerPrefetch_ok [of m keys] by auto
qed

section \<open>Properties\<close>

text \<open>C2. Whatever is written, read and prefetched, the byte count of every tier is the sum of the sizes of
  the blocks it holds, without wrap-around, and stays within the eviction threshold, which is within
  the configured capacity; every block lies in a configured tier and no key is in two tiers. The
  capacities are at most \<open>2 ^ 53\<close>, where a \<^verbatim>\<open>double\<close> still represents them.\<close>

theorem store_within_capacity:
  assumes "config_ok config" "store_reach config m"
  shows "used_bytes m tier = (\<Sum>k \<in> {k. ManagerLocate k m = Some tier}. BlockSizeBytes (sb_block (the (mgr_blocks m k))))
    \<and> used_bytes m tier \<le> EvictionThresholdOf config tier \<and> EvictionThresholdOf config tier \<le> CapacityOf config tier
    \<and> (ManagerLocate k m = Some tier \<longrightarrow> configured config tier)"
proof -
  have ok: "store_ok m" "mgr_config m = config" using store_reach_ok [OF assms(2,1)] by auto
  then have core: "mgr_core m" and f: "fits m tier" by (auto simp: store_ok_def mgr_inv_def)
  note c = mgr_coreD [OF core]
  let ?K = "{k. ManagerLocate k m = Some tier}"
  have K: "?K \<subseteq> dom (mgr_blocks m)" by (auto simp: ManagerLocate_def)
  have "used_bytes m tier = (\<Sum>k \<in> dom (mgr_blocks m). share (\<lambda>b. b_tier b = tier) (mgr_blocks m k))"
    using c(5) by (simp add: used_rel_def bytes_where_def)
  also have "\<dots> = (\<Sum>k \<in> ?K. share (\<lambda>b. b_tier b = tier) (mgr_blocks m k))"
    by (rule sum.mono_neutral_right [OF c(3) K]) (auto simp: ManagerLocate_def share_def split: if_splits)
  also have "\<dots> = (\<Sum>k \<in> ?K. BlockSizeBytes (sb_block (the (mgr_blocks m k))))"
    using c(4) by (intro sum.cong) (auto simp: ManagerLocate_def block_ok_def)
  finally show ?thesis
    using f threshold_le_capacity [OF assms(1), of tier] c(4) ok(2) by (auto simp: fits_def ManagerLocate_def block_ok_def)
qed

text \<open>C9. Every operation on a reachable store returns: the eviction loops end, never pick a key that is not
  stored, and find a victim whenever a tier is over its threshold. A write fails only when no tier is
  configured or the block exceeds the threshold of its tier, and then changes nothing; a prefetch fails
  only when no tier is configured; a read that returns a block returns the bytes stored under the key.\<close>

theorem store_operations_end:
  assumes "config_ok config" "store_reach config m"
  shows "(\<exists>m'. ManagerWrite block target tenant m = Some
        (case ResolveConfiguredTier config target of
           None \<Rightarrow> (Failed kInvalidArgument, m)
         | Some tier \<Rightarrow> if EvictionThresholdOf config tier < BlockSizeBytes block then (Failed kOutOfCapacity, m) else (Ok, m')))
    \<and> (\<exists>m'. ManagerPrefetch keys m = Some (if ResolveConfiguredTier config kHBM = None then Failed kInvalidArgument else Ok, m')
        \<and> mgr_content m' \<subseteq>\<^sub>m mgr_content m)
    \<and> (\<exists>r m'. ManagerRead key m = Some (r, m') \<and> mgr_content m' \<subseteq>\<^sub>m mgr_content m
        \<and> (r = Inl kNotFound \<longleftrightarrow> ManagerLocate key m = None) \<and> (\<forall>b. r = Inr b \<longrightarrow> mgr_content m key = Some b))"
proof -
  have ok: "store_ok m" "mgr_config m = config" using store_reach_ok [OF assms(2,1)] by auto
  obtain st m1 where 1: "ManagerWrite block target tenant m = Some (st, m1)" "st \<noteq> Ok \<longrightarrow> m1 = m"
      "st = (case ResolveConfiguredTier config target of None \<Rightarrow> Failed kInvalidArgument
        | Some tier \<Rightarrow> if EvictionThresholdOf config tier < BlockSizeBytes block then Failed kOutOfCapacity else Ok)"
    using ManagerWrite_ok [OF ok(1), of block target tenant] unfolding ok(2) by blast
  obtain m2 where 2: "ManagerPrefetch keys m = Some (if ResolveConfiguredTier config kHBM = None then Failed kInvalidArgument else Ok, m2)"
      "mgr_content m2 \<subseteq>\<^sub>m mgr_content m"
    using ManagerPrefetch_ok [OF ok(1), of keys] unfolding ok(2) by blast
  obtain r m3 where 3: "ManagerRead key m = Some (r, m3)" "mgr_content m3 \<subseteq>\<^sub>m mgr_content m"
      "case r of Inr block \<Rightarrow> mgr_content m key = Some block
       | Inl code \<Rightarrow> (code = kNotFound \<and> mgr_content m key = None \<and> m3 = m)
                  \<or> (code = kInternal \<and> mgr_content m key \<noteq> None \<and> mgr_content m3 key = None)"
    using ManagerRead_ok [OF ok(1), of key] by blast
  have "r = Inl kNotFound \<longleftrightarrow> ManagerLocate key m = None" "\<forall>b. r = Inr b \<longrightarrow> mgr_content m key = Some b"
    using 3(3) by (cases r; auto simp: ManagerLocate_def mgr_content_def)+
  with 1 2 3(1,2) show ?thesis by (auto split: option.splits if_splits)
qed

text \<open>Two tiers of 10 and 8 bytes and a block, for the witnesses.\<close>

definition small_config :: TierConfig where
  "small_config = \<lparr>hbm_capacity_bytes = Some 10, dram_capacity_bytes = Some 8, nvme_capacity_bytes = None,
     high_water_ratio = 1, tenant_weights = [(1, 1)]\<rparr>"

definition sized_block :: "int \<Rightarrow> nat \<Rightarrow> KVCacheBlock" where
  "sized_block h n =
     \<lparr>kb_key = \<lparr>bk_hash_id = h, bk_layer = 0, bk_version = 1\<rparr>, k_payload = [], v_payload = replicate n 0\<rparr>"

lemma small_config_facts:
  "EvictionThresholdOf small_config kHBM = 10" "ResolveConfiguredTier small_config kHBM = Some kHBM"
  "BlockSizeBytes (sized_block h n) = n" "config_ok small_config"
proof -
  show "EvictionThresholdOf small_config kHBM = 10" "ResolveConfiguredTier small_config kHBM = Some kHBM" by code_simp+
  have "CapacityOf small_config t \<le> 2 ^ 53" for t by (cases t) (simp_all add: CapacityOf_def small_config_def)
  then show "config_ok small_config" by (simp add: config_ok_def) (simp add: small_config_def)
qed (simp add: sized_block_def BlockSizeBytes_def)

lemma small_write:
  obtains m where "ManagerWrite (sized_block 1 6) kHBM 2 (TieredStorageManager_init small_config) = Some (Ok, m)"
    "store_reach small_config m"
proof -
  have i: "store_ok (TieredStorageManager_init small_config)" "mgr_config (TieredStorageManager_init small_config) = small_config"
    using store_ok_init [OF small_config_facts(4)] by (simp_all add: TieredStorageManager_init_def)
  from ManagerWrite_ok [OF i(1), of "sized_block 1 6" kHBM 2] i(2)
  obtain m where "ManagerWrite (sized_block 1 6) kHBM 2 (TieredStorageManager_init small_config) = Some (Ok, m)"
    by (auto simp: small_config_facts(1-3))
  with that store_reach.put [OF store_reach.init] show thesis by blast
qed

theorem store_within_capacity_witness:
  "\<exists>m. ManagerWrite (sized_block 1 6) kHBM 2 (TieredStorageManager_init small_config) = Some (Ok, m)
     \<and> used_bytes m kHBM = (\<Sum>k \<in> {k. ManagerLocate k m = Some kHBM}. BlockSizeBytes (sb_block (the (mgr_blocks m k))))
     \<and> used_bytes m kHBM \<le> 10"
proof (rule small_write)
  fix m
  assume "ManagerWrite (sized_block 1 6) kHBM 2 (TieredStorageManager_init small_config) = Some (Ok, m)" "store_reach small_config m"
  with store_within_capacity [OF small_config_facts(4) this(2), of kHBM "kb_key (sized_block 1 6)"] show ?thesis
    unfolding small_config_facts(1) by blast
qed

theorem store_operations_end_witness:
  "\<exists>m m'. ManagerWrite (sized_block 1 6) kHBM 2 (TieredStorageManager_init small_config) = Some (Ok, m)
     \<and> ManagerWrite (sized_block 2 5) kHBM 3 m = Some (Ok, m')
     \<and> ManagerWrite (sized_block 3 11) kHBM 3 m = Some (Failed kOutOfCapacity, m)"
proof (rule small_write)
  fix m
  assume m: "ManagerWrite (sized_block 1 6) kHBM 2 (TieredStorageManager_init small_config) = Some (Ok, m)" "store_reach small_config m"
  note e = store_operations_end [OF small_config_facts(4) m(2), where target = kHBM and tenant = 3]
  from e [where block = "sized_block 2 5"] e [where block = "sized_block 3 11"] m(1) show ?thesis
    by (auto simp: small_config_facts(1-3))
qed

end
