(* ===== verification/Cpp_Store.thy ===== *)
theory Cpp_Store
  imports Storage_Safety
begin

text \<open>
  The Python face of the C++ core, \<^verbatim>\<open>src/bindings/bindings.cpp\<close>: the tiered store with the successor
  graph of \<^verbatim>\<open>src/storage/prefix_prefetcher.cpp\<close>. It provides the store protocol of the connector,
  and the contract the replay drivers rely on.
\<close>

section \<open>Successor graph\<close>

record PrefixPrefetcher =
  max_edges :: nat
  successor :: "(BlockKey, BlockKey) odict"
  edge_fifo :: "BlockKey list"

definition kDefaultMaxEdges :: nat where
  "kDefaultMaxEdges = 2 ^ 16"

definition PrefixPrefetcher_init :: "nat \<Rightarrow> PrefixPrefetcher" where
  "PrefixPrefetcher_init n = \<lparr>max_edges = (if n = 0 then 1 else n), successor = [], edge_fifo = []\<rparr>"

fun roll_edges ::
  "nat \<Rightarrow> (BlockKey, BlockKey) odict \<Rightarrow> BlockKey list \<Rightarrow> (BlockKey, BlockKey) odict \<times> BlockKey list" where
  "roll_edges limit edges [] = (edges, [])"
| "roll_edges limit edges (k # fifo) =
     (if limit < length edges then roll_edges limit (od_pop k edges) fifo else (edges, k # fifo))"

definition InsertEdge :: "BlockKey \<Rightarrow> BlockKey \<Rightarrow> PrefixPrefetcher \<Rightarrow> PrefixPrefetcher" where
  "InsertEdge from_key to_key p =
     (if od_contains from_key (successor p) then p\<lparr>successor := od_set from_key to_key (successor p)\<rparr>
      else
        (let (edges, fifo) = roll_edges (max_edges p) (od_set from_key to_key (successor p)) (edge_fifo p @ [from_key])
         in p\<lparr>successor := edges, edge_fifo := fifo\<rparr>))"

definition RecordSequence :: "BlockKey list \<Rightarrow> PrefixPrefetcher \<Rightarrow> PrefixPrefetcher" where
  "RecordSequence keys p =
     (if length keys < 2 then p else foldl (\<lambda>q (a, b). InsertEdge a b q) p (zip keys (tl keys)))"

text \<open>The successors of the cursor until the budget is spent or the chain returns to its anchor.\<close>

fun chain_from :: "(BlockKey, BlockKey) odict \<Rightarrow> BlockKey \<Rightarrow> nat \<Rightarrow> BlockKey \<Rightarrow> BlockKey list" where
  "chain_from edges anchor 0 cursor = []"
| "chain_from edges anchor (Suc n) cursor =
     (case map_of edges cursor of
        None \<Rightarrow> []
      | Some k \<Rightarrow> if k = anchor then [] else k # chain_from edges anchor n k)"

definition PredictChain :: "BlockKey \<Rightarrow> nat \<Rightarrow> PrefixPrefetcher \<Rightarrow> BlockKey list" where
  "PredictChain head budget p = chain_from (successor p) head budget head"

definition add_seen :: "BlockKey list \<Rightarrow> BlockKey \<Rightarrow> BlockKey list" where
  "add_seen merged k = (if k \<in> set merged then merged else merged @ [k])"

definition PredictChainMulti :: "BlockKey list \<Rightarrow> nat \<Rightarrow> PrefixPrefetcher \<Rightarrow> BlockKey list" where
  "PredictChainMulti anchors budget p =
     foldl (\<lambda>merged a. foldl add_seen merged (chain_from (successor p) a budget a)) [] anchors"

section \<open>The binding\<close>

record PyTieredStore =
  pts_manager :: TieredStorageManager
  pts_prefetcher :: PrefixPrefetcher

definition BlockFromPayload :: "BlockKey \<Rightarrow> bytes \<Rightarrow> KVCacheBlock" where
  "BlockFromPayload key payload =
     (let half = length payload div 2
      in \<lparr>kb_key = key, k_payload = take half payload, v_payload = drop half payload\<rparr>)"

definition PayloadFromBlock :: "KVCacheBlock \<Rightarrow> bytes" where
  "PayloadFromBlock block = k_payload block @ v_payload block"

text \<open>The conversion of a Python integer to an unsigned integer of some width.\<close>

definition py_uint :: "nat \<Rightarrow> int \<Rightarrow> nat result" where
  "py_uint bits n = (if 0 \<le> n \<and> n < 2 ^ bits then Inr (nat n) else Inl TypeError)"

definition mk_BlockKey :: "int \<Rightarrow> BlockKey result" where
  "mk_BlockKey hash_id =
     bind_result (py_uint 64 hash_id) (\<lambda>h. Inr \<lparr>bk_hash_id = int h, bk_layer = 0, bk_version = 1\<rparr>)"

fun opt_uint :: "int option \<Rightarrow> nat option result" where
  "opt_uint None = Inr None"
| "opt_uint (Some n) = bind_result (py_uint 64 n) (\<lambda>k. Inr (Some k))"

fun weight_map :: "(int \<times> pyfloat) list \<Rightarrow> (nat \<times> pyfloat) list result" where
  "weight_map [] = Inr []"
| "weight_map ((tenant, weight) # rest) =
     bind_result (py_uint 32 tenant) (\<lambda>t. bind_result (weight_map rest) (\<lambda>m.
       Inr (map_put t weight m)))"

definition mk_TieredStore ::
  "int option \<Rightarrow> int option \<Rightarrow> int option \<Rightarrow> pyfloat \<Rightarrow> (int \<times> pyfloat) list \<Rightarrow> PyTieredStore result" where
  "mk_TieredStore hbm dram nvme ratio weights =
     bind_result (opt_uint hbm) (\<lambda>h.
     bind_result (opt_uint dram) (\<lambda>d.
     bind_result (opt_uint nvme) (\<lambda>n.
     bind_result (weight_map weights) (\<lambda>tw.
       Inr \<lparr>pts_manager = TieredStorageManager_init \<lparr>hbm_capacity_bytes = h, dram_capacity_bytes = d,
              nvme_capacity_bytes = n, high_water_ratio = ratio, tenant_weights = tw\<rparr>,
            pts_prefetcher = PrefixPrefetcher_init kDefaultMaxEdges\<rparr>))))"

definition py_status :: "PyTieredStore \<Rightarrow> 'a \<Rightarrow> (status \<times> TieredStorageManager) option \<Rightarrow> ('a result \<times> PyTieredStore) option"
where
  "py_status s x r =
     map_option (\<lambda>(st, m). (if st = Ok then Inr x else Inl RuntimeError, s\<lparr>pts_manager := m\<rparr>)) r"

definition py_put :: "BlockKey \<Rightarrow> bytes \<Rightarrow> nat \<Rightarrow> (PyTieredStore, unit) prog" where
  "py_put key payload tenant_id s =
     py_status s () (ManagerWrite (BlockFromPayload key payload) kHBM tenant_id (pts_manager s))"

definition py_get :: "BlockKey \<Rightarrow> (PyTieredStore, bytes option) prog" where
  "py_get key s =
     map_option
       (\<lambda>(r, m). (Inr (case r of Inl _ \<Rightarrow> None | Inr block \<Rightarrow> Some (PayloadFromBlock block)), s\<lparr>pts_manager := m\<rparr>))
       (ManagerRead key (pts_manager s))"

definition py_exists :: "BlockKey \<Rightarrow> PyTieredStore \<Rightarrow> bool" where
  "py_exists key s \<longleftrightarrow> ManagerLocate key (pts_manager s) \<noteq> None"

definition py_prefetch :: "BlockKey list \<Rightarrow> (PyTieredStore, unit) prog" where
  "py_prefetch keys s = py_status s () (ManagerPrefetch keys (pts_manager s))"

definition py_record_sequence :: "BlockKey list \<Rightarrow> (PyTieredStore, unit) prog" where
  "py_record_sequence keys s = Some (Inr (), s\<lparr>pts_prefetcher := RecordSequence keys (pts_prefetcher s)\<rparr>)"

text \<open>Promotes a predicted chain and returns its length.\<close>

definition promote_chain :: "BlockKey list \<Rightarrow> (PyTieredStore, int) prog" where
  "promote_chain chain s =
     (if chain \<noteq> [] then prog_bind (py_prefetch chain) (\<lambda>_. prog_return (int (length chain))) s
      else prog_return 0 s)"

definition py_prefetch_chain :: "BlockKey \<Rightarrow> int \<Rightarrow> (PyTieredStore, int) prog" where
  "py_prefetch_chain head budget s =
     (case py_uint 64 budget of
        Inl e \<Rightarrow> Some (Inl e, s)
      | Inr n \<Rightarrow> promote_chain (PredictChain head n (pts_prefetcher s)) s)"

definition py_prefetch_chain_multi :: "BlockKey list \<Rightarrow> int \<Rightarrow> (PyTieredStore, int) prog" where
  "py_prefetch_chain_multi anchors budget s =
     (case py_uint 64 budget of
        Inl e \<Rightarrow> Some (Inl e, s)
      | Inr n \<Rightarrow> promote_chain (PredictChainMulti anchors n (pts_prefetcher s)) s)"

definition cpp_store :: "PyTieredStore TieredStore" where
  "cpp_store =
     \<lparr>ts_put = (\<lambda>key payload. py_put key payload 0), ts_get = py_get, ts_exists = py_exists, ts_prefetch = py_prefetch,
      ts_record_sequence = py_record_sequence, ts_prefetch_chain = py_prefetch_chain,
      ts_prefetch_chain_multi = py_prefetch_chain_multi\<rparr>"

section \<open>The successor graph is bounded\<close>

text \<open>The queue of edges is exactly the keys of the graph, so every edge can be rolled out.\<close>

definition graph_ok :: "PrefixPrefetcher \<Rightarrow> bool" where
  "graph_ok p \<longleftrightarrow> edge_fifo p = od_keys (successor p) \<and> od_ok (successor p)
     \<and> 0 < max_edges p \<and> length (successor p) \<le> max_edges p"

lemma graph_ok_init: "graph_ok (PrefixPrefetcher_init n)"
  by (simp add: graph_ok_def PrefixPrefetcher_init_def)

lemma roll_edges_drop:
  "od_ok edges \<Longrightarrow> roll_edges limit edges (od_keys edges) =
     (drop (length edges - limit) edges, drop (length edges - limit) (od_keys edges))"
proof (induction edges)
  case (Cons e edges)
  have "fst e \<notin> od_dom edges" using Cons.prems unfolding od_dom_def by simp
  then have "od_pop (fst e) (e # edges) = edges"
    using od_pop_fresh [of "fst e" edges] by (cases e) (simp add: od_pop_def)
  with Cons show ?case by (cases "limit < length (e # edges)") (auto simp: Suc_diff_le)
qed simp

lemma InsertEdge_ok:
  assumes "graph_ok p"
  shows "graph_ok (InsertEdge a b p)" "max_edges (InsertEdge a b p) = max_edges p"
proof -
  show "max_edges (InsertEdge a b p) = max_edges p" by (auto simp: InsertEdge_def split: prod.splits)
  show "graph_ok (InsertEdge a b p)"
  proof (cases "od_contains a (successor p)")
    case True
    then have k: "od_keys (od_set a b (successor p)) = od_keys (successor p)" by (simp add: od_simps)
    then have "length (od_set a b (successor p)) = length (successor p)" by (metis length_map)
    with k assms True show ?thesis by (simp add: InsertEdge_def graph_ok_def)
  next
    case False
    let ?e = "od_set a b (successor p)"
    have e: "?e = successor p @ [(a, b)]" "od_keys ?e = edge_fifo p @ [a]" "od_ok ?e"
      using False assms by (simp_all add: graph_ok_def od_set_fresh od_ok_set)
    define n where "n = length ?e - max_edges p"
    have "roll_edges (max_edges p) ?e (edge_fifo p @ [a]) = (drop n ?e, od_keys (drop n ?e))"
      using roll_edges_drop [OF e(3), of "max_edges p"] unfolding e(2) n_def drop_map by (simp add: e(2) drop_map [symmetric])
    then have "InsertEdge a b p = p\<lparr>successor := drop n ?e, edge_fifo := od_keys (drop n ?e)\<rparr>"
      using False by (simp add: InsertEdge_def)
    moreover have "od_ok (drop n ?e)" using e(3) by (simp add: drop_map [symmetric])
    moreover have "length (drop n ?e) \<le> max_edges p" by (simp add: n_def)
    ultimately show ?thesis using assms by (simp add: graph_ok_def)
  qed
qed

lemma RecordSequence_ok:
  assumes "graph_ok p"
  shows "graph_ok (RecordSequence keys p)" "max_edges (RecordSequence keys p) = max_edges p"
proof -
  have "graph_ok (foldl (\<lambda>q (a, b). InsertEdge a b q) p xs) \<and> max_edges (foldl (\<lambda>q (a, b). InsertEdge a b q) p xs) = max_edges p" for xs
    by (rule foldl_invariant [where P = "\<lambda>q. graph_ok q \<and> max_edges q = max_edges p"]) (use assms in \<open>auto simp: InsertEdge_ok\<close>)
  with assms show "graph_ok (RecordSequence keys p)" "max_edges (RecordSequence keys p) = max_edges p"
    by (simp_all add: RecordSequence_def)
qed

lemma chain_from_laws:
  "length (chain_from edges anchor n cursor) \<le> n" "anchor \<notin> set (chain_from edges anchor n cursor)"
  "set (chain_from edges anchor n cursor) \<subseteq> snd ` set edges"
proof (induction n arbitrary: cursor)
  case (Suc n)
  {
    case 1
    show ?case using Suc(1) by (auto split: option.splits)
  next
    case 2
    show ?case using Suc(2) by (auto split: option.splits)
  next
    case 3
    show ?case
    proof (cases "map_of edges cursor")
      case (Some k)
      from map_of_SomeD [OF this] have "k \<in> snd ` set edges" by (rule rev_image_eqI) simp
      with Some Suc(3) show ?thesis by simp
    qed simp
  }
qed simp_all

lemma foldl_add_seen:
  "distinct merged \<Longrightarrow> distinct (foldl add_seen merged ks) \<and> set (foldl add_seen merged ks) = set merged \<union> set ks
     \<and> length (foldl add_seen merged ks) \<le> length merged + length ks"
proof (induction ks arbitrary: merged)
  case (Cons k ks)
  have "distinct (add_seen merged k)" "set (add_seen merged k) = insert k (set merged)"
    "length (add_seen merged k) \<le> Suc (length merged)"
    using Cons.prems by (auto simp: add_seen_def)
  with Cons.IH [of "add_seen merged k"] show ?case by auto
qed simp

lemma PredictChainMulti_laws:
  "distinct (PredictChainMulti anchors n p)" "set (PredictChainMulti anchors n p) \<subseteq> snd ` set (successor p)"
  "length (PredictChainMulti anchors n p) \<le> length anchors * n"
proof -
  have "distinct (foldl (\<lambda>merged a. foldl add_seen merged (chain_from (successor p) a n a)) merged anchors)
      \<and> set (foldl (\<lambda>merged a. foldl add_seen merged (chain_from (successor p) a n a)) merged anchors) \<subseteq> set merged \<union> snd ` set (successor p)
      \<and> length (foldl (\<lambda>merged a. foldl add_seen merged (chain_from (successor p) a n a)) merged anchors) \<le> length merged + length anchors * n"
    if "distinct merged" for merged
    using that
  proof (induction anchors arbitrary: merged)
    case (Cons a anchors)
    let ?m = "foldl add_seen merged (chain_from (successor p) a n a)"
    have "distinct ?m" "set ?m \<subseteq> set merged \<union> snd ` set (successor p)" "length ?m \<le> length merged + n"
      using foldl_add_seen [OF Cons.prems, of "chain_from (successor p) a n a"] chain_from_laws [where edges = "successor p" and anchor = a and n = n and cursor = a]
      by auto
    with Cons.IH [of ?m] show ?case by auto
  qed simp
  from this [of "[]"] show "distinct (PredictChainMulti anchors n p)"
    "set (PredictChainMulti anchors n p) \<subseteq> snd ` set (successor p)"
    "length (PredictChainMulti anchors n p) \<le> length anchors * n"
    by (auto simp: PredictChainMulti_def)
qed

section \<open>The store keeps the connector's contract\<close>

lemma payload_roundtrip [simp]: "PayloadFromBlock (BlockFromPayload key payload) = payload"
  "kb_key (BlockFromPayload key payload) = key" "BlockSizeBytes (BlockFromPayload key payload) = length payload"
  by (simp_all add: PayloadFromBlock_def BlockFromPayload_def BlockSizeBytes_def Let_def)

definition store_content :: "PyTieredStore \<Rightarrow> BlockKey \<rightharpoonup> bytes" where
  "store_content s k = map_option PayloadFromBlock (mgr_content (pts_manager s) k)"

definition py_store_ok :: "PyTieredStore \<Rightarrow> bool" where
  "py_store_ok s \<longleftrightarrow> store_ok (pts_manager s) \<and> graph_ok (pts_prefetcher s)"

lemma map_leI: "(\<And>k v. m k = Some v \<Longrightarrow> m' k = Some v) \<Longrightarrow> m \<subseteq>\<^sub>m m'"
  unfolding map_le_def by force

lemma content_map_le:
  "mgr_content m \<subseteq>\<^sub>m mgr_content (pts_manager s) \<Longrightarrow> store_content (s\<lparr>pts_manager := m\<rparr>) \<subseteq>\<^sub>m store_content s"
  by (rule map_leI) (use map_le_Some [of "mgr_content m"] in \<open>fastforce simp: store_content_def\<close>)

lemma content_map_put:
  assumes "mgr_content m \<subseteq>\<^sub>m (mgr_content (pts_manager s))(k \<mapsto> block)"
  shows "store_content (s\<lparr>pts_manager := m\<rparr>) \<subseteq>\<^sub>m (store_content s)(k \<mapsto> PayloadFromBlock block)"
proof (rule map_leI)
  fix j v
  assume "store_content (s\<lparr>pts_manager := m\<rparr>) j = Some v"
  then obtain b where b: "mgr_content m j = Some b" "v = PayloadFromBlock b" by (auto simp: store_content_def)
  from map_le_Some [OF assms b(1)] b(2)
  show "((store_content s)(k \<mapsto> PayloadFromBlock block)) j = Some v"
    by (cases "j = k") (simp_all add: store_content_def)
qed

text \<open>The configuration of the store, and the largest payload its fastest tier takes.\<close>

definition store_room :: "PyTieredStore \<Rightarrow> nat option" where
  "store_room s = map_option (EvictionThresholdOf (mgr_config (pts_manager s)))
     (ResolveConfiguredTier (mgr_config (pts_manager s)) kHBM)"

lemma py_put_runs:
  assumes "py_store_ok s"
  shows "runs (py_put k b u) s (\<lambda>r s'. py_store_ok s' \<and> store_room s' = store_room s
    \<and> (case store_room s of
         Some n \<Rightarrow> if length b \<le> n then r = Inr () \<and> store_content s' \<subseteq>\<^sub>m (store_content s)(k \<mapsto> b)
                   else r = Inl RuntimeError \<and> s' = s
       | None \<Rightarrow> r = Inl RuntimeError \<and> s' = s))"
proof -
  obtain st m' where w: "ManagerWrite (BlockFromPayload k b) kHBM u (pts_manager s) = Some (st, m')" "store_ok m'"
      "mgr_config m' = mgr_config (pts_manager s)"
      "st = Ok \<longrightarrow> mgr_content m' \<subseteq>\<^sub>m (mgr_content (pts_manager s))(k \<mapsto> BlockFromPayload k b)"
      "st = (case ResolveConfiguredTier (mgr_config (pts_manager s)) kHBM of None \<Rightarrow> Failed kInvalidArgument
        | Some tier \<Rightarrow> if EvictionThresholdOf (mgr_config (pts_manager s)) tier < length b then Failed kOutOfCapacity else Ok)"
      "st \<noteq> Ok \<longrightarrow> m' = pts_manager s"
    using ManagerWrite_ok [of "pts_manager s" "BlockFromPayload k b" kHBM u] assms
    unfolding py_store_ok_def payload_roundtrip by blast
  have c: "store_content (s\<lparr>pts_manager := m'\<rparr>) \<subseteq>\<^sub>m (store_content s)(k \<mapsto> b)" if "st = Ok"
    using content_map_put [OF mp [OF w(4) that]] by simp
  show ?thesis using w(1-3,5,6) c assms
    by (auto simp: runs_def py_put_def py_status_def py_store_ok_def store_room_def split: option.splits if_splits)
qed

lemma py_get_runs:
  assumes "py_store_ok s"
  shows "runs (py_get k) s (\<lambda>r s'. py_store_ok s' \<and> store_room s' = store_room s \<and> store_content s' \<subseteq>\<^sub>m store_content s
    \<and> (\<exists>v. r = Inr v \<and> (v = None \<or> v = store_content s k)))"
proof -
  obtain r m' where w: "ManagerRead k (pts_manager s) = Some (r, m')" "store_ok m'"
      "mgr_config m' = mgr_config (pts_manager s)" "mgr_content m' \<subseteq>\<^sub>m mgr_content (pts_manager s)"
      "case r of Inr block \<Rightarrow> mgr_content (pts_manager s) k = Some block | Inl code \<Rightarrow> True"
    using ManagerRead_ok [of "pts_manager s" k] assms unfolding py_store_ok_def by (metis (no_types, lifting) sum.case_eq_if)
  have "(case r of Inl _ \<Rightarrow> None | Inr block \<Rightarrow> Some (PayloadFromBlock block)) = None
      \<or> (case r of Inl _ \<Rightarrow> None | Inr block \<Rightarrow> Some (PayloadFromBlock block)) = store_content s k"
    using w(5) by (cases r) (simp_all add: store_content_def)
  with w content_map_le [OF w(4)] assms show ?thesis
    by (simp add: runs_def py_get_def py_store_ok_def store_room_def)
qed

lemma py_prefetch_runs:
  assumes "py_store_ok s"
  shows "runs (py_prefetch ks) s (\<lambda>r s'. py_store_ok s' \<and> store_room s' = store_room s \<and> store_content s' \<subseteq>\<^sub>m store_content s
    \<and> r = (if store_room s = None then Inl RuntimeError else Inr ()))"
proof -
  obtain st m' where w: "ManagerPrefetch ks (pts_manager s) = Some (st, m')" "store_ok m'"
      "mgr_config m' = mgr_config (pts_manager s)" "mgr_content m' \<subseteq>\<^sub>m mgr_content (pts_manager s)"
      "st = (if ResolveConfiguredTier (mgr_config (pts_manager s)) kHBM = None then Failed kInvalidArgument else Ok)"
    using ManagerPrefetch_ok [of "pts_manager s" ks] assms by (auto simp: py_store_ok_def)
  show ?thesis using w content_map_le [OF w(4)] assms
    by (auto simp: runs_def py_prefetch_def py_status_def py_store_ok_def store_room_def split: if_splits)
qed

lemma promote_chain_runs:
  assumes "py_store_ok s"
  shows "runs (promote_chain ks) s (\<lambda>r s'. py_store_ok s' \<and> store_room s' = store_room s \<and> store_content s' \<subseteq>\<^sub>m store_content s
    \<and> (store_room s \<noteq> None \<longrightarrow> r = Inr (int (length ks))))"
proof (cases "ks = []")
  case True
  then show ?thesis using assms by (simp add: runs_def promote_chain_def prog_return_def)
next
  case False
  then have "promote_chain ks s = prog_bind (py_prefetch ks) (\<lambda>_. prog_return (int (length ks))) s"
    by (simp add: promote_chain_def)
  moreover have "runs (prog_bind (py_prefetch ks) (\<lambda>_. prog_return (int (length ks)))) s
      (\<lambda>r s'. py_store_ok s' \<and> store_room s' = store_room s \<and> store_content s' \<subseteq>\<^sub>m store_content s
        \<and> (store_room s \<noteq> None \<longrightarrow> r = Inr (int (length ks))))"
    unfolding runs_bind by (rule runs_mono [OF py_prefetch_runs [OF assms]]) (auto split: sum.split)
  ultimately show ?thesis by (simp only: runs_def)
qed

lemma py_chain_runs:
  assumes "py_store_ok s"
  shows "runs (py_prefetch_chain_multi ks n) s (\<lambda>r s'. py_store_ok s' \<and> store_room s' = store_room s
    \<and> store_content s' \<subseteq>\<^sub>m store_content s \<and> (0 \<le> n \<and> n < 2 ^ 64 \<and> store_room s \<noteq> None \<longrightarrow> (\<exists>v. r = Inr v)))"
proof (cases "py_uint 64 n")
  case (Inl e)
  then show ?thesis using assms by (simp add: runs_def py_prefetch_chain_multi_def)
      (auto simp: py_uint_def split: if_splits)
next
  case (Inr k)
  then have "py_prefetch_chain_multi ks n s = promote_chain (PredictChainMulti ks k (pts_prefetcher s)) s"
    by (simp add: py_prefetch_chain_multi_def)
  then show ?thesis using promote_chain_runs [OF assms, of "PredictChainMulti ks k (pts_prefetcher s)"]
    by (auto simp: runs_def split: option.splits)
qed

lemma py_record_runs:
  assumes "py_store_ok s"
  shows "runs (py_record_sequence ks) s (\<lambda>r s'. r = Inr () \<and> py_store_ok s' \<and> store_room s' = store_room s
    \<and> store_content s' = store_content s)"
  using assms by (simp add: runs_def py_record_sequence_def py_store_ok_def RecordSequence_ok store_room_def store_content_def fun_eq_iff)

lemma py_exists_content: "py_exists k s \<longleftrightarrow> store_content s k \<noteq> None"
  by (simp add: py_exists_def ManagerLocate_def store_content_def mgr_content_def)

interpretation cpp: bounded_store cpp_store py_store_ok store_content store_room
proof (unfold_locales, goal_cases)
  case (1 s k)
  then show ?case unfolding cpp_store_def by (auto intro: runs_mono [OF py_get_runs])
next
  case (2 s k b)
  then show ?case unfolding cpp_store_def
    by (auto intro: runs_mono [OF py_put_runs] split: option.splits if_splits)
next
  case (3 s ks)
  then show ?case unfolding cpp_store_def by (auto intro: runs_mono [OF py_prefetch_runs])
next
  case (4 s ks n)
  then show ?case unfolding cpp_store_def by (auto intro: runs_mono [OF py_chain_runs])
next
  case (5 s ks)
  then show ?case unfolding cpp_store_def by (auto intro: runs_mono [OF py_record_runs])
next
  case (6 s k)
  then show ?case by (simp add: cpp_store_def py_exists_content)
next
  case (7 s k)
  then show ?case unfolding cpp_store_def by (auto intro: runs_mono [OF py_get_runs])
next
  case (8 s k b)
  then show ?case unfolding cpp_store_def
    by (auto intro: runs_mono [OF py_put_runs] split: option.splits if_splits)
next
  case (9 s ks)
  then show ?case unfolding cpp_store_def by (auto intro: runs_mono [OF py_prefetch_runs])
next
  case (10 s n ks)
  then show ?case unfolding cpp_store_def by (auto intro: runs_mono [OF py_chain_runs])
next
  case (11 s ks)
  then show ?case unfolding cpp_store_def by (auto intro: runs_mono [OF py_record_runs])
qed

section \<open>Construction\<close>

lemma py_uint_Inr: "py_uint w n = Inr k \<longleftrightarrow> 0 \<le> n \<and> n < 2 ^ w \<and> k = nat n"
  by (auto simp: py_uint_def)

lemma opt_uint_Inr: "opt_uint v = Inr u \<longleftrightarrow> (\<forall>n. v = Some n \<longrightarrow> 0 \<le> n \<and> n < 2 ^ 64) \<and> u = map_option nat v"
  by (cases v) (auto simp: bind_result_Inr_iff py_uint_Inr)

text \<open>A store whose capacities a \<^verbatim>\<open>double\<close> represents starts empty and in order.\<close>

lemma mk_TieredStore_ok:
  assumes "mk_TieredStore hbm dram nvme ratio weights = Inr s" "0 \<le> ratio"
    and "\<forall>c \<in> {hbm, dram, nvme}. case c of None \<Rightarrow> True | Some n \<Rightarrow> n \<le> 2 ^ 53"
  shows "py_store_ok s" "store_content s = Map.empty"
proof -
  obtain tw where s: "s = \<lparr>pts_manager = TieredStorageManager_init \<lparr>hbm_capacity_bytes = map_option nat hbm,
        dram_capacity_bytes = map_option nat dram, nvme_capacity_bytes = map_option nat nvme,
        high_water_ratio = ratio, tenant_weights = tw\<rparr>, pts_prefetcher = PrefixPrefetcher_init kDefaultMaxEdges\<rparr>"
    using assms(1) by (auto simp: mk_TieredStore_def bind_result_Inr_iff opt_uint_Inr)
  define cfg where "cfg = \<lparr>hbm_capacity_bytes = map_option nat hbm, dram_capacity_bytes = map_option nat dram,
    nvme_capacity_bytes = map_option nat nvme, high_water_ratio = ratio, tenant_weights = tw\<rparr>"
  have small: "(case map_option nat c of None \<Rightarrow> 0 | Some n \<Rightarrow> n) \<le> 2 ^ 53" if "c \<in> {hbm, dram, nvme}" for c
    using bspec [OF assms(3) that] by (cases c) auto
  have "CapacityOf cfg t \<le> 2 ^ 53" for t
    using small [of hbm] small [of dram] small [of nvme] by (cases t) (simp_all add: CapacityOf_def cfg_def)
  then have "config_ok cfg" using assms(2) by (simp add: config_ok_def cfg_def)
  from store_ok_init [OF this] show "py_store_ok s" by (simp add: py_store_ok_def s cfg_def graph_ok_init)
  show "store_content s = Map.empty"
    by (simp add: store_content_def mgr_content_def s TieredStorageManager_init_def fun_eq_iff)
qed

section \<open>Properties\<close>

text \<open>C8. The connector on the C++ store: storing blocks that fit the fastest tier and then loading any keys
  ends without an exception, whatever the tiers evict in between; every payload loaded is the one
  stored last under its key, and every other requested key is reported missing.\<close>

theorem cpp_connector_sound:
  assumes "cn_store c = cpp_store" "py_store_ok s" "store_room s = Some n" "\<forall>b \<in> set tensors. length b \<le> n"
    and "length keys = length tensors"
  shows "\<exists>s1 q1 v s2. store_kv c keys tensors (s, q) = Some (Inr (), (s1, q1)) \<and> load_kv c keys' s1 = Some (Inr v, s2)
    \<and> map_of (loaded v) \<subseteq>\<^sub>m store_content s ++ map_of (rev (zip keys tensors))
    \<and> set keys' = od_dom (loaded v) \<union> set (missing v)"
  using assms by (rule cpp.store_load_fits)

text \<open>A connector over a store of 512 and 1024 bytes, for the witness.\<close>

definition cpp_connector :: "(PyTieredStore, (BlockKey \<times> string) list) ProjectKVConnector" where
  "cpp_connector =
     \<lparr>cn_config = \<lparr>prefix_reuse_enabled = True,
        capabilities = \<lparr>cap_rdma = True, cap_gpu_direct = False, cap_nvme = False\<rparr>\<rparr>,
      cn_scheduler = fake_scheduler, cn_store = cpp_store, cn_self_node = ''10.0.0.1:8080''\<rparr>"

lemma small_store:
  obtains s where "mk_TieredStore (Some 512) (Some 1024) None 1 [] = Inr s" "py_store_ok s" "store_room s = Some 512"
    "store_content s = Map.empty"
proof -
  obtain s where s: "mk_TieredStore (Some 512) (Some 1024) None 1 [] = Inr s"
    by (simp add: mk_TieredStore_def py_uint_def)
  have "store_room s = Some 512" if "mk_TieredStore (Some 512) (Some 1024) None 1 [] = Inr s"
  proof -
    have "mgr_config (pts_manager s) = \<lparr>hbm_capacity_bytes = Some 512, dram_capacity_bytes = Some 1024,
        nvme_capacity_bytes = None, high_water_ratio = 1, tenant_weights = []\<rparr>"
      using that by (auto simp: mk_TieredStore_def py_uint_def TieredStorageManager_init_def)
    moreover have "fl 512 = 512" using f64.rnd_int [of 512] by simp
    ultimately show ?thesis
      by (simp add: store_room_def ResolveConfiguredTier_def configured_def EvictionThresholdOf_def CapacityOf_def int_to_float_def fmul_def)
  qed
  with s that mk_TieredStore_ok [OF s] show thesis by simp
qed

theorem cpp_connector_sound_witness:
  "\<exists>s s1 q1 v s2. mk_TieredStore (Some 512) (Some 1024) None 1 [] = Inr s
     \<and> store_kv cpp_connector [\<lparr>bk_hash_id = 1, bk_layer = 0, bk_version = 1\<rparr>] [[7]] (s, []) = Some (Inr (), (s1, q1))
     \<and> load_kv cpp_connector [\<lparr>bk_hash_id = 2, bk_layer = 0, bk_version = 1\<rparr>] s1 = Some (Inr v, s2)
     \<and> loaded v = [] \<and> set (missing v) = {\<lparr>bk_hash_id = 2, bk_layer = 0, bk_version = 1\<rparr>}"
proof (rule small_store)
  fix s
  assume s: "mk_TieredStore (Some 512) (Some 1024) None 1 [] = Inr s" "py_store_ok s" "store_room s = Some 512"
    "store_content s = Map.empty"
  let ?k1 = "\<lparr>bk_hash_id = 1, bk_layer = 0, bk_version = 1\<rparr>" and ?k2 = "\<lparr>bk_hash_id = 2, bk_layer = 0, bk_version = 1\<rparr>"
  obtain s1 q1 v s2 where r: "store_kv cpp_connector [?k1] [[7]] (s, []) = Some (Inr (), (s1, q1))"
      "load_kv cpp_connector [?k2] s1 = Some (Inr v, s2)" "map_of (loaded v) \<subseteq>\<^sub>m store_content s ++ map_of (rev (zip [?k1] [[7]]))"
      "set [?k2] = od_dom (loaded v) \<union> set (missing v)"
    using cpp_connector_sound [of cpp_connector s 512 "[[7]]" "[?k1]" "[]" "[?k2]"] s(2,3) by (auto simp: cpp_connector_def)
  have "map_of (loaded v) ?k2 = None" using r(3) map_le_Some [of "map_of (loaded v)" _ ?k2] by (cases "map_of (loaded v) ?k2") (auto simp: s(4))
  then have "?k2 \<notin> od_dom (loaded v)" by (simp add: map_of_od_dom)
  then have "od_dom (loaded v) = {}" using r(4) by (metis Un_upper1 list.simps(15) list.set(1) subset_singleton_iff singletonI)
  then have "loaded v = []" "set (missing v) = {?k2}" using r(4) by (cases "loaded v", auto)+
  with s(1) r(1,2) show ?thesis by blast
qed

end
