(* ===== verification/Store_Replay.thy ===== *)
theory Store_Replay
  imports Report Cpp_Store
begin

text \<open>
  The replay drivers \<^verbatim>\<open>python/bench/replay_cpp.py\<close> and \<^verbatim>\<open>python/bench/replay_multitenant.py\<close>: a trace, or two
  interleaved ones, run through the C++ store, with the hits counted. A run returns \<open>None\<close> only if the
  store does not; the theorems show it always does. The lines a driver prints are the values it
  formats.
\<close>

section \<open>Replay of one trace\<close>

definition BLOCK_BYTES :: nat where
  "BLOCK_BYTES = 256"

definition PAYLOAD :: bytes where
  "PAYLOAD = replicate BLOCK_BYTES 0"

text \<open>A present block is read, an absent one written; the result is whether it was a hit.\<close>

definition access_block :: "nat \<Rightarrow> BlockKey \<Rightarrow> (PyTieredStore, bool) prog" where
  "access_block tenant key store =
     (if py_exists key store then prog_bind (py_get key) (\<lambda>_. prog_return True) store
      else prog_bind (py_put key PAYLOAD tenant) (\<lambda>_. prog_return False) store)"

fun replay_blocks :: "BlockKey list \<Rightarrow> nat \<times> nat \<Rightarrow> (PyTieredStore, nat \<times> nat) prog" where
  "replay_blocks [] counts = prog_return counts"
| "replay_blocks (key # keys) (hits, missed) =
     prog_bind (access_block 0 key) (\<lambda>hit.
       replay_blocks keys (if hit then (hits + 1, missed) else (hits, missed + 1)))"

definition replay_request :: "TraceRecord \<Rightarrow> nat \<times> nat \<Rightarrow> (PyTieredStore, nat \<times> nat) prog" where
  "replay_request rec counts =
     prog_bind (prog_lift (map_result mk_BlockKey (hash_ids rec))) (\<lambda>keys.
     prog_bind (py_prefetch_chain_multi keys 8) (\<lambda>_.
     prog_bind (replay_blocks keys counts) (\<lambda>counts'.
     prog_bind (py_record_sequence keys) (\<lambda>_. prog_return counts'))))"

fun replay_requests :: "TraceRecord list \<Rightarrow> nat \<times> nat \<Rightarrow> (PyTieredStore, nat \<times> nat) prog" where
  "replay_requests [] counts = prog_return counts"
| "replay_requests (rec # records) counts =
     prog_bind (replay_request rec counts) (replay_requests records)"

record ReplayStats =
  rs_requests :: nat
  rs_blocks :: nat
  rs_hits :: nat
  rs_misses :: nat
  rs_hit_rate :: pyfloat

definition replay_stats :: "nat \<Rightarrow> nat \<times> nat \<Rightarrow> ReplayStats" where
  "replay_stats requests counts =
     (let (hits, missed) = counts; total = hits + missed
      in \<lparr>rs_requests = requests, rs_blocks = total, rs_hits = hits, rs_misses = missed,
          rs_hit_rate = (if total \<noteq> 0 then int_truediv hits total else 0)\<rparr>)"

definition replay :: "world \<Rightarrow> string \<Rightarrow> int \<Rightarrow> int \<Rightarrow> int option \<Rightarrow> ReplayStats result option" where
  "replay w trace_path fast_blocks slow_factor max_requests =
     (case mk_TieredStore (Some (fast_blocks * int BLOCK_BYTES)) (Some (fast_blocks * slow_factor * int BLOCK_BYTES))
             None 1 [] of
        Inl e \<Rightarrow> Some (Inl e)
      | Inr store \<Rightarrow>
          (case parse_trace w trace_path of
             Inl e \<Rightarrow> Some (Inl e)
           | Inr parsed \<Rightarrow>
               (let records = (case max_requests of None \<Rightarrow> parsed | Some n \<Rightarrow> py_take n parsed)
                in map_option (\<lambda>(r, _). bind_result r (\<lambda>counts. Inr (replay_stats (length records) counts)))
                     (replay_requests records (0, 0) store))))"

text \<open>An optional numeric argument of the command line, \<open>args\<close> being \<^verbatim>\<open>sys.argv[1:]\<close>.\<close>

definition int_arg :: "string list \<Rightarrow> nat \<Rightarrow> int option \<Rightarrow> int option result" where
  "int_arg args i fallback =
     (if i < length args then bind_result (int_of_str (lit (args ! i))) (\<lambda>n. Inr (Some n)) else Inr fallback)"

definition replay_main :: "world \<Rightarrow> string list \<Rightarrow> ReplayStats result option" where
  "replay_main w args =
     (if args = [] then Some (Inl SystemExit)
      else
        (case bind_result (int_arg args 1 (Some 4096)) (\<lambda>fast.
              bind_result (int_arg args 2 (Some 4)) (\<lambda>slow.
              bind_result (int_arg args 3 None) (\<lambda>limit. Inr (the fast, the slow, limit)))) of
           Inl e \<Rightarrow> Some (Inl e)
         | Inr (fast_blocks, slow_factor, max_requests) \<Rightarrow>
             replay w (hd args) fast_blocks slow_factor max_requests))"

section \<open>Replay of two tenants\<close>

definition TENANT_SALT :: int where
  "TENANT_SALT = 2 ^ 48"

text \<open>Hits and accesses of each tenant.\<close>

type_synonym tally = "nat \<Rightarrow> nat \<times> nat"

fun pair_blocks :: "nat \<Rightarrow> BlockKey list \<Rightarrow> tally \<Rightarrow> (PyTieredStore, tally) prog" where
  "pair_blocks tenant [] counts = prog_return counts"
| "pair_blocks tenant (key # keys) counts =
     prog_bind (access_block tenant key) (\<lambda>hit.
       pair_blocks tenant keys
         (let (hits, total) = counts tenant in counts(tenant := (if hit then hits + 1 else hits, total + 1))))"

definition pair_request :: "nat \<Rightarrow> TraceRecord \<Rightarrow> tally \<Rightarrow> (PyTieredStore, tally) prog" where
  "pair_request tenant rec counts =
     prog_bind (prog_lift (map_result (\<lambda>h. mk_BlockKey (h + int tenant * TENANT_SALT)) (hash_ids rec))) (\<lambda>keys.
     prog_bind (py_prefetch_chain_multi keys 8) (\<lambda>_.
     prog_bind (pair_blocks tenant keys counts) (\<lambda>counts'.
     prog_bind (py_record_sequence keys) (\<lambda>_. prog_return counts'))))"

fun pair_requests :: "(nat \<times> TraceRecord) list \<Rightarrow> tally \<Rightarrow> (PyTieredStore, tally) prog" where
  "pair_requests [] counts = prog_return counts"
| "pair_requests ((tenant, rec) # rest) counts =
     prog_bind (pair_request tenant rec counts) (pair_requests rest)"

text \<open>The round-robin order of the requests of the two streams.\<close>

definition interleave :: "TraceRecord list \<Rightarrow> TraceRecord list \<Rightarrow> (nat \<times> TraceRecord) list" where
  "interleave records_a records_b =
     concat (map (\<lambda>i. (if i < length records_a then [(1, records_a ! i)] else []) @
                      (if i < length records_b then [(2, records_b ! i)] else []))
               [0..<max (length records_a) (length records_b)])"

fun flood_loop :: "nat \<Rightarrow> int \<Rightarrow> nat list \<Rightarrow> TraceRecord list" where
  "flood_loop blocks_per_request next_id [] = []"
| "flood_loop blocks_per_request next_id (i # rest) =
     \<lparr>timestamp = int i, input_length = int blocks_per_request * 512, output_length = 1,
      hash_ids = [next_id..next_id + int blocks_per_request - 1]\<rparr>
     # flood_loop blocks_per_request (next_id + int blocks_per_request) rest"

definition flood_records :: "nat \<Rightarrow> TraceRecord list" where
  "flood_records count = flood_loop 32 1 [0..<count]"

definition tenant_rate :: "tally \<Rightarrow> nat \<Rightarrow> pyfloat" where
  "tenant_rate counts tenant =
     (let (hits, total) = counts tenant in if total \<noteq> 0 then int_truediv hits total else 0)"

definition replay_pair ::
  "world \<Rightarrow> string \<Rightarrow> string \<Rightarrow> int \<Rightarrow> int \<Rightarrow> (int \<times> pyfloat) list option \<Rightarrow> (pyfloat \<times> pyfloat) result option" where
  "replay_pair w trace_a trace_b fast_blocks slow_factor weights =
     (case mk_TieredStore (Some (fast_blocks * int BLOCK_BYTES)) (Some (fast_blocks * slow_factor * int BLOCK_BYTES))
             None 1 (case weights of None \<Rightarrow> [] | Some ws \<Rightarrow> ws) of
        Inl e \<Rightarrow> Some (Inl e)
      | Inr store \<Rightarrow>
          (case bind_result (parse_trace w trace_a) (\<lambda>records_a.
                bind_result (if trace_b = ''FLOOD'' then Inr (flood_records (length records_a)) else parse_trace w trace_b) (\<lambda>records_b.
                  Inr (interleave records_a records_b))) of
             Inl e \<Rightarrow> Some (Inl e)
           | Inr schedule \<Rightarrow>
               map_option (\<lambda>(r, _). bind_result r (\<lambda>counts. Inr (tenant_rate counts 1, tenant_rate counts 2)))
                 (pair_requests schedule (\<lambda>_. (0, 0)) store)))"

text \<open>The four settings with the tags of their output lines (Unicode code points).\<close>

definition quota_settings :: "(pystr \<times> (int \<times> pyfloat) list option) list" where
  "quota_settings =
     [([26080, 37197, 39069, 32, 32], None),
      ([37197, 39069] @ lit ''50/50'', Some [(1, fl (5 / 10)), (2, fl (5 / 10))]),
      ([37197, 39069] @ lit ''75/25'', Some [(1, fl (75 / 100)), (2, fl (25 / 100))]),
      ([37197, 39069] @ lit ''90/10'', Some [(1, fl (9 / 10)), (2, fl (1 / 10))])]"

text \<open>The lines printed before the run ends, and how it ends.\<close>

fun run_settings ::
  "(('w \<Rightarrow> 'r result option) \<Rightarrow> (pystr \<times> 'w) list \<Rightarrow> ((pystr \<times> 'r) list \<times> unit result) option)" where
  "run_settings run [] = Some ([], Inr ())"
| "run_settings run ((label, weights) # rest) =
     (case run weights of
        None \<Rightarrow> None
      | Some (Inl e) \<Rightarrow> Some ([], Inl e)
      | Some (Inr line) \<Rightarrow> map_option (\<lambda>(out, r). ((label, line) # out, r)) (run_settings run rest))"

definition multitenant_main :: "world \<Rightarrow> string list \<Rightarrow> ((pystr \<times> pyfloat \<times> pyfloat) list \<times> unit result) option" where
  "multitenant_main w args =
     (if length args < 2 then Some ([], Inl SystemExit)
      else
        (case bind_result (int_arg args 2 (Some 4096)) (\<lambda>fast.
              bind_result (int_arg args 3 (Some 4)) (\<lambda>slow. Inr (the fast, the slow))) of
           Inl e \<Rightarrow> Some ([], Inl e)
         | Inr (fast_blocks, slow_factor) \<Rightarrow>
             run_settings (replay_pair w (args ! 0) (args ! 1) fast_blocks slow_factor) quota_settings))"

section \<open>One access\<close>

text \<open>A store that takes a block of the replay, and holds no key but the ones written to it.\<close>

definition replay_ready :: "BlockKey set \<Rightarrow> PyTieredStore \<Rightarrow> bool" where
  "replay_ready K s \<longleftrightarrow> py_store_ok s \<and> (\<exists>n. store_room s = Some n \<and> BLOCK_BYTES \<le> n) \<and> dom (store_content s) \<subseteq> K"

lemma replay_ready_shrink:
  "replay_ready K s \<Longrightarrow> py_store_ok s' \<Longrightarrow> store_room s' = store_room s \<Longrightarrow> store_content s' \<subseteq>\<^sub>m store_content s \<Longrightarrow> replay_ready K s'"
  using map_le_implies_dom_le [of "store_content s'" "store_content s"] by (auto simp: replay_ready_def)

lemma access_block_runs:
  assumes "replay_ready K s"
  shows "runs (access_block u k) s (\<lambda>r s'. replay_ready (insert k K) s' \<and> (\<exists>hit. r = Inr hit \<and> (hit \<longrightarrow> k \<in> K)))"
proof (cases "py_exists k s")
  case True
  then have "k \<in> K" using assms py_exists_content [of k s] by (auto simp: replay_ready_def)
  have ok: "py_store_ok s" using assms by (simp add: replay_ready_def)
  have "runs (prog_bind (py_get k) (\<lambda>_. prog_return True)) s (\<lambda>r s'. replay_ready (insert k K) s' \<and> (\<exists>hit. r = Inr hit \<and> (hit \<longrightarrow> k \<in> K)))"
    unfolding runs_bind
    by (rule runs_mono [OF py_get_runs [OF ok]])
      (use \<open>k \<in> K\<close> in \<open>auto simp: insert_absorb intro: replay_ready_shrink [OF assms]\<close>)
  with True show ?thesis by (simp add: runs_def access_block_def)
next
  case False
  obtain n where ok: "py_store_ok s" "store_room s = Some n" "BLOCK_BYTES \<le> n" "dom (store_content s) \<subseteq> K"
    using assms by (auto simp: replay_ready_def)
  have "length PAYLOAD \<le> n" using ok(3) by (simp add: PAYLOAD_def)
  then have "runs (prog_bind (py_put k PAYLOAD u) (\<lambda>_. prog_return False)) s
      (\<lambda>r s'. replay_ready (insert k K) s' \<and> (\<exists>hit. r = Inr hit \<and> (hit \<longrightarrow> k \<in> K)))"
    unfolding runs_bind
    by (intro runs_mono [OF py_put_runs [OF ok(1)]])
      (use ok map_le_implies_dom_le in \<open>fastforce simp: replay_ready_def\<close>)
  with False show ?thesis by (simp add: runs_def access_block_def)
qed

lemma chain_ready:
  "replay_ready K s \<Longrightarrow> runs (py_prefetch_chain_multi ks 8) s (\<lambda>r s'. (\<exists>v. r = Inr v) \<and> replay_ready K s')"
  by (rule runs_mono [OF py_chain_runs]) (auto simp: replay_ready_def [of K s] intro: replay_ready_shrink [of K s])

lemma record_ready: "replay_ready K s \<Longrightarrow> runs (py_record_sequence ks) s (\<lambda>r s'. r = Inr () \<and> replay_ready K s')"
  by (rule runs_mono [OF py_record_runs]) (auto simp: replay_ready_def)

section \<open>One trace\<close>

definition replay_key :: "int \<Rightarrow> BlockKey" where
  "replay_key h = \<lparr>bk_hash_id = h, bk_layer = 0, bk_version = 1\<rparr>"

lemma replay_keys:
  assumes "\<forall>h \<in> set hs. 0 \<le> h + d \<and> h + d < 2 ^ 64"
  shows "map_result (\<lambda>h. mk_BlockKey (h + d)) hs = Inr (map (\<lambda>h. replay_key (h + d)) hs)"
  using assms by (induction hs) (simp_all add: mk_BlockKey_def py_uint_def replay_key_def)

lemma replay_blocks_runs:
  assumes "replay_ready K s" "finite K" "card K \<le> m"
  shows "runs (replay_blocks keys (h, m)) s (\<lambda>r s'. replay_ready (K \<union> set keys) s'
    \<and> (\<exists>h' m'. r = Inr (h', m') \<and> h' + m' = h + m + length keys \<and> card (K \<union> set keys) \<le> m'))"
  using assms
proof (induction keys arbitrary: K s h m)
  case (Cons k keys)
  have step: "runs (replay_blocks keys (if hit then (h + 1, m) else (h, m + 1))) s'
      (\<lambda>r s'. replay_ready (K \<union> set (k # keys)) s'
        \<and> (\<exists>h' m'. r = Inr (h', m') \<and> h' + m' = h + m + length (k # keys) \<and> card (K \<union> set (k # keys)) \<le> m'))"
    if "replay_ready (insert k K) s'" "hit \<longrightarrow> k \<in> K" for hit s'
  proof -
    have "card (insert k K) \<le> (if hit then m else m + 1)"
      using Cons.prems(2,3) that(2) by (auto simp: card_insert_if insert_absorb)
    from Cons.IH [OF that(1) _ this, of "if hit then h + 1 else h"] Cons.prems(2) show ?thesis
      by (cases hit) (auto intro: runs_mono)
  qed
  show ?case
    unfolding replay_blocks.simps runs_bind
    by (intro runs_mono [OF access_block_runs [OF Cons.prems(1)]]) (elim conjE exE, simp only: sum.case, erule (1) step)
qed simp

lemma replay_request_runs:
  assumes "replay_ready K s" "finite K" "card K \<le> m" "\<forall>h \<in> set (hash_ids rec). 0 \<le> h \<and> h < 2 ^ 64"
  shows "runs (replay_request rec (h, m)) s (\<lambda>r s'. replay_ready (K \<union> replay_key ` set (hash_ids rec)) s'
    \<and> (\<exists>h' m'. r = Inr (h', m') \<and> h' + m' = h + m + length (hash_ids rec)
         \<and> card (K \<union> replay_key ` set (hash_ids rec)) \<le> m'))"
proof -
  let ?keys = "map replay_key (hash_ids rec)"
  have k: "map_result mk_BlockKey (hash_ids rec) = Inr ?keys"
    using replay_keys [of "hash_ids rec" 0] assms(4) by simp
  have b: "runs (replay_blocks ?keys (h, m)) s1 (\<lambda>r s'. replay_ready (K \<union> set ?keys) s'
      \<and> (\<exists>h' m'. r = Inr (h', m') \<and> h' + m' = h + m + length ?keys \<and> card (K \<union> set ?keys) \<le> m'))"
    if "replay_ready K s1" for s1
    by (rule replay_blocks_runs [OF that assms(2,3)])
  show ?thesis
    unfolding replay_request_def runs_bind runs_lift k
    by (auto intro!: runs_mono [OF chain_ready [OF assms(1)]] runs_mono [OF b] runs_mono [OF record_ready])
qed

definition all_ids :: "TraceRecord list \<Rightarrow> int list" where
  "all_ids records = concat (map hash_ids records)"

lemma replay_requests_runs:
  assumes "replay_ready K s" "finite K" "card K \<le> m" "\<forall>h \<in> set (all_ids records). 0 \<le> h \<and> h < 2 ^ 64"
  shows "runs (replay_requests records (h, m)) s (\<lambda>r s'. \<exists>h' m'. r = Inr (h', m')
    \<and> h' + m' = h + m + length (all_ids records) \<and> card (K \<union> replay_key ` set (all_ids records)) \<le> m')"
  using assms
proof (induction records arbitrary: K s h m)
  case (Cons rec records)
  let ?K = "K \<union> replay_key ` set (hash_ids rec)"
  have u: "?K \<union> replay_key ` set (all_ids records) = K \<union> replay_key ` set (all_ids (rec # records))"
    by (auto simp: all_ids_def)
  have l: "length (all_ids (rec # records)) = length (hash_ids rec) + length (all_ids records)" by (simp add: all_ids_def)
  have rec: "\<forall>h \<in> set (hash_ids rec). 0 \<le> h \<and> h < 2 ^ 64" and rest: "\<forall>h \<in> set (all_ids records). 0 \<le> h \<and> h < 2 ^ 64"
    using Cons.prems(4) by (auto simp: all_ids_def)
  have f: "finite ?K" using Cons.prems(2) by simp
  have step: "runs (replay_requests records (h', m')) s' (\<lambda>r s'. \<exists>h' m'. r = Inr (h', m')
      \<and> h' + m' = h + m + length (all_ids (rec # records)) \<and> card (K \<union> replay_key ` set (all_ids (rec # records))) \<le> m')"
    if "replay_ready ?K s'" "card ?K \<le> m'" "h' + m' = h + m + length (hash_ids rec)" for h' m' s'
    using Cons.IH [OF that(1) f that(2) rest, of h', unfolded u] by (rule runs_mono) (use that(3) l in auto)
  show ?case
    unfolding replay_requests.simps runs_bind
    by (rule runs_mono [OF replay_request_runs [OF Cons.prems(1-3) rec]]) (auto simp: step)
qed (simp add: all_ids_def)

text \<open>The store of a replay: its fastest tier takes \<open>fast_blocks\<close> blocks.\<close>

lemma replay_store:
  assumes "mk_TieredStore (Some (fast * int BLOCK_BYTES)) (Some slow) None 1 weights = Inr s"
    and "fast * int BLOCK_BYTES \<le> 2 ^ 53" "slow \<le> 2 ^ 53"
  shows "py_store_ok s" "store_content s = Map.empty" "store_room s = Some (nat fast * BLOCK_BYTES)"
    and "successor (pts_prefetcher s) = []"
proof -
  show "py_store_ok s" "store_content s = Map.empty" using mk_TieredStore_ok [OF assms(1)] assms(2,3) by simp_all
  have p: "0 \<le> fast * int BLOCK_BYTES" and g: "successor (pts_prefetcher s) = []"
    and c: "hbm_capacity_bytes (mgr_config (pts_manager s)) = Some (nat (fast * int BLOCK_BYTES))"
      "high_water_ratio (mgr_config (pts_manager s)) = 1"
    using assms(1)
    by (auto simp: mk_TieredStore_def bind_result_Inr_iff py_uint_Inr TieredStorageManager_init_def PrefixPrefetcher_init_def)
  show "successor (pts_prefetcher s) = []" by (rule g)
  define n where "n = nat (fast * int BLOCK_BYTES)"
  have n: "fl (of_nat n) = of_nat n" using f64.rnd_int [of "int n"] assms(2) p by (simp add: n_def)
  have t: "EvictionThresholdOf (mgr_config (pts_manager s)) kHBM = n"
    by (simp add: EvictionThresholdOf_def CapacityOf_def c int_to_float_def fmul_def Let_def n flip: n_def)
  show "store_room s = Some (nat fast * BLOCK_BYTES)"
    by (simp add: store_room_def ResolveConfiguredTier_def configured_def c t n_def nat_mult_distrib BLOCK_BYTES_def)
qed

section \<open>Two tenants\<close>

definition tenant_keys :: "nat \<Rightarrow> BlockKey set \<Rightarrow> BlockKey set" where
  "tenant_keys t K = {k \<in> K. bk_hash_id k div TENANT_SALT = int t}"

text \<open>Every distinct key of a tenant has cost it one miss.\<close>

definition tenants_ok :: "BlockKey set \<Rightarrow> tally \<Rightarrow> bool" where
  "tenants_ok K c \<longleftrightarrow> (\<forall>t. fst (c t) + card (tenant_keys t K) \<le> snd (c t))"

lemma tenant_keys_insert:
  "bk_hash_id k div TENANT_SALT = int t \<Longrightarrow> tenant_keys u (insert k K) = (if u = t then insert k (tenant_keys u K) else tenant_keys u K)"
  by (auto simp: tenant_keys_def)

lemma pair_blocks_runs:
  assumes "replay_ready K s" "finite K" "tenants_ok K c" "\<forall>k \<in> set keys. bk_hash_id k div TENANT_SALT = int t"
  shows "runs (pair_blocks t keys c) s (\<lambda>r s'. replay_ready (K \<union> set keys) s'
    \<and> (\<exists>c'. r = Inr c' \<and> tenants_ok (K \<union> set keys) c' \<and> (\<forall>u. snd (c' u) = snd (c u) + (if u = t then length keys else 0))))"
  using assms
proof (induction keys arbitrary: K s c)
  case (Cons k keys)
  have step: "runs (pair_blocks t keys (let (hits, total) = c t in c(t := (if hit then hits + 1 else hits, total + 1)))) s'
      (\<lambda>r s'. replay_ready (K \<union> set (k # keys)) s' \<and> (\<exists>c'. r = Inr c' \<and> tenants_ok (K \<union> set (k # keys)) c'
        \<and> (\<forall>u. snd (c' u) = snd (c u) + (if u = t then length (k # keys) else 0))))"
    if "replay_ready (insert k K) s'" "hit \<longrightarrow> k \<in> K" for hit s'
  proof -
    define c1 where "c1 = (let (hits, total) = c t in c(t := (if hit then hits + 1 else hits, total + 1)))"
    have c1: "c1 = c(t := (if hit then fst (c t) + 1 else fst (c t), snd (c t) + 1))"
      by (simp add: c1_def case_prod_beta Let_def)
    have k: "bk_hash_id k div TENANT_SALT = int t" and rest: "\<forall>k \<in> set keys. bk_hash_id k div TENANT_SALT = int t"
      using Cons.prems(4) by auto
    have "finite (tenant_keys t K)" using Cons.prems(2) by (simp add: tenant_keys_def)
    moreover have "k \<in> tenant_keys t K" if hit using that \<open>hit \<longrightarrow> k \<in> K\<close> k by (simp add: tenant_keys_def)
    moreover have "fst (c u) + card (tenant_keys u K) \<le> snd (c u)" for u using Cons.prems(3) by (simp add: tenants_ok_def)
    ultimately have "tenants_ok (insert k K) c1"
      unfolding tenants_ok_def tenant_keys_insert [OF k] c1 by (auto simp: card_insert_if insert_absorb intro: le_SucI)
    note run = Cons.IH [OF that(1) _ this rest]
    have "snd (c1 u) = snd (c u) + (if u = t then 1 else 0)" for u by (simp add: c1)
    with Cons.prems(2) show ?thesis
      unfolding c1_def [symmetric] by (intro runs_mono [OF run]) auto
  qed
  show ?case
    unfolding pair_blocks.simps runs_bind
    by (intro runs_mono [OF access_block_runs [OF Cons.prems(1)]]) (elim conjE exE, simp only: sum.case, erule (1) step)
qed simp

definition tenant_key :: "nat \<Rightarrow> int \<Rightarrow> BlockKey" where
  "tenant_key t h = replay_key (h + int t * TENANT_SALT)"

definition ids_ok :: "TraceRecord list \<Rightarrow> bool" where
  "ids_ok records \<longleftrightarrow> (\<forall>h \<in> set (all_ids records). 0 \<le> h \<and> h < 2 ^ 48)"

lemma pair_request_runs:
  assumes "replay_ready K s" "finite K" "tenants_ok K c" "ids_ok [rec]" "t \<le> 2"
  shows "runs (pair_request t rec c) s (\<lambda>r s'. replay_ready (K \<union> tenant_key t ` set (hash_ids rec)) s'
    \<and> (\<exists>c'. r = Inr c' \<and> tenants_ok (K \<union> tenant_key t ` set (hash_ids rec)) c'
         \<and> (\<forall>u. snd (c' u) = snd (c u) + (if u = t then length (hash_ids rec) else 0))))"
proof -
  let ?keys = "map (tenant_key t) (hash_ids rec)"
  have ids: "\<forall>h \<in> set (hash_ids rec). 0 \<le> h \<and> h < TENANT_SALT" using assms(4) by (simp add: ids_ok_def all_ids_def TENANT_SALT_def)
  have "int t * TENANT_SALT \<le> 2 * TENANT_SALT" using assms(5) by (simp add: TENANT_SALT_def)
  with ids have "\<forall>h \<in> set (hash_ids rec). 0 \<le> h + int t * TENANT_SALT \<and> h + int t * TENANT_SALT < 2 ^ 64"
    by (fastforce simp: TENANT_SALT_def)
  from replay_keys [OF this] have k: "map_result (\<lambda>h. mk_BlockKey (h + int t * TENANT_SALT)) (hash_ids rec) = Inr ?keys"
    by (simp add: tenant_key_def)
  have "(h + int t * TENANT_SALT) div TENANT_SALT = int t" if "h \<in> set (hash_ids rec)" for h
    using ids that by (simp add: TENANT_SALT_def)
  then have t: "\<forall>k \<in> set ?keys. bk_hash_id k div TENANT_SALT = int t"
    by (simp add: tenant_key_def replay_key_def)
  have b: "runs (pair_blocks t ?keys c) s1 (\<lambda>r s'. replay_ready (K \<union> set ?keys) s'
      \<and> (\<exists>c'. r = Inr c' \<and> tenants_ok (K \<union> set ?keys) c' \<and> (\<forall>u. snd (c' u) = snd (c u) + (if u = t then length ?keys else 0))))"
    if "replay_ready K s1" for s1
    by (rule pair_blocks_runs [OF that assms(2,3) t])
  show ?thesis
    unfolding pair_request_def runs_bind runs_lift k sum.case
    by (auto intro!: runs_mono [OF chain_ready [OF assms(1)]] runs_mono [OF b] runs_mono [OF record_ready])
qed

abbreviation records_of :: "nat \<Rightarrow> (nat \<times> TraceRecord) list \<Rightarrow> TraceRecord list" where
  "records_of t sched \<equiv> map snd (filter (\<lambda>x. fst x = t) sched)"

definition sched_keys :: "(nat \<times> TraceRecord) list \<Rightarrow> BlockKey set" where
  "sched_keys sched = (\<Union>(t, rec) \<in> set sched. tenant_key t ` set (hash_ids rec))"

lemma pair_requests_runs:
  assumes "replay_ready K s" "finite K" "tenants_ok K c" "\<forall>(t, rec) \<in> set sched. ids_ok [rec] \<and> t \<le> 2"
  shows "runs (pair_requests sched c) s (\<lambda>r s'. \<exists>c'. r = Inr c' \<and> tenants_ok (K \<union> sched_keys sched) c'
    \<and> (\<forall>u. snd (c' u) = snd (c u) + length (all_ids (records_of u sched))))"
  using assms
proof (induction sched arbitrary: K s c)
  case (Cons x sched)
  obtain t rec where x: "x = (t, rec)" by (cases x)
  let ?K = "K \<union> tenant_key t ` set (hash_ids rec)"
  have u: "?K \<union> sched_keys sched = K \<union> sched_keys (x # sched)" by (auto simp: sched_keys_def x)
  have rec: "ids_ok [rec]" "t \<le> 2" and rest: "\<forall>(t, rec) \<in> set sched. ids_ok [rec] \<and> t \<le> 2"
    using Cons.prems(4) by (auto simp: x)
  have f: "finite ?K" using Cons.prems(2) by simp
  have step: "runs (pair_requests sched c1) s' (\<lambda>r s'. \<exists>c'. r = Inr c' \<and> tenants_ok (K \<union> sched_keys (x # sched)) c'
      \<and> (\<forall>u. snd (c' u) = snd (c u) + length (all_ids (records_of u (x # sched)))))"
    if "replay_ready ?K s'" "tenants_ok ?K c1" "\<forall>u. snd (c1 u) = snd (c u) + (if u = t then length (hash_ids rec) else 0)" for c1 s'
    using Cons.IH [OF that(1) f that(2) rest, unfolded u]
    by (rule runs_mono) (use that(3) in \<open>auto simp: x all_ids_def\<close>)
  show ?case
    unfolding x pair_requests.simps runs_bind
    by (rule runs_mono [OF pair_request_runs [OF Cons.prems(1-3) rec]])
      (elim conjE exE, simp only: sum.case, erule (2) step [unfolded x])
qed (simp add: sched_keys_def all_ids_def)

lemma concat_nth_upt: "length xs \<le> n \<Longrightarrow> concat (map (\<lambda>i. if i < length xs then [xs ! i] else []) [0..<n]) = xs"
proof -
  assume n: "length xs \<le> n"
  have "[0..<n] = [0..<length xs] @ [length xs..<n]" using upt_add_eq_append [of 0 "length xs" "n - length xs"] n by simp
  moreover have "concat (map (\<lambda>i. if i < length xs then [xs ! i] else []) [length xs..<n]) = []" by simp
  moreover have "map (\<lambda>i. if i < length xs then [xs ! i] else []) [0..<length xs] = map (\<lambda>x. [x]) xs"
    by (rule nth_equalityI) auto
  ultimately show ?thesis by (simp only: map_append concat_append append_Nil2) (simp add: concat_map_singleton [where f = id, simplified])
qed

lemma records_of_interleave: "records_of 1 (interleave a b) = a" "records_of 2 (interleave a b) = b"
proof -
  let ?n = "max (length a) (length b)"
  have "records_of 1 (interleave a b) = concat (map (\<lambda>i. if i < length a then [a ! i] else []) [0..<?n])"
    unfolding interleave_def filter_concat map_concat map_map by (intro arg_cong [where f = concat] map_cong) auto
  then show "records_of 1 (interleave a b) = a" by (simp add: concat_nth_upt)
  have "records_of 2 (interleave a b) = concat (map (\<lambda>i. if i < length b then [b ! i] else []) [0..<?n])"
    unfolding interleave_def filter_concat map_concat map_map by (intro arg_cong [where f = concat] map_cong) auto
  then show "records_of 2 (interleave a b) = b" by (simp add: concat_nth_upt)
qed

lemma set_interleave: "set (interleave a b) = Pair 1 ` set a \<union> Pair 2 ` set b"
  by (auto simp: interleave_def in_set_conv_nth) (force simp: max_def)+

section \<open>A store without room\<close>

lemma chain_from_empty: "chain_from [] a n c = []"
  by (cases n) simp_all

lemma predict_empty: "successor p = [] \<Longrightarrow> PredictChainMulti anchors n p = []"
  unfolding PredictChainMulti_def chain_from_empty by (induction anchors) (simp_all add: chain_from_empty)

lemma chain_empty: "successor (pts_prefetcher s) = [] \<Longrightarrow> py_prefetch_chain_multi keys 8 s = Some (Inr 0, s)"
  by (simp add: py_prefetch_chain_multi_def py_uint_def predict_empty promote_chain_def prog_return_def)

lemma access_no_room:
  assumes "py_store_ok s" "store_room s = Some 0" "store_content s = Map.empty"
  shows "access_block u k s = Some (Inl RuntimeError, s)"
proof -
  have "\<not> py_exists k s" by (simp add: py_exists_content assms(3))
  moreover have "py_put k PAYLOAD u s = Some (Inl RuntimeError, s)"
    using runs_ends [OF py_put_runs [OF assms(1), of k PAYLOAD u]] assms(2) by (auto simp: PAYLOAD_def BLOCK_BYTES_def)
  ultimately show ?thesis by (simp add: access_block_def prog_bind_def)
qed

lemma replay_no_room:
  assumes "py_store_ok s" "store_room s = Some 0" "store_content s = Map.empty" "successor (pts_prefetcher s) = []"
    and "all_ids records \<noteq> []" "\<forall>h \<in> set (all_ids records). 0 \<le> h \<and> h < 2 ^ 64"
  shows "replay_requests records counts s = Some (Inl RuntimeError, s)"
  using assms(5,6)
proof (induction records arbitrary: counts)
  case (Cons rec records)
  have k: "map_result mk_BlockKey (hash_ids rec) = Inr (map replay_key (hash_ids rec))"
    using replay_keys [of "hash_ids rec" 0] Cons.prems(2) by (auto simp: all_ids_def)
  show ?case
  proof (cases "hash_ids rec")
    case Nil
    then have "replay_request rec counts s = Some (Inr counts, s)"
      by (simp add: replay_request_def prog_bind_def prog_lift_def chain_empty [OF assms(4)] prog_return_def
          py_record_sequence_def RecordSequence_def)
    with Nil Cons show ?thesis by (simp add: prog_bind_def all_ids_def)
  next
    case (Cons h hs)
    then have "replay_request rec counts s = Some (Inl RuntimeError, s)"
      using k by (cases counts)
        (simp add: replay_request_def prog_bind_def prog_lift_def chain_empty [OF assms(4)] access_no_room [OF assms(1-3)])
    then show ?thesis by (simp add: prog_bind_def)
  qed
qed (simp add: all_ids_def)

section \<open>Properties\<close>

lemma mk_replay_store:
  assumes "0 \<le> fast" "0 \<le> slow" "fast * int BLOCK_BYTES \<le> 2 ^ 53" "fast * slow * int BLOCK_BYTES \<le> 2 ^ 53"
    and "weight_map weights = Inr tw"
  obtains s where "mk_TieredStore (Some (fast * int BLOCK_BYTES)) (Some (fast * slow * int BLOCK_BYTES)) None 1 weights = Inr s"
    "py_store_ok s" "store_content s = Map.empty" "store_room s = Some (nat fast * BLOCK_BYTES)"
    "successor (pts_prefetcher s) = []"
proof -
  have "0 \<le> fast * int BLOCK_BYTES" "0 \<le> fast * slow * int BLOCK_BYTES" using assms by simp_all
  then obtain s where s: "mk_TieredStore (Some (fast * int BLOCK_BYTES)) (Some (fast * slow * int BLOCK_BYTES)) None 1 weights = Inr s"
    using assms(3-5) by (simp add: mk_TieredStore_def py_uint_def)
  from that [OF s] replay_store [OF s assms(3,4)] show thesis by simp
qed

text \<open>C19. The replay of a trace through the C++ store always returns, for a fast tier of at least one block and
  capacities a \<^verbatim>\<open>double\<close> represents: every block access of the replayed requests is counted once, as a hit or a
  miss; each distinct block has at least one miss, since prefetching moves only blocks that were
  written; and the hit rate is between 0 and 1.\<close>

theorem replay_complete:
  assumes "1 \<le> fast" "0 \<le> slow" "fast * int BLOCK_BYTES \<le> 2 ^ 53" "fast * slow * int BLOCK_BYTES \<le> 2 ^ 53"
    and "parse_trace w path = Inr parsed" "records = (case limit of None \<Rightarrow> parsed | Some n \<Rightarrow> py_take n parsed)"
    and "\<forall>h \<in> set (all_ids records). 0 \<le> h \<and> h < 2 ^ 64"
  shows "\<exists>st. replay w path fast slow limit = Some (Inr st) \<and> rs_requests st = length records
    \<and> rs_blocks st = length (all_ids records) \<and> rs_hits st + rs_misses st = rs_blocks st
    \<and> card (set (all_ids records)) \<le> rs_misses st \<and> 0 \<le> rs_hit_rate st \<and> rs_hit_rate st \<le> 1"
proof -
  have "0 \<le> fast" using assms(1) by simp
  then obtain s where s: "mk_TieredStore (Some (fast * int BLOCK_BYTES)) (Some (fast * slow * int BLOCK_BYTES)) None 1 [] = Inr s"
      "py_store_ok s" "store_content s = Map.empty" "store_room s = Some (nat fast * BLOCK_BYTES)"
    using mk_replay_store [OF _ assms(2-4), of "[]" "[]"] by auto
  have "1 \<le> nat fast" using assms(1) by simp
  then have "replay_ready {} s" using s by (simp add: replay_ready_def)
  from runs_ends [OF replay_requests_runs [OF this _ _ assms(7), of 0 0]] obtain h m s'
    where r: "replay_requests records (0, 0) s = Some (Inr (h, m), s')" "h + m = length (all_ids records)"
      "card (replay_key ` set (all_ids records)) \<le> m"
    by auto
  have "inj replay_key" by (rule injI) (simp add: replay_key_def)
  then have "card (set (all_ids records)) \<le> m" using r(3) by (simp add: card_image inj_on_subset)
  moreover have "0 \<le> int_truediv h (h + m)" "int_truediv h (h + m) \<le> 1" using int_truediv_unit [of h "h + m"] by simp_all
  ultimately show ?thesis using r s(1) assms(5,6) by (auto simp: replay_def replay_stats_def Let_def)
qed

lemma demo_trace: "parse_trace demo_world path = Inr [\<lparr>timestamp = 0, input_length = 6, output_length = 1, hash_ids = [7]\<rparr>]"
proof -
  have "parse_trace demo_world [] = Inr [\<lparr>timestamp = 0, input_length = 6, output_length = 1, hash_ids = [7]\<rparr>]" by code_simp
  then show ?thesis by (simp add: parse_trace_def demo_world_def)
qed

theorem replay_complete_witness:
  "\<exists>st. replay demo_world ''t.jsonl'' 2 4 None = Some (Inr st) \<and> rs_requests st = 1 \<and> rs_hits st = 0 \<and> rs_misses st = 1"
proof -
  have "\<exists>st. replay demo_world ''t.jsonl'' 2 4 None = Some (Inr st) \<and> rs_requests st = 1
      \<and> rs_hits st + rs_misses st = 1 \<and> 1 \<le> rs_misses st"
    using replay_complete [OF _ _ _ _ demo_trace, of 2 4 _ None "''t.jsonl''"] by (auto simp: all_ids_def BLOCK_BYTES_def)
  then show ?thesis by force
qed

text \<open>C38. Misconfigured replays fail and never report rates: a negative size of the fast tier is refused with
  \<^verbatim>\<open>TypeError\<close> at the language boundary, before the trace is read; with a fast tier of zero blocks the first
  block written raises \<^verbatim>\<open>RuntimeError\<close>.\<close>

theorem replay_misconfigured:
  assumes "0 \<le> slow" "parse_trace w path = Inr records" "all_ids records \<noteq> []"
    and "\<forall>h \<in> set (all_ids records). 0 \<le> h \<and> h < 2 ^ 64"
  shows "(fast < 0 \<longrightarrow> replay w' path' fast slow' limit = Some (Inl TypeError))
    \<and> replay w path 0 slow None = Some (Inl RuntimeError)"
proof -
  obtain s where s: "mk_TieredStore (Some (0 * int BLOCK_BYTES)) (Some (0 * slow * int BLOCK_BYTES)) None 1 [] = Inr s"
      "py_store_ok s" "store_content s = Map.empty" "store_room s = Some 0" "successor (pts_prefetcher s) = []"
    using mk_replay_store [OF _ assms(1), of 0 "[]" "[]"] by auto
  then have "replay w path 0 slow None = Some (Inl RuntimeError)"
    using replay_no_room [OF s(2,4,3,5) assms(3,4)] assms(2) by (simp add: replay_def)
  moreover have "replay w' path' fast slow' limit = Some (Inl TypeError)" if "fast < 0"
    using that by (simp add: replay_def mk_TieredStore_def py_uint_def BLOCK_BYTES_def)
  ultimately show ?thesis by blast
qed

theorem replay_misconfigured_witness:
  "replay demo_world ''t.jsonl'' (- 1) 4 None = Some (Inl TypeError)
   \<and> replay demo_world ''t.jsonl'' 0 4 None = Some (Inl RuntimeError)"
  using replay_misconfigured [OF _ demo_trace, where slow = 4 and fast = "- 1" and w' = demo_world and path' = "''t.jsonl''"
      and slow' = 4 and limit = None and path = "''t.jsonl''"]
  by (simp add: all_ids_def)

lemma card_tenant_keys:
  assumes "ids_ok records" "finite K" "tenant_key t ` set (all_ids records) \<subseteq> K"
  shows "card (set (all_ids records)) \<le> card (tenant_keys t K)"
proof -
  have "inj (tenant_key t)" by (rule injI) (simp add: tenant_key_def replay_key_def)
  then have "card (set (all_ids records)) = card (tenant_key t ` set (all_ids records))" by (simp add: card_image inj_on_subset)
  also have "\<dots> \<le> card (tenant_keys t K)"
  proof (rule card_mono)
    show "finite (tenant_keys t K)" using assms(2) by (simp add: tenant_keys_def)
    have "bk_hash_id (tenant_key t h) div TENANT_SALT = int t" if "h \<in> set (all_ids records)" for h
      using assms(1) that by (simp add: ids_ok_def tenant_key_def replay_key_def TENANT_SALT_def)
    with assms(3) show "tenant_key t ` set (all_ids records) \<subseteq> tenant_keys t K" by (auto simp: tenant_keys_def)
  qed
  finally show ?thesis .
qed

definition hit_rate :: "nat \<Rightarrow> nat \<Rightarrow> pyfloat" where
  "hit_rate hits n = (if n \<noteq> 0 then int_truediv hits n else 0)"

lemma pair_run:
  assumes "1 \<le> fast" "0 \<le> slow" "fast * int BLOCK_BYTES \<le> 2 ^ 53" "fast * slow * int BLOCK_BYTES \<le> 2 ^ 53"
    and "weight_map (case weights of None \<Rightarrow> [] | Some ws \<Rightarrow> ws) = Inr tw" "ids_ok ra" "ids_ok rb"
    and "parse_trace w a = Inr ra" "(if b = ''FLOOD'' then Inr (flood_records (length ra)) else parse_trace w b) = Inr rb"
  shows "\<exists>h1 h2. replay_pair w a b fast slow weights
      = Some (Inr (hit_rate h1 (length (all_ids ra)), hit_rate h2 (length (all_ids rb))))
    \<and> h1 + card (set (all_ids ra)) \<le> length (all_ids ra) \<and> h2 + card (set (all_ids rb)) \<le> length (all_ids rb)"
proof -
  let ?ws = "case weights of None \<Rightarrow> [] | Some ws \<Rightarrow> ws" and ?sc = "interleave ra rb"
  have "0 \<le> fast" using assms(1) by simp
  then obtain s where s: "mk_TieredStore (Some (fast * int BLOCK_BYTES)) (Some (fast * slow * int BLOCK_BYTES)) None 1 ?ws = Inr s"
      "py_store_ok s" "store_content s = Map.empty" "store_room s = Some (nat fast * BLOCK_BYTES)"
    using mk_replay_store [OF _ assms(2-5)] by auto
  have "1 \<le> nat fast" using assms(1) by simp
  then have ready: "replay_ready {} s" using s by (simp add: replay_ready_def)
  have t0: "tenants_ok {} (\<lambda>_. (0, 0))" by (simp add: tenants_ok_def tenant_keys_def)
  have ok: "\<forall>(t, rec) \<in> set ?sc. ids_ok [rec] \<and> t \<le> 2"
    using assms(6,7) by (auto simp: set_interleave ids_ok_def all_ids_def)
  from runs_ends [OF pair_requests_runs [OF ready _ t0 ok]] obtain c s'
    where r: "pair_requests ?sc (\<lambda>_. (0, 0)) s = Some (Inr c, s')" "tenants_ok (sched_keys ?sc) c"
      "\<forall>u. snd (c u) = length (all_ids (records_of u ?sc))"
    by auto
  have n: "snd (c 1) = length (all_ids ra)" "snd (c 2) = length (all_ids rb)"
    using r(3) by (simp_all add: records_of_interleave [simplified])
  have f: "finite (sched_keys ?sc)" by (auto simp: sched_keys_def)
  have k: "tenant_key 1 ` set (all_ids ra) \<subseteq> sched_keys ?sc" "tenant_key 2 ` set (all_ids rb) \<subseteq> sched_keys ?sc"
    by (auto simp: sched_keys_def set_interleave all_ids_def)
  have "fst (c u) + card (tenant_keys u (sched_keys ?sc)) \<le> snd (c u)" for u using r(2) by (simp add: tenants_ok_def)
  from this [of 1] this [of 2] card_tenant_keys [OF assms(6) f k(1)] card_tenant_keys [OF assms(7) f k(2)] n
  have le: "fst (c 1) + card (set (all_ids ra)) \<le> length (all_ids ra)" "fst (c 2) + card (set (all_ids rb)) \<le> length (all_ids rb)"
    by auto
  have "tenant_rate c 1 = hit_rate (fst (c 1)) (length (all_ids ra))" "tenant_rate c 2 = hit_rate (fst (c 2)) (length (all_ids rb))"
    using n by (auto simp: tenant_rate_def hit_rate_def case_prod_beta)
  then have "replay_pair w a b fast slow weights
      = Some (Inr (hit_rate (fst (c 1)) (length (all_ids ra)), hit_rate (fst (c 2)) (length (all_ids rb))))"
    using s(1) r(1) assms(8,9) by (auto simp: replay_pair_def)
  with le show ?thesis by blast
qed

text \<open>C11. Two tenants that share a store never hit each other's blocks, even under equal hash ids below
  \<open>2 ^ 48\<close>: the replay returns, whatever the weights, and the hits of each tenant are at most its accesses less
  its own distinct blocks, so every distinct block of a tenant misses at least once for that tenant.\<close>

theorem tenants_isolated:
  assumes "1 \<le> fast" "0 \<le> slow" "fast * int BLOCK_BYTES \<le> 2 ^ 53" "fast * slow * int BLOCK_BYTES \<le> 2 ^ 53"
    and "weight_map (case weights of None \<Rightarrow> [] | Some ws \<Rightarrow> ws) = Inr tw" "b \<noteq> ''FLOOD''"
    and "parse_trace w a = Inr ra" "parse_trace w b = Inr rb" "ids_ok ra" "ids_ok rb"
  shows "\<exists>h1 h2. replay_pair w a b fast slow weights
      = Some (Inr (hit_rate h1 (length (all_ids ra)), hit_rate h2 (length (all_ids rb))))
    \<and> h1 + card (set (all_ids ra)) \<le> length (all_ids ra) \<and> h2 + card (set (all_ids rb)) \<le> length (all_ids rb)"
  using pair_run [OF assms(1-5,9,10,7)] assms(6,8) by simp

theorem tenants_isolated_witness:
  "replay_pair demo_world ''a.jsonl'' ''b.jsonl'' 1 4 (Some [(1, fl (5 / 10)), (2, fl (5 / 10))]) = Some (Inr (0, 0))"
proof -
  let ?ws = "[(1, fl (5 / 10)), (2, fl (5 / 10))] :: (int \<times> pyfloat) list"
  have w: "weight_map (case Some ?ws of None \<Rightarrow> [] | Some ws \<Rightarrow> ws) = Inr [(1, fl (5 / 10)), (2, fl (5 / 10))]"
    by (simp add: py_uint_def)
  have z: "hit_rate 0 1 = 0" by (simp add: hit_rate_def int_truediv_def fl_def)
  from tenants_isolated [OF _ _ _ _ w _ demo_trace demo_trace, of 1 4 "''b.jsonl''" "''a.jsonl''"] z show ?thesis
    by (auto simp: all_ids_def ids_ok_def BLOCK_BYTES_def TENANT_SALT_def)
qed

lemma flood_ids: "all_ids (flood_loop n next is) = [next..next + int (n * length is) - 1]"
proof (induction "is" arbitrary: "next")
  case (Cons i rest)
  define m where "m = int (n * length rest)"
  have "0 \<le> m" by (simp add: m_def)
  then have "[next..next + int n - 1] @ [next + int n..next + int n + m - 1] = [next..next + int n + m - 1]"
    using upto_split1 [of "next" "next + int n" "next + int n + m - 1"] by (cases "m = 0") auto
  moreover have "next + int (n * length (i # rest)) - 1 = next + int n + m - 1" by (simp add: m_def algebra_simps)
  moreover have "all_ids (flood_loop n (next + int n) rest) = [next + int n..next + int n + m - 1]" using Cons by (simp add: m_def)
  ultimately show ?case by (simp only: all_ids_def) (simp add: all_ids_def)
qed (simp add: all_ids_def)

text \<open>The flooding neighbour never hits: with the trace name \<^verbatim>\<open>FLOOD\<close> the second tenant asks for 32 new
  blocks per request of the first, none of them twice, so its hit rate is 0 under every setting of
  the weights.\<close>

lemma flood_never_hits:
  assumes "1 \<le> fast" "0 \<le> slow" "fast * int BLOCK_BYTES \<le> 2 ^ 53" "fast * slow * int BLOCK_BYTES \<le> 2 ^ 53"
    and "weight_map (case weights of None \<Rightarrow> [] | Some ws \<Rightarrow> ws) = Inr tw"
    and "parse_trace w a = Inr ra" "ids_ok ra" "32 * length ra < 2 ^ 48"
  shows "distinct (all_ids (flood_records (length ra))) \<and> length (all_ids (flood_records (length ra))) = 32 * length ra
    \<and> (\<exists>rate. replay_pair w a ''FLOOD'' fast slow weights = Some (Inr (rate, 0)))"
proof -
  let ?rb = "flood_records (length ra)"
  have ids: "all_ids ?rb = [1..int (32 * length ra)]" by (simp add: flood_records_def flood_ids)
  then have d: "distinct (all_ids ?rb)" "length (all_ids ?rb) = 32 * length ra" by simp_all
  have "ids_ok ?rb" using assms(8) by (simp add: ids_ok_def ids TENANT_SALT_def) 
  from pair_run [OF assms(1-5,7) this assms(6), of "''FLOOD''"] obtain h1 h2
    where r: "replay_pair w a ''FLOOD'' fast slow weights = Some (Inr (hit_rate h1 (length (all_ids ra)), hit_rate h2 (length (all_ids ?rb))))"
      "h2 + card (set (all_ids ?rb)) \<le> length (all_ids ?rb)"
    by auto
  have "h2 = 0" using r(2) distinct_card [OF d(1)] by simp
  then have "hit_rate h2 (length (all_ids ?rb)) = 0" by (simp add: hit_rate_def int_truediv_def fl_def)
  with r(1) d show ?thesis by auto
qed

end
