(* ===== verification/Bench_Online.thy ===== *)
theory Bench_Online
  imports Trace "HOL-Library.Multiset"
begin

text \<open>
  The parts of \<^verbatim>\<open>scripts/bench_online.py\<close> that compute: the texts, the ShareGPT sessions, the reading of a
  streamed completion and the report. Python's pseudo-random generator is an argument: \<open>randbelow n g\<close>
  is the index below \<open>n\<close> that \<^verbatim>\<open>random.Random\<close> draws in state \<open>g\<close>, with its next state. An HTTP reply is
  its status and its decoded lines, each with the clock when it was read.
\<close>

section \<open>Random texts\<close>

type_synonym 'g draw = "nat \<Rightarrow> 'g \<Rightarrow> nat \<times> 'g"

definition WORDS :: "pystr list" where
  "WORDS =
     [[23384, 20648], [20998, 23618], [32531, 23384], [28120, 27760], [39044, 21462], [21629, 20013], [21069, 32512],
      [22797, 29992], [25512, 29702], [26174, 23384], [20869, 23384], [22359], [38190, 20540], [20250, 35805],
      [35843, 24230], [20256, 36755], [24341, 25806], [27169, 22411], [19978, 19979, 25991], [20196, 29260]]"

text \<open>\<^verbatim>\<open>random.choice\<close> and \<^verbatim>\<open>random.shuffle\<close>.\<close>

definition choice :: "'g draw \<Rightarrow> 'a list \<Rightarrow> 'g \<Rightarrow> 'a \<times> 'g" where
  "choice randbelow xs g = (let (j, g') = randbelow (length xs) g in (xs ! j, g'))"

fun choices :: "'g draw \<Rightarrow> 'a list \<Rightarrow> nat \<Rightarrow> 'g \<Rightarrow> 'a list \<times> 'g" where
  "choices randbelow xs 0 g = ([], g)"
| "choices randbelow xs (Suc n) g =
     (let (x, g1) = choice randbelow xs g; (ys, g2) = choices randbelow xs n g1 in (x # ys, g2))"

definition swap_at :: "nat \<Rightarrow> nat \<Rightarrow> 'a list \<Rightarrow> 'a list" where
  "swap_at i j xs = xs[i := xs ! j, j := xs ! i]"

fun shuffle_from :: "'g draw \<Rightarrow> nat \<Rightarrow> 'a list \<Rightarrow> 'g \<Rightarrow> 'a list \<times> 'g" where
  "shuffle_from randbelow 0 xs g = (xs, g)"
| "shuffle_from randbelow (Suc i) xs g =
     (let (j, g') = randbelow (Suc i + 1) g in shuffle_from randbelow i (swap_at (Suc i) j xs) g')"

definition shuffle :: "'g draw \<Rightarrow> 'a list \<Rightarrow> 'g \<Rightarrow> 'a list \<times> 'g" where
  "shuffle randbelow xs g = shuffle_from randbelow (length xs - 1) xs g"

definition make_text :: "'g draw \<Rightarrow> int \<Rightarrow> 'g \<Rightarrow> pystr \<times> 'g" where
  "make_text randbelow tokens g = (let (ws, g') = choices randbelow WORDS (nat tokens) g in (join [32] ws, g'))"

section \<open>ShareGPT sessions\<close>

text \<open>Truth and \<^verbatim>\<open>len\<close> of a decoded value, and \<^verbatim>\<open>v.get(key)\<close>, which only a dictionary has.\<close>

fun json_true :: "json \<Rightarrow> bool" where
  "json_true JNull = False"
| "json_true (JBool b) = b"
| "json_true (JInt n) = (n \<noteq> 0)"
| "json_true (JFloat x) = (x \<noteq> 0)"
| "json_true JNaN = True"
| "json_true (JInfinity _) = True"
| "json_true (JStr s) = (s \<noteq> [])"
| "json_true (JList vs) = (vs \<noteq> [])"
| "json_true (JObj d) = (d \<noteq> [])"

fun json_len :: "json \<Rightarrow> nat result" where
  "json_len (JStr s) = Inr (length s)"
| "json_len (JList vs) = Inr (length vs)"
| "json_len (JObj d) = Inr (length d)"
| "json_len _ = Inl TypeError"

definition json_get :: "json \<Rightarrow> pystr \<Rightarrow> json \<Rightarrow> json result" where
  "json_get v key fallback =
     (case v of
        JObj d \<Rightarrow> Inr (case map_of d key of None \<Rightarrow> fallback | Some x \<Rightarrow> x)
      | _ \<Rightarrow> Inl AttributeError)"

text \<open>The values of the turns of a conversation that are not empty.\<close>

fun turn_values :: "json list \<Rightarrow> json list result" where
  "turn_values [] = Inr []"
| "turn_values (t # ts) =
     bind_result (json_get t (lit ''value'') JNull) (\<lambda>v.
     bind_result (turn_values ts) (\<lambda>vs. Inr (if json_true v then v # vs else vs)))"

definition conversation :: "json \<Rightarrow> json list result" where
  "conversation c =
     bind_result (json_get c (lit ''conversations'') (JList [])) (\<lambda>v. bind_result (json_iter v) turn_values)"

definition long_enough :: "int \<Rightarrow> json list \<Rightarrow> bool result" where
  "long_enough prefix_chars c =
     (if length c < 4 then Inr False
      else bind_result (map_result json_len c) (\<lambda>ns. Inr (prefix_chars \<le> int (sum_list ns))))"

fun filter_result :: "('a \<Rightarrow> bool result) \<Rightarrow> 'a list \<Rightarrow> 'a list result" where
  "filter_result p [] = Inr []"
| "filter_result p (x # xs) =
     bind_result (p x) (\<lambda>b. bind_result (filter_result p xs) (\<lambda>ys. Inr (if b then x # ys else ys)))"

fun json_str :: "json \<Rightarrow> pystr result" where
  "json_str (JStr s) = Inr s"
| "json_str _ = Inl TypeError"

text \<open>The prefix of a session and its questions; \<^verbatim>\<open>join\<close> accepts only strings.\<close>

definition session_of :: "int \<Rightarrow> json list \<Rightarrow> (pystr \<times> pystr list) result" where
  "session_of prefix_chars c =
     bind_result (map_result json_str c) (\<lambda>ts.
       Inr (py_take prefix_chars (join [32] ts), take 16 (map (take 400) (filter (\<lambda>t. strip t \<noteq> []) ts))))"

definition load_sharegpt ::
  "'g draw \<Rightarrow> pystr \<Rightarrow> int \<Rightarrow> int \<Rightarrow> 'g \<Rightarrow> ((pystr list \<times> pystr list list) \<times> 'g) result" where
  "load_sharegpt randbelow file sessions prefix_chars g =
     bind_result (json_loads file) (\<lambda>data.
     bind_result (json_iter data) (\<lambda>cs.
     bind_result (map_result conversation cs) (\<lambda>convs.
     bind_result (filter_result (long_enough prefix_chars) convs) (\<lambda>kept.
       (let (shuffled, g') = shuffle randbelow kept g
        in if int (length shuffled) < sessions then Inl AssertionError
           else
             bind_result (map_result (session_of prefix_chars) (py_take sessions shuffled)) (\<lambda>ss.
               Inr ((map fst ss, map snd ss), g')))))))"

section \<open>One request\<close>

record http_reply =
  hr_status_ok :: bool
  hr_lines :: "(pystr \<times> pyfloat) list"
  hr_end :: pyfloat

text \<open>Whether a chunk carries generated text.\<close>

definition chunk_has_text :: "json \<Rightarrow> bool result" where
  "chunk_has_text chunk =
     bind_result (json_get chunk (lit ''choices'') JNull) (\<lambda>choices_value.
       if \<not> json_true choices_value then Inr False
       else
         bind_result
           (case choices_value of
              JList (c # _) \<Rightarrow> Inr c
            | JStr (c # _) \<Rightarrow> Inr (JStr [c])
            | JObj _ \<Rightarrow> Inl KeyError
            | _ \<Rightarrow> Inl TypeError)
           (\<lambda>c. bind_result (json_get c (lit ''text'') JNull) (\<lambda>t. Inr (json_true t))))"

fun read_stream :: "pyfloat \<Rightarrow> (pystr \<times> pyfloat) list \<Rightarrow> pyfloat option \<Rightarrow> nat \<Rightarrow> (pyfloat option \<times> nat) result" where
  "read_stream start [] ttft tokens = Inr (ttft, tokens)"
| "read_stream start ((raw, clock) # rest) ttft tokens =
     (let line = strip raw
      in if \<not> starts_with (lit ''data:'') line then read_stream start rest ttft tokens
         else
           (let payload = strip (drop 5 line)
            in if payload = lit ''[DONE]'' then Inr (ttft, tokens)
               else
                 bind_result (json_loads payload) (\<lambda>chunk.
                 bind_result (chunk_has_text chunk) (\<lambda>has_text.
                   if has_text
                   then read_stream start rest (Some (case ttft of None \<Rightarrow> fl (clock - start) | Some t \<Rightarrow> t)) (tokens + 1)
                   else read_stream start rest ttft tokens))))"

type_synonym measurement = "pyfloat \<times> pyfloat \<times> nat"

definition one_request :: "pyfloat \<Rightarrow> http_reply \<Rightarrow> measurement result" where
  "one_request start reply =
     (if \<not> hr_status_ok reply then Inl ClientError
      else
        bind_result (read_stream start (hr_lines reply) None 0) (\<lambda>(ttft, tokens).
          (let elapsed = fl (hr_end reply - start)
           in Inr (case ttft of None \<Rightarrow> elapsed | Some t \<Rightarrow> t, elapsed, tokens))))"

section \<open>The report\<close>

text \<open>\<^verbatim>\<open>round(x, digits)\<close>, \<^verbatim>\<open>statistics.median\<close> and \<^verbatim>\<open>statistics.mean\<close>, which sums exactly.\<close>

definition py_round :: "nat \<Rightarrow> pyfloat \<Rightarrow> pyfloat" where
  "py_round digits x = fl (of_int (round_half_even (x * 10 ^ digits)) / 10 ^ digits)"

definition median :: "pyfloat list \<Rightarrow> pyfloat result" where
  "median xs =
     (let s = sort xs; n = length s
      in if n = 0 then Inl ValueError
         else if odd n then Inr (s ! (n div 2))
         else Inr (fdiv (fadd (s ! (n div 2 - 1)) (s ! (n div 2))) 2))"

definition mean :: "pyfloat list \<Rightarrow> pyfloat result" where
  "mean xs = (if xs = [] then Inl ValueError else Inr (fl (sum_list xs / of_nat (length xs))))"

definition quantile_index :: "pyfloat \<Rightarrow> nat \<Rightarrow> int" where
  "quantile_index q n = min (int n - 1) \<lfloor>fmul q (int_to_float (int n))\<rfloor>"

record bench_report =
  br_requests :: nat
  br_ttft_p50 :: pyfloat
  br_ttft_p95 :: pyfloat
  br_ttft_mean :: pyfloat
  br_wall :: pyfloat
  br_gen_tokens :: nat
  br_tokens_per_s :: pyfloat

definition bench_report_of :: "measurement list \<Rightarrow> pyfloat \<Rightarrow> bench_report result" where
  "bench_report_of results wall =
     (let ttfts = sort (map fst results);
          total_tokens = sum_list (map (snd \<circ> snd) results)
      in bind_result (median ttfts) (\<lambda>m.
         bind_result (mean ttfts) (\<lambda>a.
           if wall = 0 then Inl ZeroDivisionError
           else Inr \<lparr>br_requests = length results, br_ttft_p50 = py_round 3 m,
                     br_ttft_p95 = py_round 3 (ttfts ! nat (quantile_index (fl (95 / 100)) (length ttfts))),
                     br_ttft_mean = py_round 3 a, br_wall = py_round 1 wall, br_gen_tokens = total_tokens,
                     br_tokens_per_s = py_round 1 (fdiv (int_to_float (int total_tokens)) wall)\<rparr>)))"

section \<open>Sessions\<close>

text \<open>What \<^verbatim>\<open>random.Random\<close> promises of a draw.\<close>

definition draw_ok :: "'g draw \<Rightarrow> bool" where
  "draw_ok randbelow \<longleftrightarrow> (\<forall>n g. 0 < n \<longrightarrow> fst (randbelow n g) < n)"

lemma mset_swap_at: "i < length xs \<Longrightarrow> j < length xs \<Longrightarrow> mset (swap_at i j xs) = mset xs"
  by (simp add: swap_at_def mset_swap)

lemma mset_shuffle_from:
  "draw_ok rb \<Longrightarrow> i < length xs \<or> i = 0 \<Longrightarrow> mset (fst (shuffle_from rb i xs g)) = mset xs"
proof (induction i arbitrary: xs g)
  case (Suc i)
  obtain j g' where j: "rb (Suc i + 1) g = (j, g')" by (cases "rb (Suc i + 1) g")
  have "j < Suc i + 1" using Suc.prems(1) j unfolding draw_ok_def by (metis fst_conv zero_less_Suc add_Suc)
  with Suc.prems(2) have "mset (swap_at (Suc i) j xs) = mset xs" by (intro mset_swap_at) auto
  moreover have "length (swap_at (Suc i) j xs) = length xs" by (simp add: swap_at_def)
  ultimately show ?case using Suc.IH [OF Suc.prems(1), of "swap_at (Suc i) j xs" g'] Suc.prems(2) j by simp
qed simp

lemma mset_shuffle: "draw_ok rb \<Longrightarrow> mset (fst (shuffle rb xs g)) = mset xs"
  unfolding shuffle_def by (rule mset_shuffle_from) (cases xs, auto)

lemma map_result_nth:
  "map_result f xs = Inr ys \<Longrightarrow> length ys = length xs \<and> (\<forall>i < length xs. f (xs ! i) = Inr (ys ! i))"
proof (induction xs arbitrary: ys)
  case (Cons x xs)
  then obtain y zs where "f x = Inr y" "map_result f xs = Inr zs" "ys = y # zs" by (auto simp: bind_result_Inr_iff)
  with Cons.IH show ?case by (auto simp: less_Suc_eq_0_disj)
qed simp

lemma filter_result_all: "filter_result p xs = Inr ys \<Longrightarrow> \<forall>y \<in> set ys. p y = Inr True"
  by (induction xs arbitrary: ys) (auto simp: bind_result_Inr_iff split: if_splits)

lemma length_join: "sum_list (map length ts) \<le> length (join [32] ts)"
  by (induction "[32] :: pystr" ts rule: join.induct) auto

lemma json_strs_len: "map_result json_str c = Inr ts \<Longrightarrow> map_result json_len c = Inr (map length ts)"
proof (induction c arbitrary: ts)
  case (Cons v c)
  then show ?case by (cases v) (auto simp: bind_result_Inr_iff)
qed simp

lemma session_of_shape:
  assumes "session_of n c = Inr (prefix, qs)" "long_enough n c = Inr True" "0 \<le> n"
  shows "length prefix = nat n \<and> length qs \<le> 16 \<and> (\<forall>q \<in> set qs. q \<noteq> [] \<and> length q \<le> 400)"
proof -
  obtain ts where ts: "map_result json_str c = Inr ts" "prefix = py_take n (join [32] ts)"
      "qs = take 16 (map (take 400) (filter (\<lambda>t. strip t \<noteq> []) ts))"
    using assms(1) by (auto simp: session_of_def bind_result_Inr_iff)
  have "n \<le> int (sum_list (map length ts))"
    using assms(2) json_strs_len [OF ts(1)] by (auto simp: long_enough_def split: if_splits)
  with length_join [of ts] assms(3) have "length prefix = nat n" by (simp add: ts(2) py_take_def)
  moreover have "q \<noteq> [] \<and> length q \<le> 400" if "q \<in> set qs" for q
  proof -
    from in_set_takeD [OF that [unfolded ts(3)]] obtain t where "q = take 400 t" "strip t \<noteq> []" by auto
    then show ?thesis by (cases t) (simp_all add: strip_def)
  qed
  moreover have "length qs \<le> 16" unfolding ts(3) length_take by simp
  ultimately show ?thesis by blast
qed

section \<open>Streams\<close>

text \<open>The lines a completion server sends for the texts it generates.\<close>

definition chunk_json :: "pystr \<Rightarrow> json" where
  "chunk_json t = JObj [(lit ''choices'', JList [JObj [(lit ''text'', JStr t)]])]"

definition data_line :: "pystr \<Rightarrow> pystr" where
  "data_line body = lit ''data: '' @ body @ [10]"

lemma strip_core:
  assumes "\<forall>x \<in> set (w1 @ w2). is_space x" "\<not> is_space a" "\<not> is_space b"
  shows "strip (w1 @ a # t @ b # w2) = a # t @ [b]"
proof -
  have "dropWhile is_space (w1 @ a # t @ b # w2) = a # t @ b # w2" using assms(1,2) by (simp add: dropWhile_append)
  moreover have "dropWhile is_space (rev (a # t @ b # w2)) = b # rev t @ [a]" using assms(1,3) by (simp add: dropWhile_append)
  ultimately show ?thesis by (simp add: strip_def)
qed

lemma data_line_parts:
  assumes "body = a # t @ [b]" "\<not> is_space a" "\<not> is_space b"
  shows "starts_with (lit ''data:'') (strip (data_line body))" "strip (drop 5 (strip (data_line body))) = body"
proof -
  have sp: "is_space 32" "is_space 10" "\<not> is_space 100" by (simp_all add: is_space_def)
  have "data_line body = [] @ 100 # ([97, 116, 97, 58, 32] @ a # t) @ b # [10]"
    by (simp add: data_line_def lit_def assms(1))
  then have l: "strip (data_line body) = 100 # ([97, 116, 97, 58, 32] @ a # t) @ [b]"
    using strip_core [of "[]" "[10]" 100 b "[97, 116, 97, 58, 32] @ a # t"] sp assms(3) by simp
  then show "starts_with (lit ''data:'') (strip (data_line body))" by (simp add: starts_with_def lit_def)
  have "drop 5 (strip (data_line body)) = [32] @ a # t @ b # []" unfolding l by simp
  then show "strip (drop 5 (strip (data_line body))) = body"
    using strip_core [of "[32]" "[]" a b t] sp(1) assms by simp
qed

lemma chunk_loads: "plain_text t \<Longrightarrow> json_loads (render (chunk_json t)) = Inr (chunk_json t)"
proof -
  assume "plain_text t"
  then have "plain_json (chunk_json t)" by (auto simp: chunk_json_def plain_text_def lit_def)
  then have "reads_back (chunk_json t)" by (rule render_reads_back)
  then have "json_value (Suc (length (render (chunk_json t)))) (render (chunk_json t) @ []) = Inr (chunk_json t, [])"
    unfolding reads_back_def by (simp add: ends_number_def del: json_value.simps)
  moreover have "hd (render (chunk_json t)) = 123" "render (chunk_json t) \<noteq> []" by (simp_all add: chunk_json_def)
  moreover have "skip_ws (render (chunk_json t)) = render (chunk_json t)" by (simp add: chunk_json_def skip_ws_def is_ws_def)
  ultimately show ?thesis by (simp add: json_loads_def skip_ws_def del: json_value.simps)
qed

lemma read_chunk:
  assumes "plain_text t"
  shows "read_stream start ((data_line (render (chunk_json t)), clock) # rest) ttft n =
    (if t = [] then read_stream start rest ttft n
     else read_stream start rest (Some (case ttft of None \<Rightarrow> fl (clock - start) | Some x \<Rightarrow> x)) (n + 1))"
proof -
  obtain u where u: "render (chunk_json t) = 123 # u @ [125]" by (simp add: chunk_json_def render_JObj)
  have "\<not> is_space 123" "\<not> is_space 125" by (simp_all add: is_space_def)
  note d = data_line_parts [OF u this]
  have "render (chunk_json t) \<noteq> lit ''[DONE]''" by (simp add: u lit_def)
  moreover have "chunk_has_text (chunk_json t) = Inr (t \<noteq> [])"
    by (simp add: chunk_has_text_def chunk_json_def json_get_def lit_def)
  ultimately show ?thesis by (simp add: d chunk_loads [OF assms] Let_def)
qed

lemma read_done: "read_stream start ((data_line (lit ''[DONE]''), clock) # rest) ttft n = Inr (ttft, n)"
proof -
  have b: "lit ''[DONE]'' = 91 # [68, 79, 78, 69] @ [93]" by (simp add: lit_def)
  have "\<not> is_space 91" "\<not> is_space 93" by (simp_all add: is_space_def)
  note d = data_line_parts [OF b this]
  show ?thesis by (simp add: d Let_def)
qed

lemma read_chunks:
  assumes "\<forall>c \<in> set cs. plain_text (fst c)"
  shows "read_stream start (map (\<lambda>(t, clock). (data_line (render (chunk_json t)), clock)) cs @ rest) ttft n =
    read_stream start rest
      (case ttft of Some x \<Rightarrow> Some x | None \<Rightarrow> map_option (\<lambda>c. fl (snd c - start)) (find (\<lambda>c. fst c \<noteq> []) cs))
      (n + length (filter (\<lambda>c. fst c \<noteq> []) cs))"
  using assms
proof (induction cs arbitrary: ttft n)
  case (Cons c cs)
  obtain t k where c: "c = (t, k)" by (cases c)
  have IH: "read_stream start (map (\<lambda>(t, clock). (data_line (render (chunk_json t)), clock)) cs @ rest) ttft n =
      read_stream start rest
        (case ttft of Some x \<Rightarrow> Some x | None \<Rightarrow> map_option (\<lambda>c. fl (snd c - start)) (find (\<lambda>c. fst c \<noteq> []) cs))
        (n + length (filter (\<lambda>c. fst c \<noteq> []) cs))" for ttft n
    using Cons by simp
  show ?case using Cons.prems unfolding c list.map append_Cons prod.case
    by (subst read_chunk) (auto simp: IH split: option.splits)
qed (auto split: option.splits)

text \<open>The clock never runs backwards.\<close>

fun clocks_ordered :: "pyfloat \<Rightarrow> (pystr \<times> pyfloat) list \<Rightarrow> pyfloat \<Rightarrow> bool" where
  "clocks_ordered now [] end_time = (now \<le> end_time)"
| "clocks_ordered now ((_, clock) # rest) end_time = (now \<le> clock \<and> clocks_ordered clock rest end_time)"

lemma clocks_ordered_le: "clocks_ordered now ls end_time \<Longrightarrow> now \<le> end_time"
  by (induction now ls end_time rule: clocks_ordered.induct) auto

lemma read_stream_bounds:
  assumes "read_stream start ls ttft n = Inr (ttft', n')" "clocks_ordered now ls end_time" "start \<le> now"
    and "\<forall>t. ttft = Some t \<longrightarrow> 0 \<le> t \<and> t \<le> fl (end_time - start)" "ttft = None \<longleftrightarrow> n = 0"
  shows "(\<forall>t. ttft' = Some t \<longrightarrow> 0 \<le> t \<and> t \<le> fl (end_time - start)) \<and> (ttft' = None \<longleftrightarrow> n' = 0)"
  using assms
proof (induction start ls ttft n arbitrary: now rule: read_stream.induct)
  case (2 start raw clock rest ttft n)
  have le: "now \<le> clock" "clocks_ordered clock rest end_time" "start \<le> clock" using "2.prems"(2,3) by auto
  then have "0 \<le> fl (clock - start)" "fl (clock - start) \<le> fl (end_time - start)"
    using f64.rnd_nonneg [of "clock - start"] f64.rnd_mono [of "clock - start" "end_time - start"] clocks_ordered_le by auto
  then have t: "\<forall>t. Some (case ttft of None \<Rightarrow> fl (clock - start) | Some x \<Rightarrow> x) = Some t \<longrightarrow> 0 \<le> t \<and> t \<le> fl (end_time - start)"
    using "2.prems"(4) by (auto split: option.splits)
  note r = "2.prems"(1)
  show ?case
  proof (cases "\<not> starts_with (lit ''data:'') (strip raw)")
    case True
    with r "2.IH"(1) [OF refl True _ le(2,3) "2.prems"(4,5)] show ?thesis by simp
  next
    case False
    show ?thesis
    proof (cases "strip (drop 5 (strip raw)) = lit ''[DONE]''")
      case True
      with r False "2.prems"(4,5) show ?thesis by (auto simp: Let_def)
    next
      case other: False
      obtain chunk b where c: "json_loads (strip (drop 5 (strip raw))) = Inr chunk" "chunk_has_text chunk = Inr b"
        using r False other by (auto simp: Let_def bind_result_Inr_iff)
      show ?thesis
      proof (cases b)
        case True
        have "read_stream start rest (Some (case ttft of None \<Rightarrow> fl (clock - start) | Some x \<Rightarrow> x)) (n + 1) = Inr (ttft', n')"
          using r False other c True by (simp add: Let_def)
        from "2.IH"(2) [OF refl _ refl other True this le(2,3) t] False show ?thesis by simp
      next
        case no: False
        have "read_stream start rest ttft n = Inr (ttft', n')" using r False other c no by (simp add: Let_def)
        from "2.IH"(3) [OF refl _ refl other no this le(2,3) "2.prems"(4,5)] False show ?thesis by simp
      qed
    qed
  qed
qed auto

section \<open>Statistics\<close>

lemma fl_double: "fl b = b \<Longrightarrow> fl (2 * b) = 2 * b"
proof (cases "b = 0")
  case False
  assume b: "fl b = b"
  define r e where "r = round_half_even (\<bar>b\<bar> / 2 powi (ilog2 \<bar>b\<bar> - 52))" and "e = ilog2 \<bar>b\<bar> - 52"
  have "\<bar>b\<bar> = fl_pos \<bar>b\<bar>" using b False by (auto simp: fl_def abs_if split: if_splits)
  then have a: "\<bar>b\<bar> = of_int r * 2 powi e" by (simp add: fl_pos_def Let_def r_def e_def)
  have "\<bar>r\<bar> \<le> 2 ^ 53" using significand_bounds [of "\<bar>b\<bar>"] False by (simp add: r_def)
  then have "fl (of_int r * 2 powi (e + 1)) = of_int r * 2 powi (e + 1)"
    "fl (of_int (- r) * 2 powi (e + 1)) = of_int (- r) * 2 powi (e + 1)"
    by (intro fl_exact; simp)+
  moreover have "of_int r * 2 powi (e + 1) = 2 * \<bar>b\<bar>" "of_int (- r) * 2 powi (e + 1) = - (2 * \<bar>b\<bar>)"
    unfolding a by (simp_all add: power_int_add)
  ultimately have x: "fl (2 * \<bar>b\<bar>) = 2 * \<bar>b\<bar>" "fl (- (2 * \<bar>b\<bar>)) = - (2 * \<bar>b\<bar>)" by simp_all
  show ?thesis
  proof (cases "0 \<le> b")
    case True
    with x(1) show ?thesis by simp
  next
    case False
    with x(2) show ?thesis by simp
  qed
qed simp

lemma py_round_mono: "x \<le> y \<Longrightarrow> py_round d x \<le> py_round d y"
  unfolding py_round_def by (intro f64.rnd_mono divide_right_mono) (auto intro!: round_half_even_mono mult_right_mono)

lemma mid_bounds:
  assumes "a \<le> b" "fl a = a" "fl b = b"
  shows "a \<le> fdiv (fadd a b) 2" "fdiv (fadd a b) 2 \<le> b"
proof -
  have "2 * a \<le> fl (a + b)" "fl (a + b) \<le> 2 * b"
    using f64.rnd_mono [of "2 * a" "a + b"] f64.rnd_mono [of "a + b" "2 * b"] assms fl_double by auto
  then have "fl a \<le> fl (fl (a + b) / 2)" "fl (fl (a + b) / 2) \<le> fl b" by (auto intro!: f64.rnd_mono)
  then show "a \<le> fdiv (fadd a b) 2" "fdiv (fadd a b) 2 \<le> b" by (simp_all add: fdiv_def fadd_def assms)
qed

lemma median_bounds:
  assumes "xs \<noteq> []" "\<forall>x \<in> set xs. fl x = x"
  shows "\<exists>m. median xs = Inr m \<and> sort xs ! 0 \<le> m \<and> m \<le> sort xs ! (length xs div 2)"
proof -
  let ?s = "sort xs" and ?n = "length xs"
  have n: "0 < ?n" using assms(1) by simp
  have le: "?s ! i \<le> ?s ! j" if "i \<le> j" "j < ?n" for i j using that by (auto intro: sorted_nth_mono)
  have f: "fl (?s ! i) = ?s ! i" if "i < ?n" for i using assms(2) that by (metis length_sort nth_mem set_sort)
  show ?thesis
  proof (cases "odd ?n")
    case True
    then have "median xs = Inr (?s ! (?n div 2))" using n unfolding median_def Let_def length_sort by simp
    with n show ?thesis using le [of 0 "?n div 2"] by simp
  next
    case False
    define i where "i = ?n div 2 - 1"
    have half: "?n div 2 < ?n" using n by simp
    have "i \<le> ?n div 2" unfolding i_def by (rule diff_le_self)
    with half have i: "i < ?n" "?n div 2 < ?n" "i \<le> ?n div 2" by linarith+
    have "?s ! i \<le> fdiv (fadd (?s ! i) (?s ! (?n div 2))) 2" "fdiv (fadd (?s ! i) (?s ! (?n div 2))) 2 \<le> ?s ! (?n div 2)"
      using mid_bounds [OF le [OF i(3,2)] f [OF i(1)] f [OF i(2)]] by simp_all
    moreover have "?s ! 0 \<le> ?s ! i" using le [of 0 i] i by simp
    moreover have "median xs = Inr (fdiv (fadd (?s ! i) (?s ! (?n div 2))) 2)"
      using n False unfolding median_def Let_def length_sort i_def by simp
    ultimately show ?thesis by auto
  qed
qed

lemma quantile_bounds:
  assumes "0 < n" "n \<le> 2 ^ 53"
  shows "int (n div 2) \<le> quantile_index (fl (95 / 100)) n" "quantile_index (fl (95 / 100)) n \<le> int n - 1"
proof -
  have h: "fl (1 / 2) = 1 / 2" by code_simp
  have f: "int_to_float (int n) = of_nat n" "fl (of_nat (n div 2)) = of_nat (n div 2)"
    using f64.rnd_int [of "int n"] f64.rnd_int [of "int (n div 2)"] assms(2) by (simp_all add: int_to_float_def)
  define q where "q = fl (95 / 100)"
  have "fl (1 / 2) \<le> q" unfolding q_def by (rule f64.rnd_mono) simp
  then have "1 / 2 \<le> q" unfolding h .
  then have "of_nat n / 2 \<le> q * of_nat n" using mult_right_mono [of "1 / 2" q "of_nat n"] by simp
  moreover have "of_nat (2 * (n div 2)) \<le> (of_nat n :: rat)" by (subst of_nat_le_iff) simp
  then have "of_nat (n div 2) \<le> (of_nat n / 2 :: rat)" by simp
  ultimately have "of_nat (n div 2) \<le> q * of_nat n" by linarith
  from f64.rnd_mono [OF this] have "fl (of_nat (n div 2)) \<le> fmul q (int_to_float (int n))" by (simp add: f fmul_def)
  then have "int (n div 2) \<le> \<lfloor>fmul q (int_to_float (int n))\<rfloor>" by (simp add: f le_floor_iff)
  then show "int (n div 2) \<le> quantile_index (fl (95 / 100)) n" using assms(1) unfolding quantile_index_def q_def by linarith
  show "quantile_index (fl (95 / 100)) n \<le> int n - 1" unfolding quantile_index_def by linarith
qed

section \<open>Properties\<close>

text \<open>C36. Sessions built from a ShareGPT file have the shape the benchmark asks for: as many prefixes and
  question lists as sessions, every prefix of exactly the requested length, at most 16 questions each,
  none empty and none longer than 400 characters; the shuffle loses and invents no conversation.\<close>

theorem sharegpt_sessions:
  assumes "draw_ok randbelow" "0 \<le> sessions" "0 \<le> n" "load_sharegpt randbelow file sessions n g = Inr ((prefixes, questions), g')"
  shows "length prefixes = nat sessions \<and> length questions = nat sessions \<and> (\<forall>p \<in> set prefixes. length p = nat n)
    \<and> (\<forall>qs \<in> set questions. length qs \<le> 16 \<and> (\<forall>q \<in> set qs. q \<noteq> [] \<and> length q \<le> 400))
    \<and> mset (fst (shuffle randbelow xs h)) = mset xs"
proof -
  obtain kept convs ss where k: "filter_result (long_enough n) convs = Inr kept"
      "sessions \<le> int (length (fst (shuffle randbelow kept g)))"
      "map_result (session_of n) (py_take sessions (fst (shuffle randbelow kept g))) = Inr ss"
      "prefixes = map fst ss" "questions = map snd ss"
    using assms(4) by (auto simp: load_sharegpt_def bind_result_Inr_iff Let_def case_prod_beta split: if_splits)
  define cs where "cs = py_take sessions (fst (shuffle randbelow kept g))"
  have l: "length cs = nat sessions" using k(2) assms(2) by (simp add: cs_def py_take_def)
  have "set cs \<subseteq> set kept"
    using set_take_subset [of _ "fst (shuffle randbelow kept g)"] mset_eq_setD [OF mset_shuffle [OF assms(1), of kept g]]
    by (auto simp: cs_def py_take_def)
  then have long: "long_enough n c = Inr True" if "c \<in> set cs" for c using filter_result_all [OF k(1)] that by auto
  note all = map_result_nth [OF k(3), folded cs_def]
  have "length (fst s) = nat n \<and> length (snd s) \<le> 16 \<and> (\<forall>q \<in> set (snd s). q \<noteq> [] \<and> length q \<le> 400)" if "s \<in> set ss" for s
  proof -
    obtain i where "i < length ss" "s = ss ! i" using \<open>s \<in> set ss\<close> by (auto simp: in_set_conv_nth)
    then have i: "i < length cs" "s = ss ! i" using all by simp_all
    then have "session_of n (cs ! i) = Inr (fst s, snd s)" using all by simp
    from session_of_shape [OF this long assms(3)] i(1) show ?thesis by simp
  qed
  then show ?thesis using l all k(4,5) mset_shuffle [OF assms(1)] by (auto simp del: set_od_keys)
qed

text \<open>A generator that always draws the last index, and a file with one conversation, for the witness.\<close>

definition last_draw :: "unit draw" where
  "last_draw n g = (n - 1, g)"

definition share_file :: pystr where
  "share_file = lit ''[{\"conversations\": [{\"value\": \"ab\"}, {\"value\": \"c\"}, {\"value\": \"d\"}, {\"value\": \"e\"}]}]''"

theorem sharegpt_sessions_witness:
  "\<exists>ps qs g'. load_sharegpt last_draw share_file 1 4 () = Inr ((ps, qs), g') \<and> map length ps = [4] \<and> length qs = 1"
proof -
  have "draw_ok last_draw" by (auto simp: draw_ok_def last_draw_def)
  have "load_sharegpt last_draw share_file 1 4 () =
      Inr (([lit ''ab c''], [[lit ''ab'', lit ''c'', lit ''d'', lit ''e'']]), ())" by code_simp
  then obtain ps qs where l: "load_sharegpt last_draw share_file 1 4 () = Inr ((ps, qs), ())" by blast
  from sharegpt_sessions [OF \<open>draw_ok last_draw\<close> _ _ l, of "[] :: int list" "()"]
  have q: "length ps = 1" "length qs = 1" "\<forall>p \<in> set ps. length p = 4" by simp_all
  then have "map length ps = [4]" by (cases ps) auto
  with l q(2) show ?thesis by (intro exI conjI)
qed

text \<open>A streamed completion is measured as it was sent: with one chunk per generated text, the token count
  is the number of chunks with a non-empty text, the time to first token is taken at the first of them
  and the total at the end; without any such chunk the time to first token is the total; nothing
  after \<^verbatim>\<open>[DONE]\<close> counts. An error status raises.\<close>

lemma stream_measured:
  assumes "\<forall>c \<in> set cs. plain_text (fst c)"
  shows "one_request start \<lparr>hr_status_ok = True, hr_lines = map (\<lambda>(t, clock). (data_line (render (chunk_json t)), clock)) cs
        @ (data_line (lit ''[DONE]''), clock) # rest, hr_end = stop\<rparr>
      = Inr (case find (\<lambda>c. fst c \<noteq> []) cs of None \<Rightarrow> fl (stop - start) | Some c \<Rightarrow> fl (snd c - start),
             fl (stop - start), length (filter (\<lambda>c. fst c \<noteq> []) cs))
    \<and> one_request start \<lparr>hr_status_ok = False, hr_lines = rest, hr_end = stop\<rparr> = Inl ClientError"
  by (simp add: one_request_def read_chunks [OF assms] read_done Let_def del: read_stream.simps split: option.splits)

text \<open>Every time measured against a clock that does not run backwards is ordered.\<close>

lemma request_times_ordered:
  assumes "one_request start reply = Inr (ttft, elapsed, tokens)" "clocks_ordered start (hr_lines reply) (hr_end reply)"
  shows "0 \<le> ttft" "ttft \<le> elapsed" "tokens = 0 \<Longrightarrow> ttft = elapsed" "fl ttft = ttft"
proof -
  obtain ft where r: "read_stream start (hr_lines reply) None 0 = Inr (ft, tokens)" "elapsed = fl (hr_end reply - start)"
      "ttft = (case ft of None \<Rightarrow> elapsed | Some t \<Rightarrow> t)"
    using assms(1) by (auto simp: one_request_def bind_result_Inr_iff Let_def split: if_splits)
  have b: "\<forall>t. ft = Some t \<longrightarrow> 0 \<le> t \<and> t \<le> elapsed" "ft = None \<longleftrightarrow> tokens = 0"
    using read_stream_bounds [OF r(1) assms(2)] by (simp_all add: r(2))
  have "0 \<le> elapsed" unfolding r(2) using clocks_ordered_le [OF assms(2)] by (intro f64.rnd_nonneg) simp
  with b show "0 \<le> ttft" "ttft \<le> elapsed" "tokens = 0 \<Longrightarrow> ttft = elapsed" by (auto simp: r(3) split: option.splits)
  have "fl t = t" if "read_stream s ls x k = Inr (Some t, j)" "\<forall>y. x = Some y \<longrightarrow> fl y = y" for s ls x k t j
    using that
  proof (induction s ls x k rule: read_stream.induct)
    case (2 s raw clock rest x k)
    then show ?case
      by (auto simp: Let_def bind_result_Inr_iff f64.rnd_idem split: if_splits option.splits)
  qed simp
  from this [of start "hr_lines reply" None 0] r f64.rnd_idem show "fl ttft = ttft" by (auto split: option.splits)
qed

text \<open>The report of a benchmark run is consistent: with at least one request and a positive wall time it
  counts every request, its p50 is at most its p95, and p50, p95 and the mean lie between the smallest and
  the largest time to first token, all rounded to milliseconds; a run without requests raises
  \<^verbatim>\<open>statistics.StatisticsError\<close>, a \<^verbatim>\<open>ValueError\<close>, and never prints a report.\<close>

lemma bench_report_ordered:
  assumes "results \<noteq> []" "length results \<le> 2 ^ 53" "\<forall>m \<in> set results. fl (fst m) = fst m" "wall \<noteq> 0"
  shows "(\<exists>r. bench_report_of results wall = Inr r \<and> br_requests r = length results
      \<and> br_ttft_p50 r \<le> br_ttft_p95 r
      \<and> (\<forall>v \<in> {br_ttft_p50 r, br_ttft_p95 r, br_ttft_mean r}.
            py_round 3 (Min (fst ` set results)) \<le> v \<and> v \<le> py_round 3 (Max (fst ` set results))))
    \<and> bench_report_of [] wall = Inl ValueError"
proof -
  let ?t = "sort (map fst results)" and ?lo = "Min (fst ` set results)" and ?hi = "Max (fst ` set results)"
  let ?n = "length results"
  have n: "0 < ?n" "length ?t = ?n" "?t \<noteq> []" using assms(1) by (simp, simp, metis length_0_conv length_map length_sort)
  have s: "sort ?t = ?t" by (rule sorted_sort_id) simp
  have el: "?t ! i \<in> fst ` set results" if "i < ?n" for i using that n(2) by (metis nth_mem set_sort list.set_map)
  then have lh: "?lo \<le> ?t ! i" "?t ! i \<le> ?hi" if "i < ?n" for i using that by (auto intro: Min_le Max_ge)
  have mono: "?t ! i \<le> ?t ! j" if "i \<le> j" "j < ?n" for i j using that n(2) by (auto intro: sorted_nth_mono)
  have f: "\<forall>x \<in> set ?t. fl x = x" using assms(3) by (simp del: set_od_keys)
  obtain m where m: "median ?t = Inr m" "?t ! 0 \<le> m" "m \<le> ?t ! (?n div 2)"
    using median_bounds [OF n(3) f] unfolding s n(2) by blast
  define i where "i = nat (quantile_index (fl (95 / 100)) ?n)"
  have i: "?n div 2 \<le> i" "i < ?n" using quantile_bounds [OF n(1) assms(2)] n(1) unfolding i_def by linarith+
  define a where "a = fl (sum_list ?t / of_nat ?n)"
  have lo: "fl ?lo = ?lo" "fl ?hi = ?hi"
  proof -
    have x: "x \<in> fst ` set results \<Longrightarrow> fl x = x" for x using assms(3) by (auto simp del: set_od_keys)
    have "finite (fst ` set results)" "fst ` set results \<noteq> {}" using assms(1) by (simp_all del: set_od_keys)
    from x [OF Min_in [OF this]] x [OF Max_in [OF this]] show "fl ?lo = ?lo" "fl ?hi = ?hi" .
  qed
  have "of_nat ?n * ?lo \<le> sum_list ?t" "sum_list ?t \<le> of_nat ?n * ?hi"
    using sum_list_mono2 [of "replicate ?n ?lo" ?t] sum_list_mono2 [of ?t "replicate ?n ?hi"] lh n(2)
    by (simp_all add: sum_list_replicate)
  then have "?lo \<le> sum_list ?t / of_nat ?n" "sum_list ?t / of_nat ?n \<le> ?hi"
    using n(1) by (simp_all add: pos_le_divide_eq pos_divide_le_eq mult.commute)
  then have a: "?lo \<le> a" "a \<le> ?hi" using f64.rnd_mono lo unfolding a_def by metis+
  have mm: "?lo \<le> m" "m \<le> ?t ! i" "m \<le> ?hi" using m(2,3) lh(1) [of 0] lh(2) [of i] mono [OF i] n(1) i(2) by linarith+
  have "mean ?t = Inr a" using n(3) by (simp only: mean_def a_def n(2) if_False)
  then have "\<exists>r. bench_report_of results wall = Inr r \<and> br_requests r = ?n \<and> br_ttft_p50 r = py_round 3 m
      \<and> br_ttft_p95 r = py_round 3 (?t ! i) \<and> br_ttft_mean r = py_round 3 a"
    using m(1) assms(4) n(2) unfolding bench_report_of_def Let_def i_def by simp
  moreover have "bench_report_of [] wall = Inl ValueError" by (simp add: bench_report_of_def median_def)
  ultimately show ?thesis using mm lh [OF i(2)] a by (auto intro!: py_round_mono)
qed

end
