(* ===== verification/Bench_Sessions.thy ===== *)
theory Bench_Sessions
  imports Bench_Online "HOL-Library.Sublist"
begin

text \<open>
  The run of \<^verbatim>\<open>scripts/bench_online.py\<close>: concurrent sessions and scanners over one semaphore, as a step
  relation. Code between two \<^verbatim>\<open>await\<close>s runs without interruption, so a step is one such stretch of one task;
  the event loop may take the tasks in any order. A reply of the server is arbitrary; one with a bad
  status stands for every failure of the exchange. \<open>seed\<close> is the state of \<^verbatim>\<open>random.Random\<close> for a seed.
\<close>

section \<open>Model\<close>

record bench_args =
  arg_base_url :: string
  arg_model :: string
  arg_sessions :: int
  arg_rounds :: int
  arg_prefix_tokens :: int
  arg_max_tokens :: int
  arg_concurrency :: int
  arg_scan_sessions :: int
  arg_sharegpt :: string
  arg_tag :: string

definition default_args :: bench_args where
  "default_args =
     \<lparr>arg_base_url = ''http://localhost:8000'', arg_model = ''Qwen/Qwen2.5-7B-Instruct'', arg_sessions = 24,
      arg_rounds = 4, arg_prefix_tokens = 6000, arg_max_tokens = 64, arg_concurrency = 8, arg_scan_sessions = 0,
      arg_sharegpt = [], arg_tag = ''run''\<rparr>"

datatype phase = Fresh | Waiting pystr | Running pystr | Finished

text \<open>A scanner has a generator of its own, a session draws from the shared one.\<close>

record 'g task =
  tk_scanner :: "'g option"
  tk_index :: nat
  tk_history :: pystr
  tk_round :: nat
  tk_phase :: phase

record 'g bench_state =
  bs_tasks :: "'g task list"
  bs_permits :: nat
  bs_results :: "measurement list"
  bs_posts :: "(nat \<times> pystr) list"
  bs_rng :: 'g
  bs_failed :: "py_error option"

fun session_texts :: "'g draw \<Rightarrow> pystr \<Rightarrow> nat \<Rightarrow> 'g \<Rightarrow> pystr list \<times> 'g" where
  "session_texts randbelow shared 0 g = ([], g)"
| "session_texts randbelow shared (Suc n) g =
     (let (t, g1) = make_text randbelow 512 g; (ts, g2) = session_texts randbelow shared n g1
      in ((shared @ [32] @ t) # ts, g2))"

type_synonym questions = "pystr list list option"

definition bench_sessions ::
  "'g draw \<Rightarrow> (string \<Rightarrow> pystr result) \<Rightarrow> bench_args \<Rightarrow> 'g \<Rightarrow> ((pystr list \<times> questions) \<times> 'g) result" where
  "bench_sessions randbelow read_file args g =
     (if arg_sharegpt args \<noteq> []
      then bind_result (read_file (arg_sharegpt args)) (\<lambda>file.
           bind_result (load_sharegpt randbelow file (arg_sessions args) (arg_prefix_tokens args * 4) g) (\<lambda>((ps, qs), g').
             Inr ((ps, Some qs), g')))
      else
        (let (shared, g1) = make_text randbelow (arg_prefix_tokens args) g;
             (ts, g2) = session_texts randbelow shared (nat (arg_sessions args)) g1
         in Inr ((ts, None), g2)))"

definition session_task :: "pystr list \<Rightarrow> nat \<Rightarrow> 'g task" where
  "session_task texts i = \<lparr>tk_scanner = None, tk_index = i, tk_history = texts ! i, tk_round = 0, tk_phase = Fresh\<rparr>"

definition scanner_task :: "(int \<Rightarrow> 'g) \<Rightarrow> nat \<Rightarrow> 'g task" where
  "scanner_task seed i =
     \<lparr>tk_scanner = Some (seed (1000 + int i)), tk_index = i, tk_history = [], tk_round = 0, tk_phase = Fresh\<rparr>"

definition bench_init :: "(int \<Rightarrow> 'g) \<Rightarrow> bench_args \<Rightarrow> pystr list \<Rightarrow> 'g \<Rightarrow> 'g bench_state" where
  "bench_init seed args texts g =
     \<lparr>bs_tasks = map (session_task texts) [0..<nat (arg_sessions args)] @ map (scanner_task seed) [0..<nat (arg_scan_sessions args)],
      bs_permits = nat (arg_concurrency args), bs_results = [], bs_posts = [], bs_rng = g, bs_failed = None\<rparr>"

text \<open>\<^verbatim>\<open>asyncio.Semaphore\<close> refuses a negative number of permits.\<close>

definition bench_start ::
  "'g draw \<Rightarrow> (int \<Rightarrow> 'g) \<Rightarrow> (string \<Rightarrow> pystr result) \<Rightarrow> bench_args \<Rightarrow> ('g bench_state \<times> pystr list \<times> questions) result" where
  "bench_start randbelow seed read_file args =
     bind_result (bench_sessions randbelow read_file args (seed 42)) (\<lambda>((texts, qs), g).
       if arg_concurrency args < 0 then Inl ValueError else Inr (bench_init seed args texts g, texts, qs))"

definition question_of :: "'g draw \<Rightarrow> questions \<Rightarrow> nat \<Rightarrow> nat \<Rightarrow> 'g \<Rightarrow> (pystr \<times> 'g) result" where
  "question_of randbelow qss idx r g =
     (case qss of
        None \<Rightarrow> Inr (make_text randbelow 32 g)
      | Some q \<Rightarrow> (let qs = q ! idx in if qs = [] then Inl ZeroDivisionError else Inr (qs ! (r mod length qs), g)))"

definition USER_TAG :: pystr where
  "USER_TAG = [32, 29992, 25143, 38382, 39064, 65306]"

definition SCAN_TAG :: pystr where
  "SCAN_TAG = [32, 25688, 35201, 65306]"

text \<open>The head of a loop: the task ends or builds the prompt of its round and waits for the semaphore.\<close>

definition next_round :: "'g draw \<Rightarrow> bench_args \<Rightarrow> questions \<Rightarrow> 'g task \<Rightarrow> 'g \<Rightarrow> ('g task \<times> 'g) result" where
  "next_round randbelow args qss tk g =
     (if arg_rounds args \<le> int (tk_round tk) then Inr (tk\<lparr>tk_phase := Finished\<rparr>, g)
      else
        (case tk_scanner tk of
           None \<Rightarrow>
             bind_result (question_of randbelow qss (tk_index tk) (tk_round tk) g) (\<lambda>(q, g').
               Inr (tk\<lparr>tk_phase := Waiting (tk_history tk @ USER_TAG @ q)\<rparr>, g'))
         | Some sg \<Rightarrow>
             (let (t, sg') = make_text randbelow (arg_prefix_tokens args) sg
              in Inr (tk\<lparr>tk_scanner := Some sg', tk_phase := Waiting (t @ SCAN_TAG)\<rparr>, g))))"

definition resume :: "nat \<Rightarrow> ('g task \<times> 'g) result \<Rightarrow> 'g bench_state \<Rightarrow> 'g bench_state" where
  "resume i r st =
     (case r of
        Inl e \<Rightarrow> st\<lparr>bs_failed := Some e\<rparr>
      | Inr (tk, g) \<Rightarrow> st\<lparr>bs_tasks := (bs_tasks st)[i := tk], bs_rng := g\<rparr>)"

definition acquire_permit :: "nat \<Rightarrow> pystr \<Rightarrow> 'g bench_state \<Rightarrow> 'g bench_state" where
  "acquire_permit i prompt st =
     st\<lparr>bs_tasks := (bs_tasks st)[i := (bs_tasks st ! i)\<lparr>tk_phase := Running prompt\<rparr>],
        bs_permits := bs_permits st - 1, bs_posts := bs_posts st @ [(i, prompt)]\<rparr>"

text \<open>The stretch after the reply: a session records the measurement and extends its history.\<close>

definition finish_round ::
  "'g draw \<Rightarrow> bench_args \<Rightarrow> questions \<Rightarrow> nat \<Rightarrow> pystr \<Rightarrow> measurement \<Rightarrow> 'g bench_state \<Rightarrow> 'g bench_state" where
  "finish_round randbelow args qss i prompt m st =
     (let tk = bs_tasks st ! i; st1 = st\<lparr>bs_permits := bs_permits st + 1\<rparr>
      in case tk_scanner tk of
           None \<Rightarrow>
             (let (t, g) = make_text randbelow (arg_max_tokens args) (bs_rng st1);
                  tk1 = tk\<lparr>tk_history := prompt @ [32] @ t, tk_round := tk_round tk + 1\<rparr>
              in resume i (next_round randbelow args qss tk1 g) (st1\<lparr>bs_results := bs_results st1 @ [m]\<rparr>))
         | Some _ \<Rightarrow> resume i (next_round randbelow args qss (tk\<lparr>tk_round := tk_round tk + 1\<rparr>) (bs_rng st1)) st1)"

inductive bench_step :: "'g draw \<Rightarrow> bench_args \<Rightarrow> questions \<Rightarrow> 'g bench_state \<Rightarrow> 'g bench_state \<Rightarrow> bool"
  for randbelow args qss where
  enter: "bs_failed st = None \<Longrightarrow> i < length (bs_tasks st) \<Longrightarrow> tk_phase (bs_tasks st ! i) = Fresh \<Longrightarrow>
    bench_step randbelow args qss st (resume i (next_round randbelow args qss (bs_tasks st ! i) (bs_rng st)) st)"
| acquire: "bs_failed st = None \<Longrightarrow> i < length (bs_tasks st) \<Longrightarrow> tk_phase (bs_tasks st ! i) = Waiting prompt \<Longrightarrow>
    0 < bs_permits st \<Longrightarrow> bench_step randbelow args qss st (acquire_permit i prompt st)"
| reply: "bs_failed st = None \<Longrightarrow> i < length (bs_tasks st) \<Longrightarrow> tk_phase (bs_tasks st ! i) = Running prompt \<Longrightarrow>
    one_request start r = Inr m \<Longrightarrow> bench_step randbelow args qss st (finish_round randbelow args qss i prompt m st)"
| abort: "bs_failed st = None \<Longrightarrow> i < length (bs_tasks st) \<Longrightarrow> tk_phase (bs_tasks st ! i) = Running prompt \<Longrightarrow>
    one_request start r = Inl e \<Longrightarrow>
    bench_step randbelow args qss st (st\<lparr>bs_failed := Some e, bs_permits := bs_permits st + 1\<rparr>)"

text \<open>The outcome once no task can move: the first exception, or the tag and the report.\<close>

definition bench_outcome :: "bench_args \<Rightarrow> 'g bench_state \<Rightarrow> pyfloat \<Rightarrow> (string \<times> bench_report) result" where
  "bench_outcome args st wall =
     (case bs_failed st of
        Some e \<Rightarrow> Inl e
      | None \<Rightarrow> bind_result (bench_report_of (bs_results st) wall) (\<lambda>r. Inr (arg_tag args, r)))"

section \<open>Weights of the task list\<close>

definition weigh :: "('g task \<Rightarrow> nat) \<Rightarrow> 'g task list \<Rightarrow> nat" where
  "weigh f ts = sum_list (map f ts)"

lemma weigh_update: "i < length ts \<Longrightarrow> weigh f (ts[i := t]) + f (ts ! i) = weigh f ts + f t"
proof (induction ts arbitrary: i)
  case (Cons u ts)
  then show ?case by (cases i) (auto simp: weigh_def)
qed simp

text \<open>An upper bound on the steps a task still takes.\<close>

definition steps_left :: "bench_args \<Rightarrow> 'g task \<Rightarrow> nat" where
  "steps_left args tk =
     (let rest = nat (arg_rounds args) - tk_round tk
      in case tk_phase tk of Fresh \<Rightarrow> 2 * nat (arg_rounds args) + 3 | Waiting _ \<Rightarrow> 2 * rest + 2
         | Running _ \<Rightarrow> 2 * rest + 1 | Finished \<Rightarrow> 0)"

definition bench_work :: "bench_args \<Rightarrow> 'g bench_state \<Rightarrow> nat" where
  "bench_work args st = (if bs_failed st = None then Suc (weigh (steps_left args) (bs_tasks st)) else 0)"

lemma next_round_shape:
  assumes "next_round randbelow args qss tk g = Inr (tk', g')"
  shows "tk_history tk' = tk_history tk" "tk_round tk' = tk_round tk" "tk_index tk' = tk_index tk"
    and "tk_scanner tk' = None \<longleftrightarrow> tk_scanner tk = None"
    and "(arg_rounds args \<le> int (tk_round tk) \<and> tk_phase tk' = Finished)
      \<or> (int (tk_round tk) < arg_rounds args \<and> (\<exists>p. tk_phase tk' = Waiting p \<and> (tk_scanner tk = None \<longrightarrow> prefix (tk_history tk) p)))"
  using assms by (auto simp: next_round_def bind_result_Inr_iff case_prod_beta split: if_splits option.splits)

lemma resume_fields:
  "bs_permits (resume i r st) = bs_permits st" "bs_results (resume i r st) = bs_results st" "bs_posts (resume i r st) = bs_posts st"
  "bs_failed st = None \<Longrightarrow> bs_failed (resume i r st) = (case r of Inl e \<Rightarrow> Some e | Inr _ \<Rightarrow> None)"
  "bs_tasks (resume i r st) = (case r of Inl e \<Rightarrow> bs_tasks st | Inr (tk, _) \<Rightarrow> (bs_tasks st)[i := tk])"
  by (auto simp: resume_def split: sum.splits prod.splits)

lemma resume_work:
  assumes "i < length (bs_tasks st)" "bs_failed st = None"
    and "\<And>tk' g'. next_round randbelow args qss tk g = Inr (tk', g') \<Longrightarrow> steps_left args tk' < steps_left args (bs_tasks st ! i)"
  shows "bench_work args (resume i (next_round randbelow args qss tk g) st) < bench_work args st"
proof (cases "next_round randbelow args qss tk g")
  case (Inr x)
  obtain tk' g' where x: "x = (tk', g')" by (cases x)
  from assms(3) [OF Inr [unfolded x]] weigh_update [OF assms(1), of "steps_left args" tk'] Inr show ?thesis
    by (auto simp: bench_work_def x resume_fields assms(2))
qed (simp add: bench_work_def resume_def assms(2))

text \<open>The stretch after a reply enters the next round of a task whose round is counted.\<close>

lemma finish_round_resume:
  obtains tk1 g st1 where "finish_round randbelow args qss i p m st = resume i (next_round randbelow args qss tk1 g) st1"
    "tk_round tk1 = tk_round (bs_tasks st ! i) + 1" "tk_index tk1 = tk_index (bs_tasks st ! i)"
    "tk_scanner tk1 = tk_scanner (bs_tasks st ! i)" "tk_scanner (bs_tasks st ! i) = None \<longrightarrow> prefix p (tk_history tk1)"
    "bs_tasks st1 = bs_tasks st" "bs_failed st1 = bs_failed st" "bs_permits st1 = bs_permits st + 1" "bs_posts st1 = bs_posts st"
    "bs_results st1 = bs_results st @ (if tk_scanner (bs_tasks st ! i) = None then [m] else [])"
proof (cases "tk_scanner (bs_tasks st ! i)")
  case None
  obtain t g where t: "make_text randbelow (arg_max_tokens args) (bs_rng st) = (t, g)" by fastforce
  let ?tk = "(bs_tasks st ! i)\<lparr>tk_history := p @ [32] @ t, tk_round := tk_round (bs_tasks st ! i) + 1\<rparr>"
  show thesis
    by (rule that [of ?tk g "st\<lparr>bs_permits := bs_permits st + 1, bs_results := bs_results st @ [m]\<rparr>"])
      (use None t in \<open>simp_all add: finish_round_def Let_def\<close>)
next
  case (Some sg)
  show thesis
    by (rule that [of "(bs_tasks st ! i)\<lparr>tk_round := tk_round (bs_tasks st ! i) + 1\<rparr>" "bs_rng st" "st\<lparr>bs_permits := bs_permits st + 1\<rparr>"])
      (use Some in \<open>simp_all add: finish_round_def Let_def\<close>)
qed

lemma bench_step_work:
  "bench_step randbelow args qss st st' \<Longrightarrow> bench_work args st' < bench_work args st"
proof (induction rule: bench_step.induct)
  case (enter st i)
  show ?case
    by (rule resume_work [OF enter(2,1)]) (use enter(3) in \<open>auto dest!: next_round_shape simp: steps_left_def Let_def\<close>)
next
  case (acquire st i p)
  then show ?case
    using weigh_update [OF acquire(2), of "steps_left args" "(bs_tasks st ! i)\<lparr>tk_phase := Running p\<rparr>"]
    by (simp add: bench_work_def acquire_permit_def steps_left_def Let_def)
next
  case (reply st i p start r m)
  obtain tk1 g st1 where f: "finish_round randbelow args qss i p m st = resume i (next_round randbelow args qss tk1 g) st1"
      "tk_round tk1 = tk_round (bs_tasks st ! i) + 1" "bs_tasks st1 = bs_tasks st" "bs_failed st1 = bs_failed st"
    by (rule finish_round_resume)
  have "steps_left args tk' < steps_left args (bs_tasks st1 ! i)" if "next_round randbelow args qss tk1 g = Inr (tk', g')" for tk' g'
    using next_round_shape [OF that] f(2,3) reply(3) by (auto simp: steps_left_def Let_def)
  then have "bench_work args (finish_round randbelow args qss i p m st) < bench_work args st1"
    unfolding f(1) by (intro resume_work) (use reply(1,2) f(3,4) in auto)
  moreover have "bench_work args st1 = bench_work args st" by (simp add: bench_work_def f(3,4))
  ultimately show ?case by simp
next
  case (abort st i p start r e)
  then show ?case by (simp add: bench_work_def)
qed

lemma bench_steps_bounded:
  "(bench_step randbelow args qss ^^ n) st st' \<Longrightarrow> n + bench_work args st' \<le> bench_work args st"
proof (induction n arbitrary: st')
  case (Suc n)
  then obtain st1 where "(bench_step randbelow args qss ^^ n) st st1" "bench_step randbelow args qss st1 st'" by auto
  with Suc.IH bench_step_work show ?case by fastforce
qed simp

section \<open>Invariant\<close>

definition holds_permit :: "'g task \<Rightarrow> nat" where
  "holds_permit tk = (case tk_phase tk of Running _ \<Rightarrow> 1 | _ \<Rightarrow> 0)"

definition rounds_counted :: "'g task \<Rightarrow> nat" where
  "rounds_counted tk = (if tk_scanner tk = None then tk_round tk else 0)"

text \<open>What a task has sent, and what its next request builds on.\<close>

definition sent_by :: "nat \<Rightarrow> (nat \<times> pystr) list \<Rightarrow> pystr list" where
  "sent_by i posts = map snd (filter (\<lambda>x. fst x = i) posts)"

definition session_ok :: "pystr \<Rightarrow> pystr list \<Rightarrow> 'g task \<Rightarrow> bool" where
  "session_ok text0 sent tk \<longleftrightarrow> prefix text0 (tk_history tk) \<and> sorted_wrt prefix sent \<and> (\<forall>q \<in> set sent. prefix text0 q)
     \<and> (case tk_phase tk of
          Waiting p \<Rightarrow> prefix (tk_history tk) p \<and> (\<forall>q \<in> set sent. prefix q (tk_history tk))
        | Running p \<Rightarrow> prefix (tk_history tk) p \<and> (\<forall>q \<in> set sent. prefix q p)
        | _ \<Rightarrow> \<forall>q \<in> set sent. prefix q (tk_history tk))"

definition rounds_ok :: "bench_args \<Rightarrow> 'g task \<Rightarrow> bool" where
  "rounds_ok args tk \<longleftrightarrow>
     (case tk_phase tk of
        Fresh \<Rightarrow> tk_round tk = 0
      | Waiting _ \<Rightarrow> int (tk_round tk) < arg_rounds args
      | Running _ \<Rightarrow> int (tk_round tk) < arg_rounds args
      | Finished \<Rightarrow> tk_round tk = nat (arg_rounds args))"

definition task_ok :: "bench_args \<Rightarrow> pystr list \<Rightarrow> (nat \<times> pystr) list \<Rightarrow> nat \<Rightarrow> 'g task \<Rightarrow> bool" where
  "task_ok args texts posts i tk \<longleftrightarrow> rounds_ok args tk \<and> length (sent_by i posts) = tk_round tk + holds_permit tk
     \<and> (tk_scanner tk = None \<longleftrightarrow> i < nat (arg_sessions args))
     \<and> (i < nat (arg_sessions args) \<longrightarrow> tk_index tk = i \<and> session_ok (texts ! i) (sent_by i posts) tk)"

definition bench_inv :: "bench_args \<Rightarrow> pystr list \<Rightarrow> 'g bench_state \<Rightarrow> bool" where
  "bench_inv args texts st \<longleftrightarrow>
     length (bs_tasks st) = nat (arg_sessions args) + nat (arg_scan_sessions args)
     \<and> (\<forall>i < length (bs_tasks st). task_ok args texts (bs_posts st) i (bs_tasks st ! i))
     \<and> weigh holds_permit (bs_tasks st) + bs_permits st = nat (arg_concurrency args)
     \<and> length (bs_results st) = weigh rounds_counted (bs_tasks st)"

lemma weigh_append [simp]: "weigh f (xs @ ys) = weigh f xs + weigh f ys"
  by (simp add: weigh_def)

lemma weigh_const: "(\<And>t. t \<in> set ts \<Longrightarrow> f t = k) \<Longrightarrow> weigh f ts = length ts * k"
  by (induction ts) (auto simp: weigh_def)

lemma bench_init_inv: "bench_inv args texts (bench_init seed args texts g)"
proof -
  let ?st = "bench_init seed args texts g"
  have t: "task_ok args texts (bs_posts ?st) i (bs_tasks ?st ! i)" if "i < length (bs_tasks ?st)" for i
    using that by (auto simp: bench_init_def nth_append task_ok_def rounds_ok_def session_ok_def sent_by_def holds_permit_def
        session_task_def scanner_task_def)
  have "weigh holds_permit (bs_tasks ?st) = 0" "weigh rounds_counted (bs_tasks ?st) = 0"
    by (auto simp: bench_init_def weigh_def holds_permit_def rounds_counted_def session_task_def scanner_task_def)
  with t show ?thesis by (simp add: bench_inv_def) (simp add: bench_init_def)
qed

lemma bench_invD:
  assumes "bench_inv args texts st" "i < length (bs_tasks st)"
  shows "task_ok args texts (bs_posts st) i (bs_tasks st ! i)"
  using assms by (simp add: bench_inv_def)

lemma inv_update:
  assumes "bench_inv args texts st" "i < length (bs_tasks st)" "bs_tasks st' = (bs_tasks st)[i := tk]"
    and "task_ok args texts (bs_posts st') i tk" "\<And>j. j \<noteq> i \<Longrightarrow> sent_by j (bs_posts st') = sent_by j (bs_posts st)"
    and "holds_permit tk + bs_permits st' = holds_permit (bs_tasks st ! i) + bs_permits st"
    and "length (bs_results st') + rounds_counted (bs_tasks st ! i) = length (bs_results st) + rounds_counted tk"
  shows "bench_inv args texts st'"
proof -
  have "task_ok args texts (bs_posts st') j (bs_tasks st' ! j)" if "j < length (bs_tasks st')" for j
    using that assms(2-5) bench_invD [OF assms(1), of j] by (cases "j = i") (simp_all add: task_ok_def)
  moreover have "weigh holds_permit (bs_tasks st') + holds_permit (bs_tasks st ! i) = weigh holds_permit (bs_tasks st) + holds_permit tk"
    "weigh rounds_counted (bs_tasks st') + rounds_counted (bs_tasks st ! i) = weigh rounds_counted (bs_tasks st) + rounds_counted tk"
    using weigh_update [OF assms(2)] by (simp_all add: assms(3))
  ultimately show ?thesis using assms(1,6,7) by (simp add: bench_inv_def assms(3))
qed

lemma next_round_ok:
  assumes "next_round randbelow args qss tk g = Inr (tk', g')" "tk_round tk \<le> nat (arg_rounds args)"
    and "tk_scanner tk = None \<longleftrightarrow> i < nat (arg_sessions args)" "length (sent_by i posts) = tk_round tk"
    and "i < nat (arg_sessions args) \<Longrightarrow> tk_index tk = i \<and> prefix (texts ! i) (tk_history tk)
      \<and> sorted_wrt prefix (sent_by i posts) \<and> (\<forall>q \<in> set (sent_by i posts). prefix (texts ! i) q) \<and> (\<forall>q \<in> set (sent_by i posts). prefix q (tk_history tk))"
  shows "task_ok args texts posts i tk'" "holds_permit tk' = 0" "rounds_counted tk' = rounds_counted tk"
proof -
  note s = next_round_shape [OF assms(1)]
  show "rounds_counted tk' = rounds_counted tk" using s(2,4) by (simp add: rounds_counted_def)
  show "holds_permit tk' = 0" using s(5) by (auto simp: holds_permit_def)
  show "task_ok args texts posts i tk'"
    using s assms(2-5) by (auto simp: task_ok_def rounds_ok_def session_ok_def holds_permit_def)
qed

lemma task_okD:
  assumes "task_ok args texts posts i tk"
  shows "rounds_ok args tk" "tk_scanner tk = None \<longleftrightarrow> i < nat (arg_sessions args)"
    and "i < nat (arg_sessions args) \<Longrightarrow> tk_index tk = i" "i < nat (arg_sessions args) \<Longrightarrow> session_ok (texts ! i) (sent_by i posts) tk"
    and "length (sent_by i posts) = tk_round tk + holds_permit tk"
  using assms by (simp_all add: task_ok_def)

lemma sent_by_snoc: "sent_by j (posts @ [(i, p)]) = sent_by j posts @ (if j = i then [p] else [])"
  by (simp add: sent_by_def)

lemma bench_step_inv:
  assumes "bench_step randbelow args qss st st'" "bench_inv args texts st" "bs_failed st' = None"
  shows "bench_inv args texts st'"
  using assms
proof (induction rule: bench_step.induct)
  case (enter st i)
  note t = task_okD [OF bench_invD [OF enter(4,2)]]
  obtain tk g where n: "next_round randbelow args qss (bs_tasks st ! i) (bs_rng st) = Inr (tk, g)"
    using enter(1,5) by (auto simp: resume_def split: sum.splits)
  have r: "tk_round (bs_tasks st ! i) \<le> nat (arg_rounds args)" using t(1) enter(3) by (simp add: rounds_ok_def)
  have c: "tk_index (bs_tasks st ! i) = i \<and> prefix (texts ! i) (tk_history (bs_tasks st ! i))
      \<and> sorted_wrt prefix (sent_by i (bs_posts st)) \<and> (\<forall>q \<in> set (sent_by i (bs_posts st)). prefix (texts ! i) q) \<and> (\<forall>q \<in> set (sent_by i (bs_posts st)). prefix q (tk_history (bs_tasks st ! i)))"
    if "i < nat (arg_sessions args)"
    using t(3,4) [OF that] enter(3) by (simp add: session_ok_def)
  have l: "length (sent_by i (bs_posts st)) = tk_round (bs_tasks st ! i)" using t(5) enter(3) by (simp add: holds_permit_def)
  note ok = next_round_ok [OF n r t(2) l c]
  show ?case
    by (rule inv_update [OF enter(4,2), of _ tk])
      (use ok enter(3) in \<open>simp_all add: n resume_fields holds_permit_def [of "bs_tasks st ! i"]\<close>)
next
  case (acquire st i p)
  note t = task_okD [OF bench_invD [OF acquire(5,2)]]
  let ?tk = "(bs_tasks st ! i)\<lparr>tk_phase := Running p\<rparr>"
  have "task_ok args texts (bs_posts st @ [(i, p)]) i ?tk"
    using t acquire(3) by (auto simp: task_ok_def rounds_ok_def session_ok_def sent_by_snoc sorted_wrt_append holds_permit_def intro: prefix_order.trans)
  then show ?case
    by (intro inv_update [OF acquire(5,2), of _ ?tk])
      (use acquire(3,4) in \<open>simp_all add: acquire_permit_def sent_by_snoc holds_permit_def rounds_counted_def\<close>)
next
  case (reply st i p start r m)
  note t = task_okD [OF bench_invD [OF reply(5,2)]]
  obtain tk1 g st1 where f: "finish_round randbelow args qss i p m st = resume i (next_round randbelow args qss tk1 g) st1"
      "tk_round tk1 = tk_round (bs_tasks st ! i) + 1" "tk_index tk1 = tk_index (bs_tasks st ! i)"
      "tk_scanner tk1 = tk_scanner (bs_tasks st ! i)" "tk_scanner (bs_tasks st ! i) = None \<longrightarrow> prefix p (tk_history tk1)"
      "bs_tasks st1 = bs_tasks st" "bs_failed st1 = bs_failed st" "bs_permits st1 = bs_permits st + 1" "bs_posts st1 = bs_posts st"
      "bs_results st1 = bs_results st @ (if tk_scanner (bs_tasks st ! i) = None then [m] else [])"
    by (rule finish_round_resume)
  obtain tk g' where n: "next_round randbelow args qss tk1 g = Inr (tk, g')"
    using reply(1,6) f(1,7) by (auto simp: resume_def split: sum.splits)
  have r: "tk_round tk1 \<le> nat (arg_rounds args)" using t(1) reply(3) f(2) by (simp add: rounds_ok_def)
  have c: "tk_index tk1 = i \<and> prefix (texts ! i) (tk_history tk1)
      \<and> sorted_wrt prefix (sent_by i (bs_posts st)) \<and> (\<forall>q \<in> set (sent_by i (bs_posts st)). prefix (texts ! i) q) \<and> (\<forall>q \<in> set (sent_by i (bs_posts st)). prefix q (tk_history tk1))"
    if "i < nat (arg_sessions args)"
    using t(2) t(3,4) [OF that] reply(3) f(3,5) that by (auto simp: session_ok_def intro: prefix_order.trans)
  have l: "length (sent_by i (bs_posts st)) = tk_round tk1" using t(5) reply(3) f(2) by (simp add: holds_permit_def)
  note ok = next_round_ok [OF n r t(2) [folded f(4)] l c]
  show ?case
    by (rule inv_update [OF reply(5,2), of _ tk])
      (use ok reply(3) f(2,4) in \<open>simp_all add: f(1,6-10) n resume_fields holds_permit_def [of "bs_tasks st ! i"] rounds_counted_def\<close>)
qed simp


lemma bench_step_failed: "bench_step randbelow args qss st st' \<Longrightarrow> bs_failed st = None"
  by (induction rule: bench_step.induct)

text \<open>A step that fails leaves the tasks and what they sent.\<close>

lemma bench_step_fails:
  assumes "bench_step randbelow args qss st st'" "bs_failed st' \<noteq> None"
  shows "bs_tasks st' = bs_tasks st" "bs_posts st' = bs_posts st"
  using assms
proof (induction rule: bench_step.induct)
  case (reply st i p start r m)
  obtain tk1 g st1 where f: "finish_round randbelow args qss i p m st = resume i (next_round randbelow args qss tk1 g) st1"
      "bs_tasks st1 = bs_tasks st" "bs_failed st1 = bs_failed st" "bs_posts st1 = bs_posts st"
    by (rule finish_round_resume)
  { case 1 with f reply(1) show ?case by (auto simp: resume_fields split: sum.splits) }
  { case 2 with f reply(1) show ?case by (auto simp: resume_fields split: sum.splits) }
qed (auto simp: resume_fields acquire_permit_def split: sum.splits)

abbreviation bench_reach :: "'g draw \<Rightarrow> bench_args \<Rightarrow> questions \<Rightarrow> 'g bench_state \<Rightarrow> 'g bench_state \<Rightarrow> bool" where
  "bench_reach randbelow args qss \<equiv> (bench_step randbelow args qss)\<^sup>*\<^sup>*"

lemma bench_reach_inv:
  assumes "bench_reach randbelow args qss st st'" "bench_inv args texts st" "bs_failed st' = None"
  shows "bench_inv args texts st'"
  using assms
proof (induction rule: rtranclp_induct)
  case (step st1 st2)
  then show ?case using bench_step_failed [OF step(2)] bench_step_inv [OF step(2)] by blast
qed

text \<open>A failed run kept the tasks and the requests of a state in which the invariant holds.\<close>

lemma bench_reach_kept:
  assumes "bench_reach randbelow args qss st st'" "bench_inv args texts st"
  obtains st1 where "bench_inv args texts st1" "bs_tasks st' = bs_tasks st1" "bs_posts st' = bs_posts st1"
  using assms(1)
proof (cases rule: rtranclp.cases)
  case rtrancl_refl
  with assms(2) that show thesis by blast
next
  case (rtrancl_into_rtrancl st0)
  then have "bench_inv args texts st0" using bench_reach_inv [OF _ assms(2)] bench_step_failed by blast
  with rtrancl_into_rtrancl that bench_step_inv bench_step_fails show thesis by (cases "bs_failed st'") (blast, fastforce)
qed

lemma bench_start_inv:
  assumes "bench_start randbelow seed read_file args = Inr (st, texts, qss)"
  shows "bench_inv args texts st" "\<exists>g. st = bench_init seed args texts g" "0 \<le> arg_concurrency args"
  using assms by (auto simp: bench_start_def bind_result_Inr_iff bench_init_inv split: if_splits)

lemma bench_init_work:
  "bench_work args (bench_init seed args texts g) =
     Suc ((nat (arg_sessions args) + nat (arg_scan_sessions args)) * (2 * nat (arg_rounds args) + 3))"
proof -
  let ?ts = "bs_tasks (bench_init seed args texts g)"
  have "weigh (steps_left args) ?ts = length ?ts * (2 * nat (arg_rounds args) + 3)"
    by (rule weigh_const) (auto simp: bench_init_def session_task_def scanner_task_def steps_left_def)
  then show ?thesis by (simp add: bench_work_def) (simp add: bench_init_def)
qed

lemma weigh_zero: "weigh f ts = 0 \<longleftrightarrow> (\<forall>t \<in> set ts. f t = 0)"
  by (induction ts) (auto simp: weigh_def)

lemma bench_inv_free:
  assumes "bench_inv args texts st" "\<forall>tk \<in> set (bs_tasks st). holds_permit tk = 0"
  shows "bs_permits st = nat (arg_concurrency args)"
proof -
  have "weigh holds_permit (bs_tasks st) = 0" using assms(2) unfolding weigh_zero .
  with assms(1) show ?thesis by (simp add: bench_inv_def)
qed

text \<open>As long as nothing failed and a permit exists, an unfinished run can go on.\<close>

lemma bench_progress:
  assumes "bench_inv args texts st" "bs_failed st = None" "0 < arg_concurrency args" "\<nexists>st'. bench_step randbelow args qss st st'"
  shows "\<forall>tk \<in> set (bs_tasks st). tk_phase tk = Finished"
proof -
  have c: "tk_phase (bs_tasks st ! i) = Finished \<or> (\<exists>p. tk_phase (bs_tasks st ! i) = Waiting p \<and> bs_permits st = 0)"
    if "i < length (bs_tasks st)" for i
  proof (cases "tk_phase (bs_tasks st ! i)")
    case Fresh
    then show ?thesis using assms(4) bench_step.enter [OF assms(2) that] by blast
  next
    case (Waiting p)
    then show ?thesis using assms(4) bench_step.acquire [OF assms(2) that Waiting] by blast
  next
    case (Running p)
    have "one_request 0 \<lparr>hr_status_ok = False, hr_lines = [], hr_end = 0\<rparr> = Inl ClientError" by (simp add: one_request_def)
    from bench_step.abort [OF assms(2) that Running this] assms(4) show ?thesis by blast
  qed simp
  then have "\<forall>tk \<in> set (bs_tasks st). holds_permit tk = 0" by (fastforce simp: in_set_conv_nth holds_permit_def split: phase.splits)
  then have "bs_permits st \<noteq> 0" using bench_inv_free [OF assms(1)] assms(3) by simp
  with c show ?thesis by (auto simp: in_set_conv_nth)
qed

lemma bench_finished:
  assumes "bench_inv args texts st" "\<forall>tk \<in> set (bs_tasks st). tk_phase tk = Finished"
  shows "length (bs_results st) = nat (arg_sessions args) * nat (arg_rounds args)" "bs_permits st = nat (arg_concurrency args)"
    and "\<And>i. i < length (bs_tasks st) \<Longrightarrow> length (sent_by i (bs_posts st)) = nat (arg_rounds args)"
proof -
  have f: "tk_phase (bs_tasks st ! i) = Finished" if "i < length (bs_tasks st)" for i using assms(2) that by simp
  have r: "tk_round (bs_tasks st ! i) = nat (arg_rounds args)" "holds_permit (bs_tasks st ! i) = 0" if "i < length (bs_tasks st)" for i
    using task_okD(1) [OF bench_invD [OF assms(1) that]] f [OF that] by (simp_all add: rounds_ok_def holds_permit_def)
  show "length (sent_by i (bs_posts st)) = nat (arg_rounds args)" if "i < length (bs_tasks st)" for i
    using task_okD(5) [OF bench_invD [OF assms(1) that]] r [OF that] by simp
  have "\<forall>tk \<in> set (bs_tasks st). holds_permit tk = 0" using assms(2) by (simp add: holds_permit_def)
  then show "bs_permits st = nat (arg_concurrency args)" by (rule bench_inv_free [OF assms(1)])
  let ?s = "nat (arg_sessions args)"
  have l: "length (bs_tasks st) = ?s + nat (arg_scan_sessions args)" using assms(1) by (simp add: bench_inv_def)
  have c: "rounds_counted (bs_tasks st ! i) = (if i < ?s then nat (arg_rounds args) else 0)" if "i < length (bs_tasks st)" for i
    using task_okD(2) [OF bench_invD [OF assms(1) that]] r [OF that] by (simp add: rounds_counted_def)
  have "weigh rounds_counted (take ?s (bs_tasks st)) = length (take ?s (bs_tasks st)) * nat (arg_rounds args)"
    by (rule weigh_const) (use c l in \<open>auto simp: in_set_conv_nth\<close>)
  moreover have "weigh rounds_counted (drop ?s (bs_tasks st)) = 0"
    unfolding weigh_zero by (use c l in \<open>auto simp: in_set_conv_nth\<close>)
  moreover have "weigh rounds_counted (bs_tasks st) = weigh rounds_counted (take ?s (bs_tasks st)) + weigh rounds_counted (drop ?s (bs_tasks st))"
    by (metis append_take_drop_id weigh_append)
  ultimately show "length (bs_results st) = ?s * nat (arg_rounds args)" using assms(1) l by (simp add: bench_inv_def)
qed

lemma report_exists:
  assumes "results \<noteq> []" "wall \<noteq> 0"
  shows "\<exists>r. bench_report_of results wall = Inr r \<and> br_requests r = length results"
proof -
  define ts where "ts = sort (map fst results)"
  have "ts \<noteq> []" "sort ts \<noteq> []" using assms(1) by (metis length_0_conv length_map length_sort ts_def)+
  then obtain m a where "median ts = Inr m" "mean ts = Inr a" by (fastforce simp: median_def mean_def Let_def)
  with assms(2) show ?thesis unfolding bench_report_of_def ts_def [symmetric] by (simp add: Let_def)
qed

lemma synthetic_start:
  assumes "arg_sharegpt args = []" "0 \<le> arg_concurrency args"
  shows "\<exists>texts g. bench_start randbelow seed read_file args = Inr (bench_init seed args texts g, texts, None)"
  using assms by (intro exI) (simp add: bench_start_def bench_sessions_def case_prod_beta Let_def)

text \<open>
  Two configurations the code does not refuse. Without permits no request is ever sent, so the run waits for ever;
  a conversation of white space passes the length filter and has no question, which raises at its first round.
\<close>

lemma no_permit_no_request:
  assumes "bench_start randbelow seed read_file args = Inr (st, texts, qss)" "bench_reach randbelow args qss st st'"
    and "arg_concurrency args = 0"
  shows "bs_posts st' = []"
  using assms(2)
proof (induction rule: rtranclp_induct)
  case base
  then show ?case using bench_start_inv(2) [OF assms(1)] by (auto simp: bench_init_def)
next
  case (step st1 st2)
  have I: "bench_inv args texts st1"
    by (rule bench_reach_inv [OF step(1) bench_start_inv(1) [OF assms(1)] bench_step_failed [OF step(2)]])
  then have "weigh holds_permit (bs_tasks st1) = 0" and p: "bs_permits st1 = 0" using assms(3) by (simp_all add: bench_inv_def)
  then have "holds_permit (bs_tasks st1 ! i) = 0" if "i < length (bs_tasks st1)" for i using that by (simp add: weigh_zero)
  then have idle: "tk_phase (bs_tasks st1 ! i) \<noteq> Running q" if "i < length (bs_tasks st1)" for i q
    using that by (fastforce simp: holds_permit_def)
  from step(2) p idle step.IH show ?case
    by (cases rule: bench_step.cases) (auto simp: resume_fields)
qed

lemma blank_conversation_raises:
  assumes "\<forall>t \<in> set ts. strip t = []" "session_of n (map JStr ts) = Inr (p, qs)" "qss ! i = qs"
  shows "question_of randbelow (Some qss) i r g = Inl ZeroDivisionError"
proof -
  have "map_result json_str (map JStr ts) = Inr ts" for ts by (induction ts) simp_all
  then have "qs = []" using assms(1,2) by (auto simp: session_of_def filter_empty_conv)
  then show ?thesis by (simp add: question_of_def assms(3))
qed

section \<open>Properties\<close>

text \<open>A benchmark run ends: however the event loop interleaves the sessions and scanners and whatever the
  server replies, no run takes more than \<open>2 * rounds + 3\<close> stretches per task and one more.\<close>

lemma bench_terminates:
  assumes "bench_start randbelow seed read_file args = Inr (st, texts, qss)" "(bench_step randbelow args qss ^^ n) st st'"
  shows "n \<le> (nat (arg_sessions args) + nat (arg_scan_sessions args)) * (2 * nat (arg_rounds args) + 3) + 1"
  using bench_steps_bounded [OF assms(2)] bench_start_inv(2) [OF assms(1)] bench_init_work [of args seed texts] by auto

definition small_args :: bench_args where
  "small_args = default_args\<lparr>arg_sessions := 1, arg_rounds := 1, arg_concurrency := 1\<rparr>"

lemma small_start:
  obtains texts g where "bench_start last_draw (\<lambda>_. ()) (\<lambda>_. Inl FileNotFoundError) small_args
      = Inr (bench_init (\<lambda>_. ()) small_args texts g, texts, None)"
  using synthetic_start [of small_args last_draw "\<lambda>_. ()" "\<lambda>_. Inl FileNotFoundError"] by (auto simp: small_args_def default_args_def)

text \<open>C3. A run is never stuck: in a state reached with at least one permit from which no task can move, either a
  request or a question raised, or every session and scanner has sent exactly its \<open>rounds\<close> requests, all
  permits are back, and the report counts one measurement per round of every session and none of a
  scanner.\<close>

theorem bench_completes:
  assumes "bench_start randbelow seed read_file args = Inr (st, texts, qss)" "0 < arg_concurrency args"
    and "bench_reach randbelow args qss st st'" "\<nexists>st''. bench_step randbelow args qss st' st''"
    and "0 < arg_sessions args" "0 < arg_rounds args" "wall \<noteq> 0"
  shows "(\<exists>e. bs_failed st' = Some e \<and> bench_outcome args st' wall = Inl e)
    \<or> ((\<forall>i < nat (arg_sessions args) + nat (arg_scan_sessions args). length (sent_by i (bs_posts st')) = nat (arg_rounds args))
       \<and> bs_permits st' = nat (arg_concurrency args)
       \<and> (\<exists>r. bench_outcome args st' wall = Inr (arg_tag args, r) \<and> br_requests r = nat (arg_sessions args) * nat (arg_rounds args)))"
proof (cases "bs_failed st'")
  case None
  note I = bench_reach_inv [OF assms(3) bench_start_inv(1) [OF assms(1)] None]
  note F = bench_finished [OF I bench_progress [OF I None assms(2,4)]]
  have "bs_results st' \<noteq> []" using F(1) assms(5,6) by auto
  from report_exists [OF this assms(7)] F show ?thesis using I None by (auto simp: bench_outcome_def bench_inv_def)
qed (simp add: bench_outcome_def)

text \<open>A run of the small benchmark: the session enters, sends its request and gets its reply.\<close>

definition small_reply :: http_reply where
  "small_reply = \<lparr>hr_status_ok = True, hr_lines = [], hr_end = 0\<rparr>"

lemma small_reply_read: "one_request 0 small_reply = Inr (fl 0, fl 0, 0)"
  by (simp add: one_request_def small_reply_def Let_def)

lemma small_run:
  "\<exists>st. bench_reach randbelow small_args None (bench_init seed small_args texts g) st \<and> bs_failed st = None
     \<and> map tk_phase (bs_tasks st) = [Finished]"
proof -
  define st0 where "st0 = bench_init seed small_args texts g"
  obtain q g1 where q: "make_text randbelow 32 g = (q, g1)" by (cases "make_text randbelow 32 g")
  obtain t g2 where t: "make_text randbelow 64 g1 = (t, g2)" by (cases "make_text randbelow 64 g1")
  define p where "p = texts ! 0 @ USER_TAG @ q"
  define st1 where "st1 = resume 0 (next_round randbelow small_args None (bs_tasks st0 ! 0) (bs_rng st0)) st0"
  define st2 where "st2 = acquire_permit 0 p st1"
  define st3 where "st3 = finish_round randbelow small_args None 0 p (fl 0, fl 0, 0) st2"
  note d = small_args_def default_args_def
  have s0: "st0 = \<lparr>bs_tasks = [session_task texts 0], bs_permits = 1, bs_results = [], bs_posts = [], bs_rng = g, bs_failed = None\<rparr>"
    by (simp add: st0_def bench_init_def d)
  have s1: "st1 = st0\<lparr>bs_tasks := [(session_task texts 0)\<lparr>tk_phase := Waiting p\<rparr>], bs_rng := g1\<rparr>"
    by (simp add: st1_def s0 resume_def next_round_def session_task_def d question_of_def q p_def)
  have s2: "st2 = st1\<lparr>bs_tasks := [(session_task texts 0)\<lparr>tk_phase := Running p\<rparr>], bs_permits := 0, bs_posts := [(0, p)]\<rparr>"
    by (simp add: st2_def s1 s0 acquire_permit_def)
  have s3: "map tk_phase (bs_tasks st3) = [Finished]" "bs_failed st3 = None"
    by (simp_all add: st3_def s2 s1 s0 finish_round_def resume_def next_round_def session_task_def d Let_def t)
  have e1: "bench_step randbelow small_args None st0 st1" unfolding st1_def by (rule bench_step.enter) (simp_all add: s0 session_task_def)
  have e2: "bench_step randbelow small_args None st1 st2" unfolding st2_def by (rule bench_step.acquire) (simp_all add: s1 s0)
  have e3: "bench_step randbelow small_args None st2 st3" unfolding st3_def
    by (rule bench_step.reply [OF _ _ _ small_reply_read]) (simp_all add: s2 s1 s0)
  let ?step = "bench_step randbelow small_args None"
  have "?step\<^sup>*\<^sup>* st0 st1" by (rule r_into_rtranclp [of ?step, OF e1])
  from rtranclp.rtrancl_into_rtrancl [of ?step, OF this e2] have "?step\<^sup>*\<^sup>* st0 st2" .
  from rtranclp.rtrancl_into_rtrancl [of ?step, OF this e3] have "?step\<^sup>*\<^sup>* st0 st3" .
  with s3 show ?thesis unfolding st0_def [symmetric] by (intro exI [of _ st3] conjI)
qed

lemma bench_step_finished:
  assumes "\<forall>tk \<in> set (bs_tasks st). tk_phase tk = Finished"
  shows "\<not> bench_step randbelow args qss st st'"
  using assms by (auto elim!: bench_step.cases)

theorem bench_completes_witness:
  "\<exists>st texts st' r. bench_start last_draw (\<lambda>_. ()) (\<lambda>_. Inl FileNotFoundError) small_args = Inr (st, texts, None)
     \<and> bench_reach last_draw small_args None st st' \<and> bench_outcome small_args st' 1 = Inr (''run'', r) \<and> br_requests r = 1"
proof -
  obtain texts g where s: "bench_start last_draw (\<lambda>_. ()) (\<lambda>_. Inl FileNotFoundError) small_args
      = Inr (bench_init (\<lambda>_. ()) small_args texts g, texts, None)" by (rule small_start)
  obtain st where st: "bench_reach last_draw small_args None (bench_init (\<lambda>_. ()) small_args texts g) st" "bs_failed st = None"
      "map tk_phase (bs_tasks st) = [Finished]" using small_run [of last_draw "\<lambda>_. ()" texts g] by (elim exE conjE) (rule that)
  have "\<forall>tk \<in> set (bs_tasks st). tk_phase tk = Finished" using st(3) by auto
  then have stuck: "\<nexists>st''. bench_step last_draw small_args None st st''" using bench_step_finished by blast
  have a: "0 < arg_concurrency small_args" "0 < arg_sessions small_args" "0 < arg_rounds small_args"
      "nat (arg_sessions small_args) * nat (arg_rounds small_args) = 1" "arg_tag small_args = ''run''"
    by (simp_all add: small_args_def default_args_def)
  obtain r where "bench_outcome small_args st 1 = Inr (''run'', r)" "br_requests r = 1"
    using bench_completes [OF s a(1) st(1) stuck a(2,3), of 1] st(2) unfolding a(4,5) by auto
  with s st(1) show ?thesis by blast
qed

text \<open>C22. The semaphore bounds the load on the server: at any moment, however the event loop interleaves the tasks
  and also when a request has failed, at most \<open>concurrency\<close> sessions and scanners have a request under way.\<close>

theorem bench_concurrency_bounded:
  assumes "bench_start randbelow seed read_file args = Inr (st, texts, qss)" "bench_reach randbelow args qss st st'"
  shows "int (length (filter (\<lambda>tk. \<exists>p. tk_phase tk = Running p) (bs_tasks st'))) \<le> arg_concurrency args"
proof -
  obtain st1 where "bench_inv args texts st1" "bs_tasks st' = bs_tasks st1"
    using bench_reach_kept [OF assms(2) bench_start_inv(1) [OF assms(1)]] by blast
  then have "weigh holds_permit (bs_tasks st') \<le> nat (arg_concurrency args)" by (simp add: bench_inv_def)
  moreover have "weigh holds_permit ts = length (filter (\<lambda>tk. \<exists>p. tk_phase tk = Running p) ts)" for ts :: "'a task list"
    by (induction ts) (auto simp: weigh_def holds_permit_def split: phase.splits)
  ultimately show ?thesis using bench_start_inv(3) [OF assms(1)] by simp
qed

theorem bench_concurrency_bounded_witness:
  "\<exists>st texts st'. bench_start last_draw (\<lambda>_. ()) (\<lambda>_. Inl FileNotFoundError) small_args = Inr (st, texts, None)
     \<and> bench_reach last_draw small_args None st st'
     \<and> length (filter (\<lambda>tk. \<exists>p. tk_phase tk = Running p) (bs_tasks st')) \<le> 1"
proof -
  obtain texts g where s: "bench_start last_draw (\<lambda>_. ()) (\<lambda>_. Inl FileNotFoundError) small_args
      = Inr (bench_init (\<lambda>_. ()) small_args texts g, texts, None)" by (rule small_start)
  obtain st where st: "bench_reach last_draw small_args None (bench_init (\<lambda>_. ()) small_args texts g) st" using small_run [of last_draw "\<lambda>_. ()" texts g] by (elim exE conjE) (rule that)
  have "arg_concurrency small_args = 1" by (simp add: small_args_def)
  with bench_concurrency_bounded [OF s st] s st show ?thesis by auto
qed

text \<open>C23. Every prompt of a session extends all its earlier ones and begins with the text of the session, whatever the
  interleaving with other sessions: this is the reuse of prefixes the benchmark is meant to produce. A
  session sends at most \<open>rounds\<close> requests.\<close>

theorem bench_prompts_extend:
  assumes "bench_start randbelow seed read_file args = Inr (st, texts, qss)" "bench_reach randbelow args qss st st'"
    and "i < nat (arg_sessions args)"
  shows "sorted_wrt prefix (sent_by i (bs_posts st')) \<and> (\<forall>p \<in> set (sent_by i (bs_posts st')). prefix (texts ! i) p)
    \<and> length (sent_by i (bs_posts st')) \<le> nat (arg_rounds args)"
proof -
  obtain st1 where I: "bench_inv args texts st1" "bs_tasks st' = bs_tasks st1" "bs_posts st' = bs_posts st1"
    by (rule bench_reach_kept [OF assms(2) bench_start_inv(1) [OF assms(1)]])
  have "i < length (bs_tasks st1)" using I(1) assms(3) by (simp add: bench_inv_def)
  note t = task_okD [OF bench_invD [OF I(1) this]]
  have "length (sent_by i (bs_posts st1)) \<le> nat (arg_rounds args)"
    using t(1,5) by (auto simp: rounds_ok_def holds_permit_def split: phase.splits)
  with t(4) [OF assms(3)] show ?thesis by (simp add: session_ok_def I(3))
qed

theorem bench_prompts_extend_witness:
  "\<exists>st texts st'. bench_start last_draw (\<lambda>_. ()) (\<lambda>_. Inl FileNotFoundError) small_args = Inr (st, texts, None)
     \<and> bench_reach last_draw small_args None st st' \<and> sorted_wrt prefix (sent_by 0 (bs_posts st'))"
proof -
  obtain texts g where s: "bench_start last_draw (\<lambda>_. ()) (\<lambda>_. Inl FileNotFoundError) small_args
      = Inr (bench_init (\<lambda>_. ()) small_args texts g, texts, None)" by (rule small_start)
  obtain st where st: "bench_reach last_draw small_args None (bench_init (\<lambda>_. ()) small_args texts g) st" using small_run [of last_draw "\<lambda>_. ()" texts g] by (elim exE conjE) (rule that)
  from bench_prompts_extend [OF s st, of 0] s st show ?thesis by (auto simp: small_args_def)
qed

end
