(* ===== verification/Cluster_Scheduler.thy ===== *)
theory Cluster_Scheduler
  imports Cpp_Store "HOL-Library.List_Lexorder" "HOL-Library.Char_ord"
begin

text \<open>
  The control plane \<^verbatim>\<open>src/scheduler/scheduler.cpp\<close>: the index from blocks to the nodes that hold them, routing,
  placement and failover, and its Python face in \<^verbatim>\<open>src/bindings/bindings.cpp\<close>. Every operation holds
  the mutex of a shard or of the scheduler and is one function. A \<^verbatim>\<open>std::set\<close> is a sorted list without
  duplicates, a \<^verbatim>\<open>std::map\<close> a sorted association list; the hash of a key is an argument.
\<close>

section \<open>The cross-node index\<close>

type_synonym CrossNodeIndex = "nat \<Rightarrow> BlockKey \<rightharpoonup> string list"

definition kShards :: nat where
  "kShards = 16"

definition ShardOf :: "(BlockKey \<Rightarrow> nat) \<Rightarrow> BlockKey \<Rightarrow> nat" where
  "ShardOf hash key = hash key mod kShards"

definition index_empty :: CrossNodeIndex where
  "index_empty = (\<lambda>_. Map.empty)"

definition Register :: "(BlockKey \<Rightarrow> nat) \<Rightarrow> BlockKey \<Rightarrow> string \<Rightarrow> CrossNodeIndex \<Rightarrow> CrossNodeIndex" where
  "Register hash key node idx =
     (let i = ShardOf hash key; old = (case idx i key of None \<Rightarrow> [] | Some ns \<Rightarrow> ns)
      in idx(i := (idx i)(key \<mapsto> insort_insert node old)))"

definition Unregister :: "(BlockKey \<Rightarrow> nat) \<Rightarrow> BlockKey \<Rightarrow> string \<Rightarrow> CrossNodeIndex \<Rightarrow> CrossNodeIndex" where
  "Unregister hash key node idx =
     (let i = ShardOf hash key
      in case idx i key of
           None \<Rightarrow> idx
         | Some ns \<Rightarrow>
             (let rest = remove1 node ns
              in idx(i := (idx i)(key := if rest = [] then None else Some rest))))"

definition Lookup :: "(BlockKey \<Rightarrow> nat) \<Rightarrow> BlockKey \<Rightarrow> CrossNodeIndex \<Rightarrow> string list" where
  "Lookup hash key idx = (case idx (ShardOf hash key) key of None \<Rightarrow> [] | Some ns \<Rightarrow> ns)"

section \<open>Decisions\<close>

record NodeState =
  ns_id :: string
  ns_reachable :: bool
  ns_occupancy_ratio :: pyfloat
  ns_high_water_ratio :: pyfloat

record RouteDecision =
  rd_node :: string
  rd_reuse_prefix :: bool
  rd_recompute :: bool

definition Overloaded :: "NodeState \<Rightarrow> bool" where
  "Overloaded node \<longleftrightarrow> ns_high_water_ratio node \<le> ns_occupancy_ratio node"

definition less_loaded :: "NodeState \<Rightarrow> NodeState \<Rightarrow> bool" where
  "less_loaded a b \<longleftrightarrow> ns_occupancy_ratio a < ns_occupancy_ratio b
     \<or> ns_occupancy_ratio a = ns_occupancy_ratio b \<and> ns_id a < ns_id b"

definition PickLeastLoaded :: "NodeState list \<Rightarrow> NodeState option" where
  "PickLeastLoaded nodes =
     foldl (\<lambda>best node. case best of None \<Rightarrow> Some node | Some b \<Rightarrow> if less_loaded node b then Some node else Some b) None nodes"

definition ChoosePlacementNode :: "NodeState list \<Rightarrow> string" where
  "ChoosePlacementNode nodes =
     (let reachable = filter ns_reachable nodes; below_water = filter (\<lambda>n. \<not> Overloaded n) reachable
      in case PickLeastLoaded (if below_water = [] then reachable else below_water) of
           None \<Rightarrow> [] | Some n \<Rightarrow> ns_id n)"

text \<open>\<^verbatim>\<open>coverage[node] += 1\<close>.\<close>

fun bump :: "string \<Rightarrow> (string \<times> nat) list \<Rightarrow> (string \<times> nat) list" where
  "bump n [] = [(n, 1)]"
| "bump n ((m, c) # rest) =
     (if n = m then (m, c + 1) # rest else if n < m then (n, 1) # (m, c) # rest else (m, c) # bump n rest)"

definition coverage :: "(BlockKey \<Rightarrow> nat) \<Rightarrow> CrossNodeIndex \<Rightarrow> BlockKey list \<Rightarrow> (string \<times> nat) list" where
  "coverage hash idx keys = foldl (\<lambda>cov key. foldl (\<lambda>cov n. bump n cov) cov (Lookup hash key idx)) [] keys"

definition reachable_in :: "NodeState list \<Rightarrow> string \<Rightarrow> bool" where
  "reachable_in nodes n = (case find (\<lambda>s. ns_id s = n) nodes of None \<Rightarrow> True | Some s \<Rightarrow> ns_reachable s)"

definition best_step :: "NodeState list \<Rightarrow> string option \<times> nat \<Rightarrow> string \<times> nat \<Rightarrow> string option \<times> nat" where
  "best_step nodes acc nc = (if reachable_in nodes (fst nc) \<and> snd acc < snd nc then (Some (fst nc), snd nc) else acc)"

definition Route :: "(BlockKey \<Rightarrow> nat) \<Rightarrow> bool \<Rightarrow> CrossNodeIndex \<Rightarrow> NodeState list \<Rightarrow> BlockKey list \<Rightarrow> RouteDecision" where
  "Route hash reuse_enabled idx cluster keys =
     (case (if reuse_enabled \<and> keys \<noteq> [] then fst (foldl (best_step cluster) (None, 0) (coverage hash idx keys)) else None) of
        Some n \<Rightarrow> \<lparr>rd_node = n, rd_reuse_prefix = True, rd_recompute = False\<rparr>
      | None \<Rightarrow> \<lparr>rd_node = ChoosePlacementNode cluster, rd_reuse_prefix = False, rd_recompute = False\<rparr>)"

definition ResolveOnFailure :: "(BlockKey \<Rightarrow> nat) \<Rightarrow> CrossNodeIndex \<Rightarrow> BlockKey \<Rightarrow> NodeState list \<Rightarrow> RouteDecision" where
  "ResolveOnFailure hash idx key nodes =
     (let found = map (\<lambda>holder. find (\<lambda>s. ns_id s = holder) nodes) (Lookup hash key idx);
          holders = map the (filter (\<lambda>s. case s of None \<Rightarrow> False | Some n \<Rightarrow> ns_reachable n) found)
      in case PickLeastLoaded holders of
           None \<Rightarrow> \<lparr>rd_node = [], rd_reuse_prefix = False, rd_recompute = True\<rparr>
         | Some n \<Rightarrow> \<lparr>rd_node = ns_id n, rd_reuse_prefix = True, rd_recompute = False\<rparr>)"

section \<open>The Python face\<close>

record PyScheduler =
  ps_reuse_enabled :: bool
  ps_index :: CrossNodeIndex
  ps_cluster :: "NodeState list"

definition PyScheduler_init :: "bool \<Rightarrow> PyScheduler" where
  "PyScheduler_init reuse_enabled = \<lparr>ps_reuse_enabled = reuse_enabled, ps_index = index_empty, ps_cluster = []\<rparr>"

definition ps_register_block :: "(BlockKey \<Rightarrow> nat) \<Rightarrow> BlockKey \<Rightarrow> string \<Rightarrow> PyScheduler \<Rightarrow> PyScheduler" where
  "ps_register_block hash key node s = s\<lparr>ps_index := Register hash key node (ps_index s)\<rparr>"

definition ps_route :: "(BlockKey \<Rightarrow> nat) \<Rightarrow> BlockKey list \<Rightarrow> PyScheduler \<Rightarrow> string" where
  "ps_route hash keys s = rd_node (Route hash (ps_reuse_enabled s) (ps_index s) (ps_cluster s) keys)"

definition ps_update_cluster :: "(string \<times> bool \<times> pyfloat) list \<Rightarrow> PyScheduler \<Rightarrow> PyScheduler" where
  "ps_update_cluster nodes s =
     s\<lparr>ps_cluster := map (\<lambda>(i, r, occ). \<lparr>ns_id = i, ns_reachable = r, ns_occupancy_ratio = occ, ns_high_water_ratio = fl (9 / 10)\<rparr>) nodes\<rparr>"

definition cpp_scheduler :: "(BlockKey \<Rightarrow> nat) \<Rightarrow> PyScheduler Scheduler" where
  "cpp_scheduler hash = \<lparr>sc_register_block = ps_register_block hash, sc_route = ps_route hash\<rparr>"

section \<open>The contract of an index\<close>

text \<open>
  What routing relies on: a lookup lists the holders of a key once each, registering and unregistering change
  the holders of one key only.
\<close>

locale holder_index =
  fixes index_ok :: "'i \<Rightarrow> bool" and empty_index :: 'i
    and register unregister :: "BlockKey \<Rightarrow> string \<Rightarrow> 'i \<Rightarrow> 'i" and look :: "BlockKey \<Rightarrow> 'i \<Rightarrow> string list"
  assumes empty_ok: "index_ok empty_index" and look_empty: "look k empty_index = []"
    and register_ok: "index_ok idx \<Longrightarrow> index_ok (register k n idx)"
    and unregister_ok: "index_ok idx \<Longrightarrow> index_ok (unregister k n idx)"
    and look_distinct: "index_ok idx \<Longrightarrow> distinct (look k idx)"
    and look_register: "index_ok idx \<Longrightarrow> set (look k' (register k n idx)) = (if k' = k then insert n (set (look k idx)) else set (look k' idx))"
    and look_unregister: "index_ok idx \<Longrightarrow> set (look k' (unregister k n idx)) = (if k' = k then set (look k idx) - {n} else set (look k' idx))"
begin

text \<open>A history of registrations (True) and removals (False): the holders are the pairs whose last entry is a registration.\<close>

definition index_after :: "(bool \<times> BlockKey \<times> string) list \<Rightarrow> 'i" where
  "index_after ops = foldl (\<lambda>idx (r, k, n). if r then register k n idx else unregister k n idx) empty_index ops"

lemma index_after_snoc: "index_after (ops @ [(r, k, n)]) = (if r then register k n (index_after ops) else unregister k n (index_after ops))"
  by (simp add: index_after_def)

lemma index_after_ok: "index_ok (index_after ops)"
proof (induction ops rule: rev_induct)
  case (snoc x ops)
  then show ?case by (cases x) (simp add: index_after_snoc register_ok unregister_ok)
qed (simp add: index_after_def empty_ok)

lemma index_after_holders:
  "n \<in> set (look k (index_after ops)) \<longleftrightarrow> (\<exists>us vs. ops = us @ [(True, k, n)] @ vs \<and> (False, k, n) \<notin> set vs)"
proof (induction ops rule: rev_induct)
  case (snoc x ops)
  obtain r j m where x: "x = (r, j, m)" by (cases x)
  let ?last = "\<lambda>ops. \<exists>us vs. ops = us @ [(True, k, n)] @ vs \<and> (False, k, n) \<notin> set vs"
  have last: "?last (ops @ [x]) \<longleftrightarrow> x = (True, k, n) \<or> (x \<noteq> (False, k, n) \<and> ?last ops)"
  proof
    assume "?last (ops @ [x])"
    then obtain us vs where v: "ops @ [x] = us @ [(True, k, n)] @ vs" "(False, k, n) \<notin> set vs" by blast
    then show "x = (True, k, n) \<or> (x \<noteq> (False, k, n) \<and> ?last ops)" by (cases vs rule: rev_cases) auto
  next
    assume "x = (True, k, n) \<or> (x \<noteq> (False, k, n) \<and> ?last ops)"
    then show "?last (ops @ [x])"
    proof (elim disjE conjE exE)
      fix us vs assume "x \<noteq> (False, k, n)" "ops = us @ [(True, k, n)] @ vs" "(False, k, n) \<notin> set vs"
      then show ?thesis by (intro exI [of _ us] exI [of _ "vs @ [x]"]) auto
    qed force
  qed
  note ok = index_after_ok [of ops]
  show ?case
    by (simp only: last snoc.IH [symmetric]) (auto simp: x index_after_snoc look_register [OF ok] look_unregister [OF ok])
qed (simp add: index_after_def look_empty)

end

definition index_sorted :: "CrossNodeIndex \<Rightarrow> bool" where
  "index_sorted idx \<longleftrightarrow> (\<forall>i k ns. idx i k = Some ns \<longrightarrow> sorted ns \<and> distinct ns)"

lemma remove1_empty: "remove1 n ns = [] \<Longrightarrow> distinct ns \<Longrightarrow> set ns \<subseteq> {n}"
  by (cases ns) (auto split: if_splits)

interpretation cni: holder_index index_sorted index_empty "Register hash" "Unregister hash" "Lookup hash" for hash
proof (unfold_locales, goal_cases)
  case (3 idx k n)
  then show ?case by (auto simp: index_sorted_def Register_def Let_def sorted_insort_insert distinct_insort_insert split: option.splits if_splits)
next
  case (4 idx k n)
  then show ?case by (auto simp: index_sorted_def Unregister_def Let_def sorted_remove1 split: option.splits if_splits)
next
  case (5 idx k)
  then show ?case by (auto simp: index_sorted_def Lookup_def split: option.splits)
next
  case (6 idx k' k n)
  show ?case by (auto simp: Lookup_def Register_def Let_def set_insort_insert split: option.splits)
next
  case (7 idx k' k n)
  have "distinct ns" if "idx (ShardOf hash k) k = Some ns" for ns using 7 that by (auto simp: index_sorted_def)
  then show ?case by (auto simp: Lookup_def Unregister_def Let_def split: option.splits dest: remove1_empty)
qed (simp_all add: index_sorted_def index_empty_def Lookup_def)

section \<open>Coverage\<close>

definition count_of :: "string \<Rightarrow> (string \<times> nat) list \<Rightarrow> nat" where
  "count_of n cov = (case map_of cov n of None \<Rightarrow> 0 | Some c \<Rightarrow> c)"

definition cov_ok :: "(string \<times> nat) list \<Rightarrow> bool" where
  "cov_ok cov \<longleftrightarrow> sorted_wrt (<) (map fst cov)"

lemma bump_keys: "set (map fst (bump n cov)) = insert n (set (map fst cov))"
  by (induction n cov rule: bump.induct) (auto split: if_splits)

lemma bump_ok: "cov_ok cov \<Longrightarrow> cov_ok (bump n cov)"
proof (induction n cov rule: bump.induct)
  case (2 n m c rest)
  show ?case
  proof (cases "n = m \<or> n < m")
    case True
    with 2(2) show ?thesis by (auto simp: cov_ok_def)
  next
    case False
    then have "cov_ok (bump n rest)" using 2 by (simp add: cov_ok_def)
    moreover have "\<forall>x \<in> set (map fst (bump n rest)). m < x" using False 2(2) unfolding bump_keys by (auto simp: cov_ok_def)
    ultimately show ?thesis using False by (simp add: cov_ok_def)
  qed
qed (simp add: cov_ok_def)

lemma count_bump: "cov_ok cov \<Longrightarrow> count_of x (bump n cov) = count_of x cov + (if x = n then 1 else 0)"
proof (induction n cov rule: bump.induct)
  case (2 n m c rest)
  have tl: "cov_ok rest" "\<forall>y \<in> fst ` set rest. m < y" using 2(2) by (auto simp: cov_ok_def)
  show ?case
  proof (cases "n < m")
    case True
    then have "n \<notin> fst ` set rest" using tl(2) by (meson order.asym)
    then have "map_of rest n = None" by (simp add: map_of_eq_None_iff)
    with True show ?thesis by (auto simp: count_of_def)
  next
    case False
    then show ?thesis using 2(1) [OF _ False tl(1)] by (auto simp: count_of_def)
  qed
qed (simp add: count_of_def)

lemma bumps_laws:
  assumes "cov_ok cov"
  shows "cov_ok (foldl (\<lambda>cov n. bump n cov) cov ns)" "count_of x (foldl (\<lambda>cov n. bump n cov) cov ns) = count_of x cov + count_list ns x"
proof -
  have "cov_ok (foldl (\<lambda>cov n. bump n cov) cov ns) \<and> count_of x (foldl (\<lambda>cov n. bump n cov) cov ns) = count_of x cov + count_list ns x"
    using assms by (induction ns arbitrary: cov) (auto simp: bump_ok count_bump)
  then show "cov_ok (foldl (\<lambda>cov n. bump n cov) cov ns)" "count_of x (foldl (\<lambda>cov n. bump n cov) cov ns) = count_of x cov + count_list ns x"
    by simp_all
qed

text \<open>How many of the requested keys a node holds.\<close>

definition blocks_held :: "(BlockKey \<Rightarrow> nat) \<Rightarrow> CrossNodeIndex \<Rightarrow> BlockKey list \<Rightarrow> string \<Rightarrow> nat" where
  "blocks_held hash idx keys n = length (filter (\<lambda>k. n \<in> set (Lookup hash k idx)) keys)"

lemma count_list_distinct: "distinct xs \<Longrightarrow> count_list xs x = (if x \<in> set xs then 1 else 0)"
  by (induction xs) auto

lemma coverage_laws:
  assumes "index_sorted idx"
  shows "cov_ok (coverage hash idx keys)" "count_of n (coverage hash idx keys) = blocks_held hash idx keys n"
proof -
  let ?f = "\<lambda>cov key. foldl (\<lambda>cov n. bump n cov) cov (Lookup hash key idx)"
  have c: "count_list (Lookup hash k idx) n = (if n \<in> set (Lookup hash k idx) then 1 else 0)" for k
    by (rule count_list_distinct [OF cni.look_distinct [OF assms]])
  have "cov_ok (foldl ?f cov keys) \<and> count_of n (foldl ?f cov keys) = count_of n cov + blocks_held hash idx keys n" if "cov_ok cov" for cov
    using that by (induction keys arbitrary: cov) (auto simp: blocks_held_def bumps_laws c)
  from this [of "[]"] show "cov_ok (coverage hash idx keys)" "count_of n (coverage hash idx keys) = blocks_held hash idx keys n"
    by (simp_all add: coverage_def cov_ok_def count_of_def)
qed

lemma coverage_entries:
  assumes "index_sorted idx"
  shows "(n, c) \<in> set (coverage hash idx keys) \<Longrightarrow> c = blocks_held hash idx keys n"
    and "0 < blocks_held hash idx keys n \<Longrightarrow> (n, blocks_held hash idx keys n) \<in> set (coverage hash idx keys)"
proof -
  let ?cov = "coverage hash idx keys"
  have d: "distinct (map fst ?cov)" using coverage_laws(1) [OF assms] strict_sorted_iff unfolding cov_ok_def by blast
  note k = coverage_laws(2) [OF assms, of n hash keys, symmetric]
  show "(n, c) \<in> set ?cov \<Longrightarrow> c = blocks_held hash idx keys n"
    unfolding k count_of_def using map_of_is_SomeI [OF d] by simp
  show "0 < blocks_held hash idx keys n \<Longrightarrow> (n, blocks_held hash idx keys n) \<in> set ?cov"
    unfolding k count_of_def by (auto split: option.splits dest: map_of_SomeD)
qed

lemma best_fold:
  "\<exists>b c. foldl (best_step nodes) (b0, c0) cov = (b, c) \<and> c0 \<le> c
     \<and> ((b, c) = (b0, c0) \<or> (\<exists>n. b = Some n \<and> (n, c) \<in> set cov \<and> reachable_in nodes n \<and> c0 < c))
     \<and> (\<forall>(n, d) \<in> set cov. reachable_in nodes n \<longrightarrow> d \<le> c)"
proof (induction cov arbitrary: b0 c0)
  case (Cons x cov)
  obtain b1 c1 where s: "best_step nodes (b0, c0) x = (b1, c1)" by (cases "best_step nodes (b0, c0) x")
  obtain b c where f: "foldl (best_step nodes) (b1, c1) cov = (b, c)" "c1 \<le> c"
      "(b, c) = (b1, c1) \<or> (\<exists>n. b = Some n \<and> (n, c) \<in> set cov \<and> reachable_in nodes n \<and> c1 < c)"
      "\<forall>(n, d) \<in> set cov. reachable_in nodes n \<longrightarrow> d \<le> c" using Cons.IH [of b1 c1] by blast
  have h: "(b1, c1) = (b0, c0) \<and> (reachable_in nodes (fst x) \<longrightarrow> snd x \<le> c0)
      \<or> b1 = Some (fst x) \<and> c1 = snd x \<and> reachable_in nodes (fst x) \<and> c0 < c1"
    using s by (auto simp: best_step_def split: if_splits)
  have "(b, c) = (b0, c0) \<or> (\<exists>n. b = Some n \<and> (n, c) \<in> set (x # cov) \<and> reachable_in nodes n \<and> c0 < c)"
    using h f(3) by (cases x) auto
  moreover have "\<forall>(n, d) \<in> set (x # cov). reachable_in nodes n \<longrightarrow> d \<le> c" using h f(2,4) by (cases x) auto
  moreover have "foldl (best_step nodes) (b0, c0) (x # cov) = (b, c)" "c0 \<le> c" using s f(1,2) h by auto
  ultimately show ?case by blast
qed simp

section \<open>Least loaded nodes\<close>

lemma pick_fold:
  "\<exists>b. foldl (\<lambda>best node. case best of None \<Rightarrow> Some node | Some b \<Rightarrow> if less_loaded node b then Some node else Some b) (Some b0) nodes = Some b
     \<and> b \<in> insert b0 (set nodes) \<and> (\<forall>n \<in> insert b0 (set nodes). ns_occupancy_ratio b \<le> ns_occupancy_ratio n)"
proof (induction nodes arbitrary: b0)
  case (Cons x nodes)
  let ?b = "if less_loaded x b0 then x else b0"
  have "ns_occupancy_ratio ?b \<le> ns_occupancy_ratio x" "ns_occupancy_ratio ?b \<le> ns_occupancy_ratio b0"
    by (auto simp: less_loaded_def)
  moreover obtain b where "foldl (\<lambda>best node. case best of None \<Rightarrow> Some node | Some b \<Rightarrow> if less_loaded node b then Some node else Some b)
      (Some ?b) nodes = Some b" "b \<in> insert ?b (set nodes)" "\<forall>n \<in> insert ?b (set nodes). ns_occupancy_ratio b \<le> ns_occupancy_ratio n"
    using Cons.IH [of ?b] by blast
  ultimately show ?case by (auto split: if_splits intro: order_trans)
qed simp

lemma PickLeastLoaded_laws:
  "PickLeastLoaded [] = None"
  "nodes \<noteq> [] \<Longrightarrow> \<exists>b. PickLeastLoaded nodes = Some b \<and> b \<in> set nodes \<and> (\<forall>n \<in> set nodes. ns_occupancy_ratio b \<le> ns_occupancy_ratio n)"
proof -
  show "PickLeastLoaded [] = None" by (simp add: PickLeastLoaded_def)
  assume "nodes \<noteq> []"
  then obtain x xs where "nodes = x # xs" by (cases nodes) auto
  then show "\<exists>b. PickLeastLoaded nodes = Some b \<and> b \<in> set nodes \<and> (\<forall>n \<in> set nodes. ns_occupancy_ratio b \<le> ns_occupancy_ratio n)"
    using pick_fold [of x xs] by (simp add: PickLeastLoaded_def)
qed

section \<open>Histories\<close>

definition index_history :: "(BlockKey \<Rightarrow> nat) \<Rightarrow> (bool \<times> BlockKey \<times> string) list \<Rightarrow> CrossNodeIndex" where
  "index_history hash ops =
     foldl (\<lambda>idx (r, k, n). if r then Register hash k n idx else Unregister hash k n idx) index_empty ops"

lemma index_history_after: "index_history hash ops = cni.index_after hash ops"
  by (simp add: index_history_def cni.index_after_def)

lemma index_history_sorted: "index_sorted (index_history hash ops)"
  unfolding index_history_after by (rule cni.index_after_ok)

lemma Route_laws:
  assumes "index_sorted idx"
  shows "\<exists>n. reachable_in cluster n \<and> 0 < blocks_held hash idx keys n \<Longrightarrow> \<exists>n. Route hash True idx cluster keys = \<lparr>rd_node = n, rd_reuse_prefix = True, rd_recompute = False\<rparr>
      \<and> reachable_in cluster n \<and> (\<forall>m. reachable_in cluster m \<longrightarrow> blocks_held hash idx keys m \<le> blocks_held hash idx keys n)"
    and "\<not> (\<exists>n. reachable_in cluster n \<and> 0 < blocks_held hash idx keys n) \<Longrightarrow>
      Route hash True idx cluster keys = \<lparr>rd_node = ChoosePlacementNode cluster, rd_reuse_prefix = False, rd_recompute = False\<rparr>"
proof -
  let ?cov = "coverage hash idx keys"
  obtain b c where f: "foldl (best_step cluster) (None, 0) ?cov = (b, c)"
      "(b, c) = (None, 0) \<or> (\<exists>n. b = Some n \<and> (n, c) \<in> set ?cov \<and> reachable_in cluster n \<and> 0 < c)"
      "\<forall>(n, d) \<in> set ?cov. reachable_in cluster n \<longrightarrow> d \<le> c" using best_fold [of cluster None 0 ?cov] by blast
  note e = coverage_entries [OF assms]
  have le: "blocks_held hash idx keys m \<le> c" if "reachable_in cluster m" for m
    using that f(3) e(2) [of hash keys m] by (cases "blocks_held hash idx keys m = 0") auto
  { assume "\<exists>n. reachable_in cluster n \<and> 0 < blocks_held hash idx keys n"
    then obtain m where "reachable_in cluster m" "0 < blocks_held hash idx keys m" by blast
    with le [of m] have "0 < c" and "keys \<noteq> []" by (linarith, auto simp: blocks_held_def)
    with f(2) obtain n where n: "b = Some n" "(n, c) \<in> set ?cov" "reachable_in cluster n" by auto
    with \<open>keys \<noteq> []\<close> f(1) le e(1) [OF n(2)] show "\<exists>n. Route hash True idx cluster keys = \<lparr>rd_node = n, rd_reuse_prefix = True, rd_recompute = False\<rparr>
      \<and> reachable_in cluster n \<and> (\<forall>m. reachable_in cluster m \<longrightarrow> blocks_held hash idx keys m \<le> blocks_held hash idx keys n)"
      by (intro exI [of _ n]) (simp add: Route_def) }
  { assume no: "\<not> (\<exists>n. reachable_in cluster n \<and> 0 < blocks_held hash idx keys n)"
    have "b = None" using f(2) e(1) no by fastforce
    with f(1) show "Route hash True idx cluster keys = \<lparr>rd_node = ChoosePlacementNode cluster, rd_reuse_prefix = False, rd_recompute = False\<rparr>"
      by (simp add: Route_def) }
qed

text \<open>A stored block is registered for the node that stored it.\<close>

lemma store_blocks_registers:
  "store_blocks c kvs (s, q) = Some (Inr (), (s', q')) \<Longrightarrow>
     q' = foldl (\<lambda>q k. sc_register_block (cn_scheduler c) k (cn_self_node c) q) q (map fst kvs)"
proof (induction kvs arbitrary: s q)
  case (Cons kv kvs)
  then show ?case
    by (cases kv) (auto simp: prog_bind_def on_fst_def register_block_def split: option.splits sum.splits prod.splits)
qed (simp add: prog_return_def)

lemma store_kv_registers:
  assumes "store_kv c keys tensors (s, q) = Some (Inr (), (s', q'))"
  shows "q' = foldl (\<lambda>q k. sc_register_block (cn_scheduler c) k (cn_self_node c) q) q keys"
proof -
  have l: "length keys = length tensors" using assms by (auto simp: store_kv_def prog_raise_def split: if_splits)
  obtain s1 q1 where b: "store_blocks c (zip keys tensors) (s, q) = Some (Inr (), (s1, q1))" "q' = q1"
    using assms l by (auto simp: store_kv_def prog_bind_def prog_return_def on_fst_def split: option.splits sum.splits prod.splits if_splits)
  from store_blocks_registers [OF b(1)] b(2) l show ?thesis by simp
qed

lemma registered_keys:
  fixes q :: PyScheduler and hash :: "BlockKey \<Rightarrow> nat" and node :: string and keys :: "BlockKey list"
  assumes "index_sorted (ps_index q)"
  defines "q' \<equiv> foldl (\<lambda>q k. ps_register_block hash k node q) q keys"
  shows "index_sorted (ps_index q')" "ps_cluster q' = ps_cluster q" "ps_reuse_enabled q' = ps_reuse_enabled q"
    and "k \<in> set keys \<Longrightarrow> node \<in> set (Lookup hash k (ps_index q'))"
proof -
  have "index_sorted (ps_index q') \<and> ps_cluster q' = ps_cluster q \<and> ps_reuse_enabled q' = ps_reuse_enabled q
      \<and> (k \<in> set keys \<or> node \<in> set (Lookup hash k (ps_index q)) \<longrightarrow> node \<in> set (Lookup hash k (ps_index q')))"
    using assms(1) unfolding q'_def
  proof (induction keys arbitrary: q)
    case (Cons j keys)
    from Cons.IH [of "ps_register_block hash j node q"] Cons.prems(1) show ?case
      by (auto simp: ps_register_block_def cni.register_ok cni.look_register)
  qed simp
  then show "index_sorted (ps_index q')" "ps_cluster q' = ps_cluster q" "ps_reuse_enabled q' = ps_reuse_enabled q"
    "k \<in> set keys \<Longrightarrow> node \<in> set (Lookup hash k (ps_index q'))" by auto
qed

lemma placement_laws:
  assumes "\<exists>m \<in> set nodes. ns_reachable m"
  shows "\<exists>n \<in> set nodes. ChoosePlacementNode nodes = ns_id n \<and> ns_reachable n
      \<and> (\<forall>m \<in> set nodes. ns_reachable m \<and> \<not> Overloaded m \<longrightarrow> \<not> Overloaded n \<and> ns_occupancy_ratio n \<le> ns_occupancy_ratio m)"
proof -
  let ?r = "filter ns_reachable nodes" and ?w = "filter (\<lambda>n. \<not> Overloaded n) (filter ns_reachable nodes)"
  have "(if ?w = [] then ?r else ?w) \<noteq> []" using assms by (auto simp: filter_empty_conv)
  from PickLeastLoaded_laws(2) [OF this] obtain b where b: "PickLeastLoaded (if ?w = [] then ?r else ?w) = Some b"
      "b \<in> set (if ?w = [] then ?r else ?w)" "\<forall>n \<in> set (if ?w = [] then ?r else ?w). ns_occupancy_ratio b \<le> ns_occupancy_ratio n" by blast
  have "ChoosePlacementNode nodes = ns_id b" using b(1) by (simp add: ChoosePlacementNode_def Let_def)
  moreover have "b \<in> set nodes" "ns_reachable b" using b(2) by (auto split: if_splits)
  moreover have "\<not> Overloaded b \<and> ns_occupancy_ratio b \<le> ns_occupancy_ratio m" if "m \<in> set nodes" "ns_reachable m" "\<not> Overloaded m" for m
  proof -
    have "m \<in> set ?w" using that by simp
    then have "?w \<noteq> []" by (metis empty_iff list.set(1))
    with b(2,3) \<open>m \<in> set ?w\<close> show ?thesis by simp
  qed
  ultimately show ?thesis by blast
qed

lemma failover_laws:
  fixes hash idx key nodes
  defines "alive \<equiv> {n \<in> set (Lookup hash key idx). \<exists>s. find (\<lambda>s. ns_id s = n) nodes = Some s \<and> ns_reachable s}"
    and "d \<equiv> ResolveOnFailure hash idx key nodes"
  shows "(rd_recompute d \<longleftrightarrow> alive = {}) \<and> (alive \<noteq> {} \<longrightarrow> rd_node d \<in> alive \<and> rd_reuse_prefix d)"
proof -
  let ?f = "\<lambda>n. find (\<lambda>s. ns_id s = n) nodes" and ?up = "\<lambda>s. case s of None \<Rightarrow> False | Some n \<Rightarrow> ns_reachable n"
  define hs where "hs = map the (filter ?up (map ?f (Lookup hash key idx)))"
  have id: "ns_id s = n" if "?f n = Some s" for n s using that by (auto simp: find_Some_iff)
  have al: "set (filter (\<lambda>n. ?up (?f n)) (Lookup hash key idx)) = alive" unfolding alive_def by (auto split: option.splits)
  have "hs = map (\<lambda>n. the (?f n)) (filter (\<lambda>n. ?up (?f n)) (Lookup hash key idx))" by (simp add: hs_def filter_map comp_def)
  then have "set hs = (\<lambda>n. the (?f n)) ` alive" by (simp only: set_map al)
  moreover have "ns_id (the (?f n)) = n" if n: "n \<in> alive" for n
  proof -
    obtain s where s: "?f n = Some s" using n by (auto simp: alive_def)
    show ?thesis using id [OF s] by (simp add: s)
  qed
  ultimately have hs: "ns_id ` set hs = alive" by (simp add: image_image)
  show ?thesis
  proof (cases "hs = []")
    case True
    then show ?thesis using hs PickLeastLoaded_laws(1) by (simp add: d_def ResolveOnFailure_def Let_def hs_def)
  next
    case False
    from PickLeastLoaded_laws(2) [OF this] obtain b where "PickLeastLoaded hs = Some b" "b \<in> set hs" by blast
    with hs show ?thesis by (auto simp: d_def ResolveOnFailure_def Let_def hs_def [symmetric])
  qed
qed

section \<open>Properties\<close>

text \<open>C24. The sharded index refines the relation between blocks and nodes: after any history of registrations and removals,
  whatever the hash of the keys, a node is listed for a block exactly if it was registered for it and not removed
  since.\<close>

theorem index_tracks_holders:
  "n \<in> set (Lookup hash k (index_history hash ops)) \<longleftrightarrow> (\<exists>us vs. ops = us @ [(True, k, n)] @ vs \<and> (False, k, n) \<notin> set vs)"
  unfolding index_history_after by (rule cni.index_after_holders)

text \<open>C25. Routing follows the prefix: with reuse enabled, a request goes to a node not known to be unreachable that holds at
  least as many of its blocks as any other such node, when one holds any; otherwise, and always with reuse
  disabled, it goes where a new block would be placed and claims no reuse.\<close>

theorem route_best_coverage:
  fixes hash ops cluster keys
  defines "idx \<equiv> index_history hash ops" and "can \<equiv> {n. reachable_in cluster n \<and> 0 < blocks_held hash (index_history hash ops) keys n}"
  shows "(if can = {} then Route hash True idx cluster keys = Route hash False idx' cluster keys
      else rd_reuse_prefix (Route hash True idx cluster keys) \<and> rd_node (Route hash True idx cluster keys) \<in> can
        \<and> \<not> (\<exists>n \<in> can. blocks_held hash idx keys (rd_node (Route hash True idx cluster keys)) < blocks_held hash idx keys n))
    \<and> Route hash False idx' cluster keys = \<lparr>rd_node = ChoosePlacementNode cluster, rd_reuse_prefix = False, rd_recompute = False\<rparr>"
proof -
  have off: "Route hash False idx' cluster keys = \<lparr>rd_node = ChoosePlacementNode cluster, rd_reuse_prefix = False, rd_recompute = False\<rparr>"
    by (simp add: Route_def)
  have s: "index_sorted idx" unfolding idx_def by (rule index_history_sorted)
  show ?thesis
  proof (cases "can = {}")
    case True
    then show ?thesis using Route_laws(2) [OF s, of cluster hash keys] off by (simp add: can_def idx_def)
  next
    case False
    then obtain m where m: "reachable_in cluster m" "0 < blocks_held hash idx keys m" by (auto simp: can_def idx_def)
    then obtain n where n: "Route hash True idx cluster keys = \<lparr>rd_node = n, rd_reuse_prefix = True, rd_recompute = False\<rparr>"
        "reachable_in cluster n" "\<forall>m. reachable_in cluster m \<longrightarrow> blocks_held hash idx keys m \<le> blocks_held hash idx keys n"
      using Route_laws(1) [OF s, of cluster hash keys] by blast
    have "0 < blocks_held hash idx keys n" using m n(3) by fastforce
    with n off False show ?thesis by (auto simp: can_def idx_def not_less)
  qed
qed

text \<open>Placement avoids overload and failover finds a survivor: when some node is reachable, a new block goes to a reachable
  node, below its high water mark if any reachable node is, and no candidate has a lower occupancy. When the preferred
  holder of a block is lost, the request goes to a holder that the cluster knows as reachable, and is recomputed exactly if
  there is none.\<close>

lemma placement_and_failover:
  assumes "\<exists>m \<in> set nodes. ns_reachable m"
  shows "(\<exists>n \<in> set nodes. ChoosePlacementNode nodes = ns_id n \<and> ns_reachable n
      \<and> (\<forall>m \<in> set nodes. ns_reachable m \<and> \<not> Overloaded m \<longrightarrow> \<not> Overloaded n \<and> ns_occupancy_ratio n \<le> ns_occupancy_ratio m))
    \<and> (let d = ResolveOnFailure hash idx key nodes;
           alive = {n \<in> set (Lookup hash key idx). \<exists>s. find (\<lambda>s. ns_id s = n) nodes = Some s \<and> ns_reachable s}
       in (rd_recompute d \<longleftrightarrow> alive = {}) \<and> (alive \<noteq> {} \<longrightarrow> rd_node d \<in> alive \<and> rd_reuse_prefix d))"
  using placement_laws [OF assms] failover_laws [of hash idx key nodes] by (simp add: Let_def)

text \<open>C15. What the connector stores can be found again by routing: after it stored the blocks of a request through the C++
  scheduler, from any state that scheduler can reach, a route for the same keys names a node that holds every one of them,
  as long as prefix reuse is on and the storing node is not marked unreachable.\<close>

theorem store_then_route:
  assumes "cn_scheduler c = cpp_scheduler hash" "ps_index q = index_history hash ops"
    and "store_kv c keys tensors (s, q) = Some (Inr (), (s', q'))" "keys \<noteq> []"
    and "ps_reuse_enabled q" "reachable_in (ps_cluster q) (cn_self_node c)" "k \<in> set keys"
  shows "sc_route (cn_scheduler c) keys q' \<in> set (Lookup hash k (ps_index q'))"
proof -
  have q': "q' = foldl (\<lambda>q k. ps_register_block hash k (cn_self_node c) q) q keys"
    using store_kv_registers [OF assms(3)] by (simp add: assms(1) cpp_scheduler_def)
  have "index_sorted (ps_index q)" unfolding assms(2) by (rule index_history_sorted)
  note r = registered_keys [OF this, where hash = hash and node = "cn_self_node c" and keys = keys, folded q']
  have self: "blocks_held hash (ps_index q') keys (cn_self_node c) = length keys"
    unfolding blocks_held_def by (rule arg_cong [of _ _ length]) (simp add: filter_id_conv r(4))
  then have "\<exists>n. reachable_in (ps_cluster q') n \<and> 0 < blocks_held hash (ps_index q') keys n"
    using assms(4,6) r(2) by (intro exI [of _ "cn_self_node c"]) simp
  from Route_laws(1) [OF r(1) this] obtain n where n: "sc_route (cn_scheduler c) keys q' = n"
      "length keys \<le> blocks_held hash (ps_index q') keys n"
    using self assms(1,5,6) r(2,3) by (auto simp: cpp_scheduler_def ps_route_def)
  then have "filter (\<lambda>k. n \<in> set (Lookup hash k (ps_index q'))) keys = keys"
    unfolding blocks_held_def by (metis length_filter_less linorder_not_less filter_True)
  with n(1) assms(7) show ?thesis by (metis (mono_tags, lifting) filter_id_conv)
qed

text \<open>A cluster of two nodes, one above its high water mark, and a connector on it for the witnesses.\<close>

definition demo_nodes :: "NodeState list" where
  "demo_nodes = [\<lparr>ns_id = ''a'', ns_reachable = True, ns_occupancy_ratio = 1, ns_high_water_ratio = 1\<rparr>,
     \<lparr>ns_id = ''b'', ns_reachable = True, ns_occupancy_ratio = 0, ns_high_water_ratio = 1\<rparr>]"

definition demo_key :: BlockKey where
  "demo_key = \<lparr>bk_hash_id = 7, bk_layer = 0, bk_version = 1\<rparr>"

definition demo_connector :: "(FakeTieredStore, PyScheduler) ProjectKVConnector" where
  "demo_connector = \<lparr>cn_config = \<lparr>prefix_reuse_enabled = False, capabilities = \<lparr>cap_rdma = False, cap_gpu_direct = False, cap_nvme = False\<rparr>\<rparr>,
     cn_scheduler = cpp_scheduler (\<lambda>_. 0), cn_store = fake_store, cn_self_node = ''a''\<rparr>"

theorem store_then_route_witness:
  "\<exists>s' q'. store_kv demo_connector [demo_key] [[1]] (FakeTieredStore_init, PyScheduler_init True) = Some (Inr (), (s', q'))
     \<and> sc_route (cn_scheduler demo_connector) [demo_key] q' \<in> set (Lookup (\<lambda>_. 0) demo_key (ps_index q'))"
proof -
  obtain s' q' where s: "store_kv demo_connector [demo_key] [[1]] (FakeTieredStore_init, PyScheduler_init True) = Some (Inr (), (s', q'))"
    by (simp add: store_kv_def demo_connector_def prog_bind_def on_fst_def fake_store_def register_block_def prog_return_def)
  have i: "cn_scheduler demo_connector = cpp_scheduler (\<lambda>_. 0)" "ps_index (PyScheduler_init True) = index_history (\<lambda>_. 0) []"
    "ps_reuse_enabled (PyScheduler_init True)" "reachable_in (ps_cluster (PyScheduler_init True)) (cn_self_node demo_connector)"
    by (simp_all add: demo_connector_def PyScheduler_init_def index_history_def reachable_in_def)
  from store_then_route [OF i(1,2) s _ i(3,4), of demo_key] s show ?thesis by auto
qed

end
