(* ===== verification/Fair_Share.thy ===== *)
theory Fair_Share
  imports Storage_Manager
begin

text \<open>
  The weighted fair sharing of \<^verbatim>\<open>src/scheduler/scheduler.cpp\<close>, \<^verbatim>\<open>AllocateFairShare\<close>. Byte counts are 64-bit and wrap,
  weights and shares are binary64, whose sums, products and quotients may overflow. The loop has no obvious bound, so
  not returning is the value \<open>None\<close>, and so is undefined behaviour.
\<close>

section \<open>Doubles that overflow\<close>

text \<open>The results of \<^verbatim>\<open>+\<close>, \<^verbatim>\<open>*\<close> and \<^verbatim>\<open>/\<close> on doubles that are not negative, as all operands of the code are: the correctly rounded value if
  it is below \<open>2 ^ 1024\<close>, infinity otherwise, and not a number where infinities or zeros meet. Underflow makes no difference to
  the code: sums of doubles, and products of a double with an integer from 1, are exact there, and a quotient that
  small is truncated to 0 either way.\<close>

datatype cpp_double = Finite pyfloat | Infinity | NotANumber

definition to_double :: "rat \<Rightarrow> cpp_double" where
  "to_double x = (if fl x < 2 ^ 1024 then Finite (fl x) else Infinity)"

fun dadd :: "cpp_double \<Rightarrow> cpp_double \<Rightarrow> cpp_double" where
  "dadd (Finite a) (Finite b) = to_double (a + b)"
| "dadd NotANumber b = NotANumber"
| "dadd a NotANumber = NotANumber"
| "dadd (Finite a) Infinity = Infinity"
| "dadd Infinity (Finite b) = Infinity"
| "dadd Infinity Infinity = Infinity"

fun dmul :: "cpp_double \<Rightarrow> cpp_double \<Rightarrow> cpp_double" where
  "dmul (Finite a) (Finite b) = to_double (a * b)"
| "dmul NotANumber b = NotANumber"
| "dmul a NotANumber = NotANumber"
| "dmul (Finite a) Infinity = (if a = 0 then NotANumber else Infinity)"
| "dmul Infinity (Finite b) = (if b = 0 then NotANumber else Infinity)"
| "dmul Infinity Infinity = Infinity"

fun ddiv :: "cpp_double \<Rightarrow> cpp_double \<Rightarrow> cpp_double" where
  "ddiv (Finite a) (Finite b) = (if b = 0 then if a = 0 then NotANumber else Infinity else to_double (a / b))"
| "ddiv NotANumber b = NotANumber"
| "ddiv a NotANumber = NotANumber"
| "ddiv (Finite a) Infinity = Finite 0"
| "ddiv Infinity (Finite b) = Infinity"
| "ddiv Infinity Infinity = NotANumber"

text \<open>\<^verbatim>\<open>x <= 0\<close>, and the conversion to an unsigned integer, which is undefined behaviour outside its range.\<close>

fun not_positive :: "cpp_double \<Rightarrow> bool" where
  "not_positive (Finite a) = (a \<le> 0)"
| "not_positive Infinity = False"
| "not_positive NotANumber = False"

fun double_to_u64 :: "cpp_double \<Rightarrow> nat option" where
  "double_to_u64 (Finite a) = (if 0 \<le> a \<and> a < 2 ^ 64 then Some (nat \<lfloor>a\<rfloor>) else None)"
| "double_to_u64 Infinity = None"
| "double_to_u64 NotANumber = None"

section \<open>Model\<close>

text \<open>A weight is a finite double.\<close>

record TenantDemand =
  td_tenant :: string
  td_demand_bytes :: nat
  td_weight :: pyfloat

type_synonym item = "TenantDemand \<times> nat"

definition share_items :: "TenantDemand list \<Rightarrow> item list" where
  "share_items demands = map (\<lambda>d. (d, 0)) (filter (\<lambda>d. 0 < td_demand_bytes d \<and> 0 < td_weight d) demands)"

definition active_weight :: "item list \<Rightarrow> cpp_double" where
  "active_weight items =
     foldl (\<lambda>w it. if snd it < td_demand_bytes (fst it) then dadd w (Finite (td_weight (fst it))) else w) (Finite 0) items"

definition share_of :: "nat \<Rightarrow> cpp_double \<Rightarrow> TenantDemand \<Rightarrow> nat option" where
  "share_of remaining active d =
     double_to_u64 (ddiv (dmul (Finite (int_to_float (int remaining))) (Finite (td_weight d))) active)"

fun give_shares :: "nat \<Rightarrow> cpp_double \<Rightarrow> item list \<Rightarrow> nat \<Rightarrow> (item list \<times> nat) option" where
  "give_shares remaining active [] distributed = Some ([], distributed)"
| "give_shares remaining active ((d, granted) # items) distributed =
     (let unmet = u64_sub (td_demand_bytes d) granted
      in if unmet = 0
         then map_option (\<lambda>(items', n). ((d, granted) # items', n)) (give_shares remaining active items distributed)
         else
           (case share_of remaining active d of
              None \<Rightarrow> None
            | Some share \<Rightarrow>
                (let give = min unmet share
                 in map_option (\<lambda>(items', n). ((d, u64_add granted give) # items', n))
                      (give_shares remaining active items (u64_add distributed give)))))"

text \<open>A byte each, when the remainder is too small to be divided.\<close>

fun give_bytes :: "item list \<Rightarrow> nat \<Rightarrow> nat \<Rightarrow> item list \<times> nat \<times> nat" where
  "give_bytes [] remaining distributed = ([], remaining, distributed)"
| "give_bytes ((d, granted) # items) remaining distributed =
     (if remaining = 0 then ((d, granted) # items, remaining, distributed)
      else if granted < td_demand_bytes d
      then (let (items', r, n) = give_bytes items (remaining - 1) (distributed + 1) in ((d, granted + 1) # items', r, n))
      else (let (items', r, n) = give_bytes items remaining distributed in ((d, granted) # items', r, n)))"

partial_function (option) water_fill :: "item list \<Rightarrow> nat \<Rightarrow> item list option" where
  "water_fill items remaining =
     (if remaining = 0 then Some items
      else
        (let active = active_weight items
         in if not_positive active then Some items
            else
              (case give_shares remaining active items 0 of
                 None \<Rightarrow> None
               | Some (items1, distributed) \<Rightarrow>
                   if distributed = 0
                   then (case give_bytes items1 remaining 0 of
                           (items2, r, n) \<Rightarrow> if n = 0 then Some items2 else water_fill items2 r)
                   else water_fill items1 (u64_sub remaining distributed))))"

text \<open>\<^verbatim>\<open>std::map\<close> from tenants to grants; an assignment replaces.\<close>

definition AllocateFairShare :: "TenantDemand list \<Rightarrow> nat \<Rightarrow> (string \<rightharpoonup> nat) option" where
  "AllocateFairShare demands capacity_bytes =
     map_option (foldl (\<lambda>m it. m(td_tenant (fst it) \<mapsto> snd it)) (foldl (\<lambda>m d. m(td_tenant d \<mapsto> 0)) Map.empty demands))
       (water_fill (share_items demands) capacity_bytes)"

section \<open>Rounding errors\<close>

lemma round_half_even_error: "\<bar>of_int (round_half_even x) - x\<bar> \<le> 1 / 2"
  unfolding round_half_even_def Let_def by (auto simp: abs_if) linarith+

definition rel_err :: rat where
  "rel_err = 1 / 2 ^ 53"

lemma rel_err_bounds: "0 < rel_err" "rel_err \<le> 1" "rel_err * rel_err \<le> rel_err"
  by (simp_all add: rel_err_def)

lemma fl_relative:
  assumes "0 < x"
  shows "\<bar>fl x - x\<bar> \<le> x * rel_err"
proof -
  let ?e = "ilog2 x - 52"
  define q where "q = x / 2 powi ?e"
  have x: "x = q * 2 powi ?e" by (simp add: q_def)
  have "fl x - x = (of_int (round_half_even q) - q) * 2 powi ?e"
    using assms by (simp add: fl_def fl_pos_def Let_def q_def [symmetric] algebra_simps) (simp add: x [symmetric])
  then have "\<bar>fl x - x\<bar> = \<bar>of_int (round_half_even q) - q\<bar> * 2 powi ?e" by (simp add: abs_mult)
  also have "\<dots> \<le> 1 / 2 * 2 powi ?e" using round_half_even_error by (intro mult_right_mono) auto
  also have "\<dots> \<le> x * rel_err"
    using ilog2_bounds(1) [OF assms] powi_ilog2(1) [of "ilog2 x"] by (simp add: rel_err_def)
  finally show ?thesis .
qed

lemma fl_upper: "0 \<le> x \<Longrightarrow> fl x \<le> x * (1 + rel_err)"
  and fl_lower: "0 \<le> x \<Longrightarrow> x * (1 - rel_err) \<le> fl x"
proof -
  assume "0 \<le> x"
  then have "\<bar>fl x - x\<bar> \<le> x * rel_err" using fl_relative [of x] by (cases "x = 0") (auto simp: fl_def)
  then show "fl x \<le> x * (1 + rel_err)" "x * (1 - rel_err) \<le> fl x" unfolding abs_le_iff by (simp_all add: algebra_simps)
qed

text \<open>One unit of relative error per addition.\<close>

lemma power_lower: "1 - of_nat n * u \<le> (1 - u) ^ n" if "0 \<le> u" "u \<le> 1" for u :: rat
proof (induction n)
  case (Suc n)
  have "1 - of_nat (Suc n) * u \<le> (1 - u) * (1 - of_nat n * u)" using that(1) by (simp add: algebra_simps)
  also have "\<dots> \<le> (1 - u) * (1 - u) ^ n" using Suc that by (intro mult_left_mono) auto
  finally show ?case by simp
qed simp

section \<open>Weights\<close>

text \<open>The sum of the weights and the shares, where nothing overflows.\<close>

definition rat_weight :: "item list \<Rightarrow> pyfloat" where
  "rat_weight items = foldl (\<lambda>w it. if snd it < td_demand_bytes (fst it) then fadd w (td_weight (fst it)) else w) 0 items"

definition rat_share :: "nat \<Rightarrow> pyfloat \<Rightarrow> TenantDemand \<Rightarrow> nat" where
  "rat_share remaining active d = nat \<lfloor>fdiv (fmul (int_to_float (int remaining)) (td_weight d)) active\<rfloor>"

definition active :: "item \<Rightarrow> bool" where
  "active it \<longleftrightarrow> snd it < td_demand_bytes (fst it)"

definition weight_sum :: "item list \<Rightarrow> rat" where
  "weight_sum items = sum_list (map (td_weight \<circ> fst) (filter active items))"

definition items_ok :: "item list \<Rightarrow> bool" where
  "items_ok items \<longleftrightarrow> (\<forall>it \<in> set items. snd it \<le> td_demand_bytes (fst it) \<and> td_demand_bytes (fst it) < 2 ^ 64 \<and> 0 < td_weight (fst it) \<and> td_weight (fst it) \<le> 2 ^ 900)"

lemma items_ok_Cons [simp]:
  "items_ok (it # items) \<longleftrightarrow> snd it \<le> td_demand_bytes (fst it) \<and> td_demand_bytes (fst it) < 2 ^ 64 \<and> 0 < td_weight (fst it) \<and> td_weight (fst it) \<le> 2 ^ 900 \<and> items_ok items"
  by (auto simp: items_ok_def)

lemma weight_sum_nonneg: "items_ok items \<Longrightarrow> 0 \<le> weight_sum items"
  unfolding weight_sum_def by (rule sum_list_nonneg) (auto simp: items_ok_def)

lemma weight_fold_lower:
  assumes "items_ok items" "0 \<le> w"
  shows "(w + weight_sum items) * (1 - rel_err) ^ length items
    \<le> foldl (\<lambda>w it. if snd it < td_demand_bytes (fst it) then fadd w (td_weight (fst it)) else w) w items"
  using assms
proof (induction items arbitrary: w)
  case (Cons it items)
  let ?u = "1 - rel_err"
  have p: "0 \<le> ?u ^ length items" "?u \<le> 1" "0 \<le> ?u" using rel_err_bounds by simp_all
  have S: "0 \<le> weight_sum items" using Cons.prems(1) by (simp add: weight_sum_nonneg)
  show ?case
  proof (cases "active it")
    case True
    let ?x = "w + td_weight (fst it)"
    have x: "0 \<le> ?x" using Cons.prems by simp
    have "(?x + weight_sum items) * ?u \<le> fl ?x + weight_sum items"
      using fl_lower [OF x] S mult_left_mono [OF p(2) S] by (simp add: distrib_right)
    from mult_right_mono [OF this p(1)]
    have "(?x + weight_sum items) * ?u ^ length (it # items) \<le> (fl ?x + weight_sum items) * ?u ^ length items"
      by (simp add: mult.assoc)
    also have "\<dots> \<le> foldl (\<lambda>w it. if snd it < td_demand_bytes (fst it) then fadd w (td_weight (fst it)) else w) (fl ?x) items"
      using Cons.IH [of "fl ?x"] Cons.prems f64.rnd_nonneg [OF x] by simp
    finally show ?thesis using True by (simp add: active_def weight_sum_def fadd_def add.assoc)
  next
    case False
    have "(w + weight_sum items) * ?u ^ length (it # items) \<le> (w + weight_sum items) * ?u ^ length items"
      using S Cons.prems(2) by (intro mult_left_mono) (use p in \<open>auto intro: mult_left_le_one_le\<close>)
    also have "\<dots> \<le> foldl (\<lambda>w it. if snd it < td_demand_bytes (fst it) then fadd w (td_weight (fst it)) else w) w items"
      using Cons.IH [of w] Cons.prems by simp
    finally show ?thesis using False by (simp add: active_def weight_sum_def)
  qed
qed (simp add: weight_sum_def)

lemma rat_weight_lower:
  assumes "items_ok items"
  shows "weight_sum items * (1 - of_nat (length items) * rel_err) \<le> rat_weight items"
proof -
  have "weight_sum items * (1 - of_nat (length items) * rel_err) \<le> weight_sum items * (1 - rel_err) ^ length items"
    using power_lower [of rel_err "length items"] rel_err_bounds weight_sum_nonneg [OF assms] by (intro mult_left_mono) simp_all
  also have "\<dots> \<le> rat_weight items" using weight_fold_lower [OF assms, of 0] by (simp add: rat_weight_def)
  finally show ?thesis .
qed

lemma weight_sum_pos: "items_ok items \<Longrightarrow> it \<in> set items \<Longrightarrow> active it \<Longrightarrow> 0 < weight_sum items"
proof (induction items)
  case (Cons x items)
  then show ?case using weight_sum_nonneg [of items] by (auto simp: weight_sum_def)
qed simp

lemma rat_weight_zero: "\<forall>it \<in> set items. \<not> active it \<Longrightarrow> rat_weight items = 0"
  unfolding rat_weight_def by (induction items) (auto simp: active_def)

section \<open>Shares\<close>

text \<open>The quotient of the code as a rational.\<close>

definition quotient :: "nat \<Rightarrow> pyfloat \<Rightarrow> TenantDemand \<Rightarrow> pyfloat" where
  "quotient R A d = fdiv (fmul (int_to_float (int R)) (td_weight d)) A"

lemma int_to_float_nat: "R \<le> 2 ^ 53 \<Longrightarrow> int_to_float (int R) = of_nat R"
  using f64.rnd_int [of "int R"] by (simp add: int_to_float_def)

lemma quotient_bounds:
  assumes "0 < td_weight d" "0 < A" "R \<le> 2 ^ 53"
  shows "quotient R A d \<le> of_nat R * td_weight d * (1 + rel_err) ^ 2 / A" "0 \<le> quotient R A d"
proof -
  let ?u = "1 + rel_err" and ?x = "of_nat R * td_weight d"
  have q: "quotient R A d = fl (fl ?x / A)" by (simp add: quotient_def int_to_float_nat [OF assms(3)] fmul_def fdiv_def)
  have x: "0 \<le> ?x" "0 \<le> fl ?x" using assms(1) by (auto intro: f64.rnd_nonneg)
  have "fl (fl ?x / A) \<le> fl ?x / A * ?u" using x(2) assms(2) by (intro fl_upper) simp
  also have "\<dots> \<le> ?x * ?u / A * ?u" using fl_upper [OF x(1)] assms(2) rel_err_bounds(1) by (intro mult_right_mono divide_right_mono) simp_all
  also have "\<dots> = ?x * ?u ^ 2 / A" by (simp add: power2_eq_square)
  finally show "quotient R A d \<le> ?x * ?u ^ 2 / A" by (simp add: q)
  show "0 \<le> quotient R A d" unfolding q using x(2) assms(2) by (intro f64.rnd_nonneg) simp
qed

lemma share_upper:
  assumes "0 < td_weight d" "0 < A" "R \<le> 2 ^ 53"
  shows "of_nat (rat_share R A d) \<le> of_nat R * td_weight d * (1 + rel_err) ^ 2 / A"
proof -
  have "of_nat (rat_share R A d) = (of_int \<lfloor>quotient R A d\<rfloor> :: rat)"
    using quotient_bounds(2) [OF assms] by (simp add: rat_share_def quotient_def)
  also have "\<dots> \<le> quotient R A d" by simp
  finally show ?thesis using quotient_bounds(1) [OF assms] by linarith
qed

definition gain :: "nat \<Rightarrow> pyfloat \<Rightarrow> item \<Rightarrow> nat" where
  "gain R A it = min (td_demand_bytes (fst it) - snd it) (rat_share R A (fst it))"

definition gains :: "nat \<Rightarrow> pyfloat \<Rightarrow> item list \<Rightarrow> nat" where
  "gains R A items = sum_list (map (gain R A) items)"

lemma gains_Cons [simp]: "gains R A (it # items) = gain R A it + gains R A items"
  by (simp add: gains_def)

lemma gains_upper:
  assumes "items_ok items" "0 < A" "R \<le> 2 ^ 53"
  shows "of_nat (gains R A items) \<le> weight_sum items * (of_nat R * (1 + rel_err) ^ 2 / A)"
  using assms(1)
proof (induction items)
  case (Cons it items)
  define c where "c = of_nat R * (1 + rel_err) ^ 2 / A"
  have IH: "of_nat (gains R A items) \<le> weight_sum items * c" using Cons by (simp add: c_def)
  show ?case
  proof (cases "active it")
    case True
    have "gain R A it \<le> rat_share R A (fst it)" by (simp add: gain_def)
    then have "(of_nat (gain R A it) :: rat) \<le> of_nat (rat_share R A (fst it))" by (simp only: of_nat_le_iff)
    also have "\<dots> \<le> td_weight (fst it) * c"
      using share_upper [of "fst it" A R] Cons.prems assms(2,3) by (simp add: c_def mult.assoc mult.left_commute)
    finally show ?thesis using True IH by (simp add: gains_def weight_sum_def c_def [symmetric] distrib_right)
  next
    case False
    then have "gain R A it = 0" by (simp add: gain_def active_def)
    with False IH show ?thesis by (simp add: gains_def weight_sum_def c_def [symmetric])
  qed
qed (simp add: gains_def weight_sum_def)

text \<open>The shares of a round never exceed what is left, as long as the rounding errors add up to less than a byte.\<close>

lemma shares_below:
  assumes "items_ok items" "0 < rat_weight items" "(R + 1) * (length items + 3) \<le> 2 ^ 53" "\<exists>it \<in> set items. active it"
  shows "weight_sum items * (of_nat R * (1 + rel_err) ^ 2 / rat_weight items) < of_nat R + 1"
proof -
  let ?S = "weight_sum items" and ?A = "rat_weight items"
  define n r where "n = (of_nat (length items) :: rat)" and "r = (of_nat R :: rat)"
  have S: "0 < ?S" using weight_sum_pos [OF assms(1)] assms(4) by blast
  have "of_nat ((R + 1) * (length items + 3)) \<le> (of_nat (2 ^ 53) :: rat)" using assms(3) by (simp only: of_nat_le_iff)
  then have b: "(r + 1) * (n + 3) \<le> 2 ^ 53" unfolding n_def r_def by (simp only: of_nat_mult of_nat_add of_nat_1 of_nat_numeral of_nat_power)
  have u: "(r + 1) * (n + 3) * rel_err \<le> 1" unfolding rel_err_def using b by simp
  have nr: "0 \<le> n" "0 \<le> r" by (simp_all add: n_def r_def)
  have key: "r * (1 + rel_err) ^ 2 < (r + 1) * (1 - n * rel_err)"
  proof -
    have "r * (rel_err * rel_err) \<le> r * rel_err" using rel_err_bounds(3) nr(2) by (rule mult_left_mono)
    moreover have "r * (1 + rel_err) ^ 2 = r + 2 * (r * rel_err) + r * (rel_err * rel_err)"
      "(r + 1) * (1 - n * rel_err) = r + 1 - r * n * rel_err - n * rel_err"
      "(r + 1) * (n + 3) * rel_err = 3 * (r * rel_err) + r * n * rel_err + n * rel_err + 3 * rel_err"
      by (simp_all add: power2_eq_square algebra_simps)
    ultimately show ?thesis using u rel_err_bounds(1) by linarith
  qed
  have "?S * (r * (1 + rel_err) ^ 2) < ?S * ((r + 1) * (1 - n * rel_err))" using mult_strict_left_mono [OF key S] .
  also have "\<dots> = (r + 1) * (?S * (1 - n * rel_err))" by (simp add: mult.left_commute)
  also have "\<dots> \<le> (r + 1) * ?A" using rat_weight_lower [OF assms(1)] nr(2) by (intro mult_left_mono) (simp_all add: n_def)
  finally show ?thesis using assms(2) by (simp add: pos_divide_less_eq r_def)
qed

lemma remaining_small: "(R + 1) * (n + 3) \<le> 2 ^ 53 \<Longrightarrow> R < (2 ^ 53 :: nat)" and count_small: "(R + 1) * (n + 3) \<le> 2 ^ 53 \<Longrightarrow> n < (2 ^ 53 :: nat)"
proof -
  assume a: "(R + 1) * (n + 3) \<le> (2 ^ 53 :: nat)"
  have "R + 1 \<le> (R + 1) * (n + 3)" "n + 3 \<le> (R + 1) * (n + 3)" using mult_le_mono2 [of 1 "n + 3" "R + 1"] by simp_all
  with a show "R < 2 ^ 53" "n < 2 ^ 53" by linarith+
qed

lemma gains_bounded:
  assumes "items_ok items" "0 < rat_weight items" "(R + 1) * (length items + 3) \<le> 2 ^ 53"
  shows "gains R (rat_weight items) items \<le> R"
proof (cases "\<exists>it \<in> set items. active it")
  case True
  have R: "R \<le> 2 ^ 53" using remaining_small [OF assms(3)] by simp
  from gains_upper [OF assms(1,2) R] shares_below [OF assms True]
  have "(of_nat (gains R (rat_weight items) items) :: rat) < of_nat (R + 1)" by simp
  then have "gains R (rat_weight items) items < R + 1" by (simp only: of_nat_less_iff)
  then show ?thesis by simp
next
  case False
  then have "gains R A items = 0" for A by (auto simp: gains_def gain_def active_def)
  then show ?thesis by simp
qed

section \<open>Nothing overflows\<close>

text \<open>Multiples of \<open>2 ^ 900\<close> up to \<open>2 ^ 953\<close> are doubles, and the partial sums of the weights stay below them.\<close>

lemma fl_multiple: "n \<le> 2 ^ 53 \<Longrightarrow> fl (of_nat n * 2 ^ 900) = of_nat n * 2 ^ 900"
  using fl_exact [of "int n" 900] by (simp add: power_int_def)

lemma multiple_finite:
  assumes "n \<le> 2 ^ 53" "x \<le> of_nat n * 2 ^ 900"
  shows "fl x \<le> of_nat n * 2 ^ 900" "to_double x = Finite (fl x)"
proof -
  show le: "fl x \<le> of_nat n * 2 ^ 900" using f64.rnd_le_fixed [OF fl_multiple [OF assms(1)] assms(2)] .
  have "(of_nat n :: rat) \<le> of_nat (2 ^ 53)" using assms(1) by (simp only: of_nat_le_iff)
  then have "of_nat n * 2 ^ 900 \<le> (2 ^ 53 * 2 ^ 900 :: rat)" by (intro mult_right_mono) simp_all
  also have "\<dots> < 2 ^ 1024" by simp
  finally show "to_double x = Finite (fl x)" using le by (simp add: to_double_def)
qed

lemma weight_fold_exact:
  assumes "items_ok items" "w \<le> of_nat n * 2 ^ 900" "n + length items \<le> 2 ^ 53"
  shows "foldl (\<lambda>w it. if snd it < td_demand_bytes (fst it) then dadd w (Finite (td_weight (fst it))) else w) (Finite w) items
    = Finite (foldl (\<lambda>w it. if snd it < td_demand_bytes (fst it) then fadd w (td_weight (fst it)) else w) w items)"
  using assms
proof (induction items arbitrary: w n)
  case (Cons it items)
  let ?x = "w + td_weight (fst it)"
  have "?x \<le> of_nat (Suc n) * 2 ^ 900" using Cons.prems(1,2) by (simp add: distrib_right)
  with Cons.prems(3) have x: "fl ?x \<le> of_nat (Suc n) * 2 ^ 900" "to_double ?x = Finite (fl ?x)" using multiple_finite [of "Suc n" ?x] by simp_all
  have "w \<le> of_nat (Suc n) * 2 ^ 900" using Cons.prems(2) by (simp add: distrib_right)
  with x Cons.IH [of "fl ?x" "Suc n"] Cons.IH [of w "Suc n"] Cons.prems(1,3) show ?case by (simp add: fadd_def)
qed simp

lemma active_weight_exact:
  assumes "items_ok items" "length items < 2 ^ 53"
  shows "active_weight items = Finite (rat_weight items)"
  using weight_fold_exact [OF assms(1), of 0 0] assms(2) by (simp add: active_weight_def rat_weight_def)

lemma share_exact:
  assumes "items_ok items" "0 < rat_weight items" "(R + 1) * (length items + 3) \<le> 2 ^ 53" "it \<in> set items" "active it"
  shows "share_of R (Finite (rat_weight items)) (fst it) = Some (rat_share R (rat_weight items) (fst it))"
proof -
  let ?A = "rat_weight items" and ?w = "td_weight (fst it)"
  have R: "R \<le> 2 ^ 53" using remaining_small [OF assms(3)] by simp
  have w: "0 < ?w" "?w \<le> 2 ^ 900" using assms(1,4) by (auto simp: items_ok_def)
  have "of_nat R * ?w \<le> of_nat R * 2 ^ 900" using w(2) by (intro mult_left_mono) simp_all
  from multiple_finite(2) [OF R this] have p: "dmul (Finite (int_to_float (int R))) (Finite ?w) = Finite (fmul (int_to_float (int R)) ?w)"
    by (simp add: int_to_float_nat [OF R] fmul_def)
  note q = quotient_bounds [OF w(1) assms(2) R]
  have "?w \<le> weight_sum items" unfolding weight_sum_def
    by (rule member_le_sum_list) (use assms(1,4,5) in \<open>auto simp: items_ok_def\<close>)
  then have "?w * (of_nat R * (1 + rel_err) ^ 2 / ?A) \<le> weight_sum items * (of_nat R * (1 + rel_err) ^ 2 / ?A)"
    by (rule mult_right_mono) (use assms(2) rel_err_bounds(1) in simp)
  also have "\<dots> < of_nat R + 1" using shares_below [OF assms(1-3)] assms(4,5) by blast
  finally have "quotient R ?A (fst it) < of_nat R + 1" using q(1) by (simp add: mult_ac)
  moreover have "(of_nat R :: rat) \<le> of_nat (2 ^ 53)" using R by (simp only: of_nat_le_iff)
  ultimately have b: "quotient R ?A (fst it) < 2 ^ 64" by simp
  then have "ddiv (Finite (fmul (int_to_float (int R)) ?w)) (Finite ?A) = Finite (quotient R ?A (fst it))"
    using assms(2) by (simp add: to_double_def quotient_def fdiv_def)
  then show ?thesis using q(2) b unfolding share_of_def p by (simp add: rat_share_def quotient_def)
qed

section \<open>One round\<close>

definition grant :: "nat \<Rightarrow> pyfloat \<Rightarrow> item \<Rightarrow> item" where
  "grant R A it = (fst it, snd it + gain R A it)"

lemma give_shares_eq:
  assumes "items_ok items" "n + gains R A items < 2 ^ 64"
    and "\<And>it. it \<in> set items \<Longrightarrow> active it \<Longrightarrow> share_of R (Finite A) (fst it) = Some (rat_share R A (fst it))"
  shows "give_shares R (Finite A) items n = Some (map (grant R A) items, n + gains R A items)"
  using assms
proof (induction items arbitrary: n)
  case (Cons it items)
  obtain d g where it: "it = (d, g)" by (cases it)
  have ok: "g \<le> td_demand_bytes d" "td_demand_bytes d < 2 ^ 64" "items_ok items" using Cons.prems(1) by (simp_all add: it)
  have um: "u64_sub (td_demand_bytes d) g = td_demand_bytes d - g" using ok(1) by (simp add: u64_sub_def)
  have g: "gain R A it \<le> td_demand_bytes d - g" by (simp add: gain_def it)
  note rest = Cons.prems(3) [OF list.set_intros(2)]
  show ?case
  proof (cases "td_demand_bytes d - g = 0")
    case True
    then have "gain R A it = 0" using g by simp
    with Cons.IH [OF ok(3) _ rest, of n] Cons.prems(2) True show ?thesis by (simp add: it um grant_def)
  next
    case False
    have "u64_add n (gain R A it) = n + gain R A it" "u64_add g (gain R A it) = g + gain R A it"
      using Cons.prems(2) g ok(1,2) by (simp_all add: u64_add_exact)
    moreover have "min (td_demand_bytes d - g) (rat_share R A d) = gain R A it" by (simp add: gain_def it)
    moreover have "share_of R (Finite A) d = Some (rat_share R A d)" using Cons.prems(3) [of it] False by (simp add: it active_def)
    ultimately show ?thesis using False Cons.IH [OF ok(3) _ rest, of "n + gain R A it"] Cons.prems(2)
      by (simp add: it um grant_def Let_def)
  qed
qed (simp add: gains_def)

definition unmet :: "item list \<Rightarrow> nat" where
  "unmet items = sum_list (map (\<lambda>it. td_demand_bytes (fst it) - snd it) items)"

definition granted :: "item list \<Rightarrow> nat" where
  "granted items = sum_list (map snd items)"

text \<open>What a round may do to the items: the same tenants, grants that only grow and stay within the demand.\<close>

definition grows :: "item list \<Rightarrow> item list \<Rightarrow> bool" where
  "grows xs ys \<longleftrightarrow> list_all2 (\<lambda>x y. fst y = fst x \<and> snd x \<le> snd y \<and> snd y \<le> td_demand_bytes (fst x)) xs ys"

lemma grows_refl: "items_ok items \<Longrightarrow> grows items items"
  by (induction items) (auto simp: grows_def)

lemma grows_trans: "grows xs ys \<Longrightarrow> grows ys zs \<Longrightarrow> grows xs zs"
  unfolding grows_def list_all2_conv_all_nth using order_trans by fastforce

lemma grows_ok: "grows xs ys \<Longrightarrow> items_ok xs \<Longrightarrow> items_ok ys"
  unfolding grows_def by (induction xs ys rule: list_all2_induct) auto

lemma grows_length: "grows xs ys \<Longrightarrow> length ys = length xs"
  unfolding grows_def by (drule list_all2_lengthD) simp

lemma grows_sums:
  assumes "grows xs ys"
  shows "granted xs \<le> granted ys" "unmet xs = unmet ys + (granted ys - granted xs)"
proof -
  have "granted xs \<le> granted ys \<and> unmet xs + granted xs = unmet ys + granted ys"
    using assms unfolding grows_def
    by (induction xs ys rule: list_all2_induct) (auto simp: granted_def unmet_def)
  then show "granted xs \<le> granted ys" "unmet xs = unmet ys + (granted ys - granted xs)" by auto
qed

lemma grows_shares: "items_ok items \<Longrightarrow> grows items (map (grant R A) items)"
  by (induction items) (auto simp: grows_def grant_def gain_def)

lemma granted_shares: "granted (map (grant R A) items) = granted items + gains R A items"
  by (induction items) (auto simp: granted_def grant_def gains_def)

lemma give_bytes_laws:
  assumes "items_ok items" "give_bytes items R n = (items', R', n')"
  shows "grows items items' \<and> granted items' + n = granted items + n' \<and> R' + n' = R + n \<and> n \<le> n'
    \<and> (0 < R \<and> (\<exists>it \<in> set items. active it) \<longrightarrow> n < n')"
  using assms
proof (induction items arbitrary: R n items' R' n')
  case (Cons it items)
  obtain d g where it: "it = (d, g)" by (cases it)
  have ok: "items_ok items" "g \<le> td_demand_bytes d" using Cons.prems(1) by (simp_all add: it)
  show ?case
  proof (cases "R = 0")
    case True
    then show ?thesis using Cons.prems grows_refl [OF Cons.prems(1)] by (simp add: it)
  next
    case R: False
    show ?thesis
    proof (cases "g < td_demand_bytes d")
      case True
      obtain xs r m where b: "give_bytes items (R - 1) (n + 1) = (xs, r, m)" by (cases "give_bytes items (R - 1) (n + 1)")
      from Cons.IH [OF ok(1) b] Cons.prems(2) R True b show ?thesis
        by (auto simp: it grows_def granted_def active_def)
    next
      case False
      obtain xs r m where b: "give_bytes items R n = (xs, r, m)" by (cases "give_bytes items R n")
      from Cons.IH [OF ok(1) b] Cons.prems(2) R False b ok(2) show ?thesis
        by (auto simp: it grows_def granted_def active_def)
    qed
  qed
qed (auto simp: grows_def)

section \<open>The loop\<close>

lemma gains_zero: "items_ok items \<Longrightarrow> gains R A items = 0 \<Longrightarrow> map (grant R A) items = items"
  by (induction items) (auto simp: grant_def)

lemma unmet_active: "(\<exists>it \<in> set items. active it) \<longleftrightarrow> 0 < unmet items"
  by (induction items) (auto simp: unmet_def active_def)

lemma rat_weight_pos: "items_ok items \<Longrightarrow> length items < 2 ^ 53 \<Longrightarrow> (\<exists>it \<in> set items. active it) \<longleftrightarrow> 0 < rat_weight items"
proof (cases "\<exists>it \<in> set items. active it")
  case True
  assume ok: "items_ok items" and l: "length items < 2 ^ 53"
  from l have "of_nat (length items) < (of_nat (2 ^ 53) :: rat)" by (simp only: of_nat_less_iff)
  then have "of_nat (length items) * rel_err < 1" by (simp add: rel_err_def)
  moreover have "0 < weight_sum items" using weight_sum_pos [OF ok] True by blast
  ultimately have "0 < weight_sum items * (1 - of_nat (length items) * rel_err)" by simp
  with rat_weight_lower [OF ok] True show ?thesis by linarith
qed (use rat_weight_zero in auto)

lemma water_fill_step:
  assumes "items_ok items" "(R + 1) * (length items + 3) \<le> 2 ^ 53" "0 < R" "0 < rat_weight items"
  obtains items' R' where "water_fill items R = water_fill items' R'" "grows items items'" "R' < R"
    "R' + granted items' = R + granted items" "grows (map (grant R (rat_weight items)) items) items'"
proof -
  let ?A = "rat_weight items" and ?m = "map (grant R (rat_weight items)) items"
  have g: "gains R ?A items \<le> R" by (rule gains_bounded [OF assms(1,4,2)])
  have R: "R < 2 ^ 64" using assms(2) mult_le_mono2 [of 1 "length items + 3" "R + 1"] by simp
  have e: "give_shares R (Finite ?A) items 0 = Some (?m, gains R ?A items)"
    using give_shares_eq [OF assms(1), of 0 R ?A] share_exact [OF assms(1,4,2)] g R by simp
  have w: "active_weight items = Finite ?A" by (rule active_weight_exact [OF assms(1) count_small [OF assms(2)]])
  have gm: "grows items ?m" by (rule grows_shares [OF assms(1)])
  show thesis
  proof (cases "gains R ?A items = 0")
    case True
    obtain xs r n where b: "give_bytes ?m R 0 = (xs, r, n)" by (cases "give_bytes ?m R 0")
    have m: "?m = items" by (rule gains_zero [OF assms(1) True])
    have "\<exists>it \<in> set items. active it"
    proof (rule ccontr)
      assume "\<not> (\<exists>it \<in> set items. active it)"
      with rat_weight_zero [of items] assms(4) show False by simp
    qed
    with give_bytes_laws [OF grows_ok [OF gm assms(1)] b] assms(3) m
    have l: "grows items xs" "granted xs = granted items + n" "r + n = R" "0 < n" by auto
    have "water_fill items R = water_fill xs r" using assms(3,4) e b True l(4) by (subst water_fill.simps) (simp add: Let_def w)
    from that [OF this l(1)] l m show thesis by simp
  next
    case False
    have "water_fill items R = water_fill ?m (u64_sub R (gains R ?A items))"
      using assms(3,4) e False by (subst water_fill.simps) (simp add: Let_def w)
    moreover have "u64_sub R (gains R ?A items) = R - gains R ?A items" using g by (simp add: u64_sub_def)
    ultimately show thesis
      using that [of ?m "R - gains R ?A items"] gm g False assms(3) grows_refl [OF grows_ok [OF gm assms(1)]] by (simp add: granted_shares)
  qed
qed

lemma water_fill_laws:
  assumes "items_ok items" "(R + 1) * (length items + 3) \<le> 2 ^ 53"
  shows "\<exists>items'. water_fill items R = Some items' \<and> grows items items' \<and> granted items' = granted items + min R (unmet items)"
  using assms
proof (induction R arbitrary: items rule: less_induct)
  case (less R)
  have "length items + 3 \<le> (R + 1) * (length items + 3)" by simp
  then have l: "length items < 2 ^ 53" using less.prems(2) by linarith
  show ?case
  proof (cases "0 < R \<and> 0 < rat_weight items")
    case True
    then obtain xs r where w: "water_fill items R = water_fill xs r" "grows items xs" "r < R" "r + granted xs = R + granted items"
      using water_fill_step [OF less.prems] by blast
    have "(r + 1) * (length xs + 3) \<le> (R + 1) * (length items + 3)" using w(3) by (simp add: grows_length [OF w(2)])
    then obtain ys where y: "water_fill xs r = Some ys" "grows xs ys" "granted ys = granted xs + min r (unmet xs)"
      using less.IH [OF w(3) grows_ok [OF w(2) less.prems(1)]] less.prems(2) by (meson le_trans)
    from grows_sums [OF w(2)] w(3,4) y(3) have "granted ys = granted items + min R (unmet items)" by linarith
    with w y grows_trans show ?thesis by metis
  next
    case False
    then have "R = 0 \<or> unmet items = 0" using rat_weight_pos [OF less.prems(1) l] unmet_active [of items] by auto
    moreover have "water_fill items R = Some items"
      using False active_weight_exact [OF less.prems(1) l] by (subst water_fill.simps) (auto simp: Let_def)
    ultimately show ?thesis using grows_refl [OF less.prems(1)] by auto
  qed
qed

text \<open>No tenant ends below its share of the first round.\<close>

lemma water_fill_share:
  assumes "items_ok items" "(R + 1) * (length items + 3) \<le> 2 ^ 53" "water_fill items R = Some items'"
  shows "grows (map (grant R (rat_weight items)) items) items'"
proof (cases "0 < R \<and> 0 < rat_weight items")
  case True
  then obtain xs r where w: "water_fill items R = water_fill xs r" "grows items xs" "r < R" "grows (map (grant R (rat_weight items)) items) xs"
    using water_fill_step [OF assms(1,2)] by blast
  have "(r + 1) * (length xs + 3) \<le> (R + 1) * (length items + 3)" using w(3) by (simp add: grows_length [OF w(2)])
  then have "grows xs items'"
    using water_fill_laws [OF grows_ok [OF w(2) assms(1)], of r] assms(2,3) w(1) by fastforce
  with w(4) grows_trans show ?thesis by blast
next
  case False
  have "length items + 3 \<le> (R + 1) * (length items + 3)" by simp
  then have l: "length items < 2 ^ 53" using assms(2) by linarith
  then have z: "R = 0 \<or> \<not> (\<exists>it \<in> set items. active it)" using False rat_weight_pos [OF assms(1)] by auto
  have "rat_share 0 A d = 0" for A d by (simp add: rat_share_def int_to_float_def fmul_def fdiv_def)
  with z have "gain R (rat_weight items) it = 0" if "it \<in> set items" for it
    using that by (auto simp: gain_def active_def)
  then have "map (grant R (rat_weight items)) items = items" by (auto simp: grant_def intro: map_idI)
  moreover have "water_fill items R = Some items"
    using False active_weight_exact [OF assms(1) l] by (subst water_fill.simps) (auto simp: Let_def)
  ultimately show ?thesis using grows_refl [OF assms(1)] assms(3) by simp
qed

section \<open>Grants\<close>

lemma foldl_map_upd: "foldl (\<lambda>m x. m(k x \<mapsto> v x)) m xs = m ++ map_of (rev (map (\<lambda>x. (k x, v x)) xs))"
  by (induction xs arbitrary: m) simp_all

lemma map_of_item:
  assumes "distinct (map (td_tenant \<circ> fst) items)" "it \<in> set items"
  shows "map_of (rev (map (\<lambda>it. (td_tenant (fst it), snd it)) items)) (td_tenant (fst it)) = Some (snd it)"
  using assms by (intro map_of_is_SomeI) (auto simp: rev_map [symmetric] comp_def)

lemma share_items_ok: "\<forall>d \<in> set demands. td_demand_bytes d < 2 ^ 64 \<and> td_weight d \<le> 2 ^ 900 \<Longrightarrow> items_ok (share_items demands)"
  by (auto simp: items_ok_def share_items_def)

text \<open>What the final map says of a tenant with an item and of one without.\<close>

lemma grants_of:
  fixes items :: "item list"
  assumes "distinct (map td_tenant demands)" "map fst items = filter (\<lambda>d. 0 < td_demand_bytes d \<and> 0 < td_weight d) demands"
  defines "g \<equiv> foldl (\<lambda>m it. m(td_tenant (fst it) \<mapsto> snd it)) (foldl (\<lambda>m d. m(td_tenant d \<mapsto> 0)) Map.empty demands) items"
  shows "it \<in> set items \<Longrightarrow> g (td_tenant (fst it)) = Some (snd it)"
    and "d \<in> set demands \<Longrightarrow> d \<notin> fst ` set items \<Longrightarrow> g (td_tenant d) = Some 0"
proof -
  have t: "map (td_tenant \<circ> fst) items = map td_tenant (filter (\<lambda>d. 0 < td_demand_bytes d \<and> 0 < td_weight d) demands)"
    unfolding assms(2) [symmetric] by simp
  have dist: "distinct (map (td_tenant \<circ> fst) items)" unfolding t using assms(1) by (rule distinct_map_filter)
  { assume "it \<in> set items"
    from map_of_item [OF dist this] show "g (td_tenant (fst it)) = Some (snd it)" by (simp add: g_def foldl_map_upd map_add_def) }
  { assume d: "d \<in> set demands" "d \<notin> fst ` set items"
    have "td_tenant d \<notin> (\<lambda>it. td_tenant (fst it)) ` set items"
    proof
      assume "td_tenant d \<in> (\<lambda>it. td_tenant (fst it)) ` set items"
      then obtain it where it: "it \<in> set items" "td_tenant d = td_tenant (fst it)" by blast
      then have "fst it \<in> set demands" using assms(2) by (metis filter_is_subset image_eqI image_set subsetD)
      with d it assms(1) show False by (metis (no_types, lifting) distinct_map image_eqI inj_on_eq_iff)
    qed
    then have "map_of (rev (map (\<lambda>it. (td_tenant (fst it), snd it)) items)) (td_tenant d) = None"
      by (simp add: map_of_eq_None_iff image_image)
    moreover have "map_of (rev (map (\<lambda>d. (td_tenant d, 0 :: nat)) demands)) (td_tenant d) = Some 0"
      using assms(1) d(1) by (intro map_of_is_SomeI) (auto simp: rev_map [symmetric] comp_def)
    ultimately show "g (td_tenant d) = Some 0"
      by (simp add: g_def foldl_map_upd map_add_def) }
qed

lemma grows_fst: "grows xs ys \<Longrightarrow> map fst ys = map fst xs"
  unfolding grows_def by (induction xs ys rule: list_all2_induct) auto

lemma sum_filter_zero: "(\<And>x. x \<in> set xs \<Longrightarrow> \<not> P x \<Longrightarrow> f x = (0 :: nat)) \<Longrightarrow> sum_list (map f (filter P xs)) = sum_list (map f xs)"
  by (induction xs) auto

text \<open>An item of the result is within the demand and has the share of the first round.\<close>

lemma item_served:
  assumes "grows items xs" "grows (map (grant R A) items) xs" "\<forall>it \<in> set items. snd it = 0" "it \<in> set xs"
  shows "snd it \<le> td_demand_bytes (fst it) \<and> min (td_demand_bytes (fst it)) (rat_share R A (fst it)) \<le> snd it"
proof -
  obtain i where i: "i < length xs" "it = xs ! i" using assms(4) by (auto simp: in_set_conv_nth)
  have l: "length items = length xs" using grows_length [OF assms(1)] by simp
  have "fst (xs ! i) = fst (items ! i)" "snd (xs ! i) \<le> td_demand_bytes (fst (items ! i))" "snd (grant R A (items ! i)) \<le> snd (xs ! i)"
    using assms(1,2) i(1) l by (auto simp: grows_def list_all2_conv_all_nth)
  moreover have "snd (items ! i) = 0" using assms(3) i(1) l by simp
  ultimately show ?thesis using i(2) by (simp add: grant_def gain_def)
qed

text \<open>The map of grants, tenant by tenant and in total.\<close>

lemma grants_served:
  fixes xs :: "item list" and lower :: "TenantDemand \<Rightarrow> nat"
  assumes "distinct (map td_tenant demands)" and f: "map fst xs = filter (\<lambda>d. 0 < td_demand_bytes d \<and> 0 < td_weight d) demands"
    and served: "\<And>it. it \<in> set xs \<Longrightarrow> snd it \<le> td_demand_bytes (fst it) \<and> min (td_demand_bytes (fst it)) (lower (fst it)) \<le> snd it"
  defines "g \<equiv> foldl (\<lambda>m it. m(td_tenant (fst it) \<mapsto> snd it)) (foldl (\<lambda>m d. m(td_tenant d \<mapsto> 0)) Map.empty demands) xs"
  shows "d \<in> set demands \<Longrightarrow> \<exists>x. g (td_tenant d) = Some x \<and> x \<le> td_demand_bytes d \<and> (0 < td_weight d \<longrightarrow> min (td_demand_bytes d) (lower d) \<le> x)"
    and "sum_list (map (the \<circ> g \<circ> td_tenant) demands) = granted xs"
proof -
  let ?P = "\<lambda>d. 0 < td_demand_bytes d \<and> 0 < td_weight d"
  note G = grants_of [OF assms(1) f, folded g_def]
  have rest: "g (td_tenant d) = Some 0" if "d \<in> set demands" "\<not> ?P d" for d
  proof (rule G(2) [OF that(1)])
    have "fst ` set xs = set (filter ?P demands)" using f by (metis list.set_map)
    with that(2) show "d \<notin> fst ` set xs" by simp
  qed
  show "\<exists>x. g (td_tenant d) = Some x \<and> x \<le> td_demand_bytes d \<and> (0 < td_weight d \<longrightarrow> min (td_demand_bytes d) (lower d) \<le> x)"
    if d: "d \<in> set demands"
  proof (cases "?P d")
    case True
    then have "\<exists>it \<in> set xs. fst it = d" using d arg_cong [OF f, of set] by (force simp del: set_od_keys)
    with G(1) served show ?thesis by blast
  next
    case False
    then have "0 < td_weight d \<longrightarrow> td_demand_bytes d = 0" by auto
    with rest [OF d False] show ?thesis by (intro exI [of _ 0]) simp
  qed
  have "sum_list (map (the \<circ> g \<circ> td_tenant) demands) = sum_list (map (the \<circ> g \<circ> td_tenant) (map fst xs))"
    unfolding f by (rule sum_filter_zero [symmetric]) (use rest in auto)
  also have "\<dots> = granted xs" unfolding granted_def map_map by (rule arg_cong [OF map_cong]) (use G(1) in auto)
  finally show "sum_list (map (the \<circ> g \<circ> td_tenant) demands) = granted xs" .
qed

section \<open>Weights that overflow\<close>

text \<open>Two tenants whose finite weights add up to \<open>2 ^ 1024\<close>: the sum is infinite, the share of a tenant is infinity divided by
  infinity, and its conversion to an integer is undefined behaviour. The code does not bound the weights.\<close>

definition heavy_weight :: pyfloat where
  "heavy_weight = 2 ^ 1023"

definition heavy_demands :: "TenantDemand list" where
  "heavy_demands = [\<lparr>td_tenant = ''a'', td_demand_bytes = 10, td_weight = heavy_weight\<rparr>, \<lparr>td_tenant = ''b'', td_demand_bytes = 10, td_weight = heavy_weight\<rparr>]"

lemma heavy_weights_undefined:
  "active_weight (share_items heavy_demands) = Infinity" "AllocateFairShare heavy_demands 10 = None"
proof -
  have f: "fl (of_int m * heavy_weight) = of_int m * heavy_weight" if "\<bar>m\<bar> \<le> 2 ^ 53" for m
    using fl_exact [OF that, of 1023] by (simp add: power_int_def heavy_weight_def)
  have p: "0 < heavy_weight" "heavy_weight < 2 ^ 1024" "\<not> 2 * heavy_weight < 2 ^ 1024" "\<not> 10 * heavy_weight < 2 ^ 1024"
    by (simp_all add: heavy_weight_def)
  have d: "dadd (Finite 0) (Finite heavy_weight) = Finite heavy_weight" "dadd (Finite heavy_weight) (Finite heavy_weight) = Infinity"
    using f [of 1] f [of 2] p by (simp_all add: to_double_def)
  have m: "dmul (Finite (int_to_float 10)) (Finite heavy_weight) = Infinity"
    using f [of 10] f64.rnd_int [of 10] p(4) by (simp add: to_double_def int_to_float_def)
  have i: "share_items heavy_demands = [(\<lparr>td_tenant = ''a'', td_demand_bytes = 10, td_weight = heavy_weight\<rparr>, 0),
      (\<lparr>td_tenant = ''b'', td_demand_bytes = 10, td_weight = heavy_weight\<rparr>, 0)]" using p(1) by (simp add: share_items_def heavy_demands_def)
  show w: "active_weight (share_items heavy_demands) = Infinity" by (simp add: active_weight_def i d del: dadd.simps)
  have "share_of 10 Infinity \<lparr>td_tenant = t, td_demand_bytes = 10, td_weight = heavy_weight\<rparr> = None" for t
    by (simp add: share_of_def m del: dmul.simps)
  then have "give_shares 10 Infinity (share_items heavy_demands) 0 = None" by (simp add: i u64_sub_def)
  then have "water_fill (share_items heavy_demands) 10 = None" using w by (subst water_fill.simps) simp
  then show "AllocateFairShare heavy_demands 10 = None" by (simp add: AllocateFairShare_def)
qed

section \<open>Properties\<close>

text \<open>C12. Fair sharing is exact in spite of its floating-point shares: for distinct tenants the loop ends, nobody gets more than
  the demand, the grants add up to the smaller of the capacity and the demand of the tenants with a positive
  weight, so nothing is handed out twice and nothing is withheld, and every such tenant gets at least the smaller
  of its demand and its weighted share of the whole capacity. The bound on capacity times tenants keeps the
  rounding errors of a round below one byte, the bound on the weights keeps their sum and the products finite, so that
  no share is converted to an integer with undefined behaviour.\<close>
theorem fair_share_exact:
  assumes "distinct (map td_tenant demands)" "\<forall>d \<in> set demands. td_demand_bytes d < 2 ^ 64 \<and> td_weight d \<le> 2 ^ 900"
    and "(capacity_bytes + 1) * (length demands + 3) \<le> 2 ^ 53"
  shows "\<exists>grants. AllocateFairShare demands capacity_bytes = Some grants
    \<and> (\<forall>d \<in> set demands. \<exists>g. grants (td_tenant d) = Some g \<and> g \<le> td_demand_bytes d
         \<and> (0 < td_weight d \<and> 0 < td_demand_bytes d \<longrightarrow>
              (\<exists>share. share_of capacity_bytes (active_weight (share_items demands)) d = Some share \<and> min (td_demand_bytes d) share \<le> g)))
    \<and> sum_list (map (the \<circ> grants \<circ> td_tenant) demands) = min capacity_bytes (sum_list (map td_demand_bytes (filter (\<lambda>d. 0 < td_weight d) demands)))"
proof -
  let ?P = "\<lambda>d. 0 < td_demand_bytes d \<and> 0 < td_weight d"
  define items where "items = share_items demands"
  have items: "items = map (\<lambda>d. (d, 0)) (filter ?P demands)" by (simp add: items_def share_items_def)
  have ok: "items_ok items" unfolding items_def by (rule share_items_ok [OF assms(2)])
  have "length items \<le> length demands" by (simp add: items)
  then have "(capacity_bytes + 1) * (length items + 3) \<le> (capacity_bytes + 1) * (length demands + 3)" by (intro mult_le_mono2) simp
  then have b: "(capacity_bytes + 1) * (length items + 3) \<le> 2 ^ 53" using assms(3) by linarith
  obtain xs where x: "water_fill items capacity_bytes = Some xs" "grows items xs" "granted xs = granted items + min capacity_bytes (unmet items)"
    using water_fill_laws [OF ok b] by blast
  have f: "map fst xs = filter ?P demands" using grows_fst [OF x(2)] by (simp add: items comp_def)
  have zero: "\<forall>it \<in> set items. snd it = 0" by (auto simp: items)
  note G = grants_served [where lower = "rat_share capacity_bytes (rat_weight items)", OF assms(1) f
      item_served [OF x(2) water_fill_share [OF ok b x(1)] zero]]
  have "granted xs = min capacity_bytes (unmet items)" by (simp add: x(3)) (simp add: granted_def items comp_def)
  also have "unmet items = sum_list (map td_demand_bytes (filter (\<lambda>d. 0 < td_weight d) demands))"
    unfolding unmet_def items by (induction demands) auto
  finally have total: "granted xs = min capacity_bytes (sum_list (map td_demand_bytes (filter (\<lambda>d. 0 < td_weight d) demands)))" .
  define grants where "grants = foldl (\<lambda>m it. m(td_tenant (fst it) \<mapsto> snd it)) (foldl (\<lambda>m d. m(td_tenant d \<mapsto> 0)) Map.empty demands) xs"
  have "AllocateFairShare demands capacity_bytes = Some grants"
    by (simp add: AllocateFairShare_def items_def [symmetric] x(1) grants_def)
  moreover have "share_of capacity_bytes (active_weight items) d = Some (rat_share capacity_bytes (rat_weight items) d)"
    if "d \<in> set demands" "0 < td_weight d \<and> 0 < td_demand_bytes d" for d
  proof -
    have it: "(d, 0) \<in> set items" "active (d, 0)" using that by (auto simp: items active_def)
    have l: "length items < 2 ^ 53" by (rule count_small [OF b])
    have "0 < rat_weight items" using rat_weight_pos [OF ok l] it by blast
    from share_exact [OF ok this b it] active_weight_exact [OF ok l] show ?thesis by simp
  qed
  ultimately show ?thesis using G [folded grants_def] total unfolding items_def by metis
qed

definition demo_demands :: "TenantDemand list" where
  "demo_demands = [\<lparr>td_tenant = ''a'', td_demand_bytes = 8, td_weight = 1\<rparr>, \<lparr>td_tenant = ''b'', td_demand_bytes = 2, td_weight = 3\<rparr>,
     \<lparr>td_tenant = ''c'', td_demand_bytes = 5, td_weight = 0\<rparr>]"

theorem fair_share_exact_witness:
  "\<exists>grants. AllocateFairShare demo_demands 7 = Some grants \<and> sum_list (map (the \<circ> grants \<circ> td_tenant) demo_demands) = 7"
proof -
  have "distinct (map td_tenant demo_demands)" "\<forall>d \<in> set demo_demands. td_demand_bytes d < 2 ^ 64 \<and> td_weight d \<le> 2 ^ 900"
    "(7 + 1) * (length demo_demands + 3) \<le> 2 ^ 53" by (simp_all add: demo_demands_def)
  from fair_share_exact [OF this] obtain grants where "AllocateFairShare demo_demands 7 = Some grants"
    "sum_list (map (the \<circ> grants \<circ> td_tenant) demo_demands) = min 7 (sum_list (map td_demand_bytes (filter (\<lambda>d. 0 < td_weight d) demo_demands)))"
    by blast
  then show ?thesis by (simp add: demo_demands_def)
qed

end
