(* ===== verification/Sharded_Store.thy ===== *)
theory Sharded_Store
  imports Storage_Safety
begin

text \<open>
  The sharded store \<^verbatim>\<open>src/storage/sharded_tiered_store.h\<close>: keys are spread over tiered stores with their own mutexes by
  a hash, an argument of the model. Each shard gets its part of the global capacities.
\<close>

section \<open>Model\<close>

type_synonym ShardedTieredStore = "TieredStorageManager list"

definition per_shard :: "nat \<Rightarrow> TierConfig \<Rightarrow> TierConfig" where
  "per_shard n config =
     config\<lparr>hbm_capacity_bytes := map_option (\<lambda>c. c div n) (hbm_capacity_bytes config),
            dram_capacity_bytes := map_option (\<lambda>c. c div n) (dram_capacity_bytes config),
            nvme_capacity_bytes := map_option (\<lambda>c. c div n) (nvme_capacity_bytes config)\<rparr>"

definition ShardedTieredStore_init :: "TierConfig \<Rightarrow> nat \<Rightarrow> ShardedTieredStore" where
  "ShardedTieredStore_init global_config shard_count =
     (let n = (if shard_count = 0 then 1 else shard_count) in replicate n (TieredStorageManager_init (per_shard n global_config)))"

definition shard_of :: "(BlockKey \<Rightarrow> nat) \<Rightarrow> BlockKey \<Rightarrow> ShardedTieredStore \<Rightarrow> nat" where
  "shard_of hash key ss = hash key mod length ss"

text \<open>An operation on one shard.\<close>

definition on_shard :: "nat \<Rightarrow> (TieredStorageManager \<Rightarrow> ('a \<times> TieredStorageManager) option) \<Rightarrow> ShardedTieredStore \<Rightarrow> ('a \<times> ShardedTieredStore) option" where
  "on_shard i f ss = map_option (\<lambda>(r, m). (r, ss[i := m])) (f (ss ! i))"

definition ShardedWrite :: "(BlockKey \<Rightarrow> nat) \<Rightarrow> KVCacheBlock \<Rightarrow> Tier \<Rightarrow> ShardedTieredStore \<Rightarrow> (status \<times> ShardedTieredStore) option" where
  "ShardedWrite hash block target ss = on_shard (shard_of hash (kb_key block) ss) (ManagerWrite block target 0) ss"

definition ShardedRead :: "(BlockKey \<Rightarrow> nat) \<Rightarrow> BlockKey \<Rightarrow> ShardedTieredStore \<Rightarrow> ((StatusCode + KVCacheBlock) \<times> ShardedTieredStore) option" where
  "ShardedRead hash key ss = on_shard (shard_of hash key ss) (ManagerRead key) ss"

definition ShardedLocate :: "(BlockKey \<Rightarrow> nat) \<Rightarrow> BlockKey \<Rightarrow> ShardedTieredStore \<Rightarrow> Tier option" where
  "ShardedLocate hash key ss = ManagerLocate key (ss ! shard_of hash key ss)"

fun ShardedPrefetch :: "(BlockKey \<Rightarrow> nat) \<Rightarrow> BlockKey list \<Rightarrow> ShardedTieredStore \<Rightarrow> (status \<times> ShardedTieredStore) option" where
  "ShardedPrefetch hash [] ss = Some (Ok, ss)"
| "ShardedPrefetch hash (key # keys) ss =
     Option.bind (on_shard (shard_of hash key ss) (ManagerPrefetch [key]) ss) (\<lambda>(st, ss').
       if st = Ok then ShardedPrefetch hash keys ss' else Some (st, ss'))"

fun enforce_shards :: "Tier \<Rightarrow> nat list \<Rightarrow> ShardedTieredStore \<Rightarrow> (status \<times> ShardedTieredStore) option" where
  "enforce_shards tier [] ss = Some (Ok, ss)"
| "enforce_shards tier (i # is) ss =
     Option.bind (on_shard i (EnforceCapacity tier) ss) (\<lambda>(st, ss').
       if st = Ok then enforce_shards tier is ss' else Some (st, ss'))"

definition ShardedEnforceCapacity :: "Tier \<Rightarrow> ShardedTieredStore \<Rightarrow> (status \<times> ShardedTieredStore) option" where
  "ShardedEnforceCapacity tier ss = enforce_shards tier [0..<length ss] ss"

definition ShardedOccupancy :: "Tier \<Rightarrow> ShardedTieredStore \<Rightarrow> nat \<times> nat" where
  "ShardedOccupancy tier ss =
     foldl (\<lambda>total m. (u64_add (fst total) (fst (ManagerOccupancy tier m)), u64_add (snd total) (snd (ManagerOccupancy tier m)))) (0, 0) ss"

section \<open>Invariant\<close>

text \<open>Every shard is a sound store over its part of the capacities and holds only keys that hash to it.\<close>

definition sharded_ok :: "(BlockKey \<Rightarrow> nat) \<Rightarrow> TierConfig \<Rightarrow> ShardedTieredStore \<Rightarrow> bool" where
  "sharded_ok hash config ss \<longleftrightarrow> ss \<noteq> []
     \<and> (\<forall>i < length ss. store_ok (ss ! i) \<and> mgr_config (ss ! i) = per_shard (length ss) config
          \<and> (\<forall>k. mgr_content (ss ! i) k \<noteq> None \<longrightarrow> shard_of hash k ss = i))"

lemma per_shard_capacity: "CapacityOf (per_shard n config) t = CapacityOf config t div n"
  by (cases t) (auto simp: CapacityOf_def per_shard_def split: option.splits)

lemma per_shard_ok: "config_ok config \<Longrightarrow> config_ok (per_shard n config)"
  unfolding config_ok_def per_shard_capacity by (auto simp: per_shard_def intro: order_trans [OF div_le_dividend])

lemma sharded_init_ok: "config_ok config \<Longrightarrow> sharded_ok hash config (ShardedTieredStore_init config n)"
  using store_ok_init [OF per_shard_ok, of config]
  by (auto simp: sharded_ok_def ShardedTieredStore_init_def Let_def mgr_content_def TieredStorageManager_init_def)

lemma shard_in_range: "ss \<noteq> [] \<Longrightarrow> shard_of hash k ss < length ss"
  by (simp add: shard_of_def)

lemma sharded_update:
  assumes "sharded_ok hash config ss" "i < length ss" "store_ok m" "mgr_config m = mgr_config (ss ! i)"
    and "\<And>k. mgr_content m k \<noteq> None \<Longrightarrow> mgr_content (ss ! i) k \<noteq> None \<or> shard_of hash k ss = i"
  shows "sharded_ok hash config (ss[i := m])"
  using assms unfolding sharded_ok_def by (auto simp: nth_list_update shard_of_def)

lemma sharded_write_ok:
  assumes "sharded_ok hash config ss"
  shows "\<exists>st ss'. ShardedWrite hash block target ss = Some (st, ss') \<and> sharded_ok hash config ss'"
proof -
  let ?i = "shard_of hash (kb_key block) ss"
  have i: "?i < length ss" "store_ok (ss ! ?i)" using assms by (auto simp: sharded_ok_def shard_in_range)
  obtain st m where w: "ManagerWrite block target 0 (ss ! ?i) = Some (st, m)" "store_ok m" "mgr_config m = mgr_config (ss ! ?i)"
      "st = Ok \<longrightarrow> mgr_content m \<subseteq>\<^sub>m (mgr_content (ss ! ?i))(kb_key block \<mapsto> block)" "st \<noteq> Ok \<longrightarrow> m = ss ! ?i"
    using ManagerWrite_ok [OF i(2), of block target 0] by blast
  have "sharded_ok hash config (ss[?i := m])"
  proof (rule sharded_update [OF assms i(1) w(2,3)])
    fix k assume k: "mgr_content m k \<noteq> None"
    show "mgr_content (ss ! ?i) k \<noteq> None \<or> shard_of hash k ss = ?i"
      using w(4,5) k by (cases "k = kb_key block"; cases "st = Ok") (auto simp: map_le_def dom_def dest: spec [of _ k])
  qed
  with w(1) show ?thesis by (simp add: ShardedWrite_def on_shard_def)
qed

lemma shrink_ok:
  assumes "sharded_ok hash config ss" "i < length ss" "store_ok m" "mgr_config m = mgr_config (ss ! i)" "mgr_content m \<subseteq>\<^sub>m mgr_content (ss ! i)"
  shows "sharded_ok hash config (ss[i := m])"
  by (rule sharded_update [OF assms(1-4)]) (use assms(5) in \<open>auto simp: map_le_def dom_def\<close>)

lemma sharded_read_ok:
  assumes "sharded_ok hash config ss"
  shows "\<exists>r ss'. ShardedRead hash key ss = Some (r, ss') \<and> sharded_ok hash config ss'
    \<and> (\<forall>b. r = Inr b \<longrightarrow> mgr_content (ss ! shard_of hash key ss) key = Some b)"
proof -
  let ?i = "shard_of hash key ss"
  have i: "?i < length ss" "store_ok (ss ! ?i)" using assms by (auto simp: sharded_ok_def shard_in_range)
  obtain r m where r: "ManagerRead key (ss ! ?i) = Some (r, m)" "store_ok m" "mgr_config m = mgr_config (ss ! ?i)"
      "mgr_content m \<subseteq>\<^sub>m mgr_content (ss ! ?i)"
      "case r of Inr block \<Rightarrow> mgr_content (ss ! ?i) key = Some block
       | Inl code \<Rightarrow> (code = kNotFound \<and> mgr_content (ss ! ?i) key = None \<and> m = ss ! ?i)
                  \<or> (code = kInternal \<and> mgr_content (ss ! ?i) key \<noteq> None \<and> mgr_content m key = None)"
    using ManagerRead_ok [OF i(2), of key] by blast
  then have "\<forall>b. r = Inr b \<longrightarrow> mgr_content (ss ! ?i) key = Some b" by (cases r) auto
  with r(1) shrink_ok [OF assms i(1) r(2-4)] show ?thesis by (simp add: ShardedRead_def on_shard_def)
qed

lemma sharded_prefetch_ok:
  "sharded_ok hash config ss \<Longrightarrow> \<exists>st ss'. ShardedPrefetch hash keys ss = Some (st, ss') \<and> sharded_ok hash config ss'"
proof (induction keys arbitrary: ss)
  case (Cons key keys)
  let ?i = "shard_of hash key ss"
  have i: "?i < length ss" "store_ok (ss ! ?i)" using Cons.prems by (auto simp: sharded_ok_def shard_in_range)
  obtain st m where "ManagerPrefetch [key] (ss ! ?i) = Some (st, m)" "store_ok m" "mgr_config m = mgr_config (ss ! ?i)"
      "mgr_content m \<subseteq>\<^sub>m mgr_content (ss ! ?i)"
    using ManagerPrefetch_ok [OF i(2), of "[key]"] by blast
  with shrink_ok [OF Cons.prems i(1)] Cons.IH [of "ss[?i := m]"] show ?case by (auto simp: on_shard_def)
qed simp

text \<open>Between operations every shard is within its thresholds, so enforcing a capacity changes nothing.\<close>

lemma sharded_enforce_ok:
  assumes "sharded_ok hash config ss"
  shows "ShardedEnforceCapacity tier ss = Some (Ok, ss)"
proof -
  have "enforce_shards tier is ss = Some (Ok, ss)" if "set is \<subseteq> {..<length ss}" for "is"
    using that
  proof (induction "is")
    case (Cons i "is")
    then have "fits (ss ! i) tier" using assms by (auto simp: sharded_ok_def store_ok_def)
    then have "EnforceCapacity tier (ss ! i) = Some (Ok, ss ! i)" by (subst EnforceCapacity.simps) (simp add: fits_def)
    with Cons show ?case by (simp add: on_shard_def)
  qed simp
  then show ?thesis by (simp add: ShardedEnforceCapacity_def atLeast0LessThan)
qed

section \<open>Runs\<close>

inductive sharded_reach :: "(BlockKey \<Rightarrow> nat) \<Rightarrow> TierConfig \<Rightarrow> nat \<Rightarrow> ShardedTieredStore \<Rightarrow> bool" for hash config n where
  init: "sharded_reach hash config n (ShardedTieredStore_init config n)"
| put: "sharded_reach hash config n ss \<Longrightarrow> ShardedWrite hash block target ss = Some (st, ss') \<Longrightarrow> sharded_reach hash config n ss'"
| get: "sharded_reach hash config n ss \<Longrightarrow> ShardedRead hash key ss = Some (r, ss') \<Longrightarrow> sharded_reach hash config n ss'"
| prefetch: "sharded_reach hash config n ss \<Longrightarrow> ShardedPrefetch hash keys ss = Some (st, ss') \<Longrightarrow> sharded_reach hash config n ss'"
| enforce: "sharded_reach hash config n ss \<Longrightarrow> ShardedEnforceCapacity tier ss = Some (st, ss') \<Longrightarrow> sharded_reach hash config n ss'"

lemma sharded_reach_ok:
  assumes "sharded_reach hash config n ss" "config_ok config"
  shows "sharded_ok hash config ss"
  using assms(1)
proof induction
  case init
  show ?case by (rule sharded_init_ok [OF assms(2)])
next
  case (put ss block target st ss')
  then show ?case using sharded_write_ok [of hash config ss block target] by auto
next
  case (get ss key r ss')
  then show ?case using sharded_read_ok [of hash config ss key] by auto
next
  case (prefetch ss keys st ss')
  then show ?case using sharded_prefetch_ok [of hash config ss keys] by auto
next
  case (enforce ss tier st ss')
  then show ?case using sharded_enforce_ok [of hash config ss tier] by auto
qed

text \<open>Sums of the shards that fit in 64 bits do not wrap.\<close>

lemma occupancy_sum:
  assumes "fst z + sum_list (map (\<lambda>m. fst (ManagerOccupancy tier m)) ss) < 2 ^ 64"
    and "snd z + sum_list (map (\<lambda>m. snd (ManagerOccupancy tier m)) ss) < 2 ^ 64"
  shows "foldl (\<lambda>total m. (u64_add (fst total) (fst (ManagerOccupancy tier m)), u64_add (snd total) (snd (ManagerOccupancy tier m)))) z ss
    = (fst z + sum_list (map (\<lambda>m. fst (ManagerOccupancy tier m)) ss), snd z + sum_list (map (\<lambda>m. snd (ManagerOccupancy tier m)) ss))"
  using assms
proof (induction ss arbitrary: z)
  case (Cons m ss)
  have "u64_add (fst z) (fst (ManagerOccupancy tier m)) = fst z + fst (ManagerOccupancy tier m)"
      "u64_add (snd z) (snd (ManagerOccupancy tier m)) = snd z + snd (ManagerOccupancy tier m)"
    using Cons.prems by (simp_all add: u64_add_def)
  with Cons.prems show ?case by (simp add: Cons.IH add.assoc)
qed simp

lemma shards_within:
  assumes "config_ok config" "sharded_ok hash config ss"
  shows "sum_list (map (\<lambda>m. snd (ManagerOccupancy tier m)) ss) = length ss * (CapacityOf config tier div length ss)"
    and "sum_list (map (\<lambda>m. fst (ManagerOccupancy tier m)) ss) \<le> length ss * (CapacityOf config tier div length ss)"
proof -
  have shard: "mgr_config m = per_shard (length ss) config" "fits m tier" if "m \<in> set ss" for m
    using that assms(2) by (auto simp: sharded_ok_def in_set_conv_nth store_ok_def)
  have c: "snd (ManagerOccupancy tier m) = CapacityOf config tier div length ss" if "m \<in> set ss" for m
    using shard(1) [OF that] by (simp add: ManagerOccupancy_def per_shard_capacity)
  have u: "fst (ManagerOccupancy tier m) \<le> CapacityOf config tier div length ss" if "m \<in> set ss" for m
    using shard [OF that] threshold_le_capacity [OF per_shard_ok [OF assms(1)], of "length ss" tier]
    by (simp add: ManagerOccupancy_def fits_def per_shard_capacity)
  have "sum_list (map (\<lambda>m. snd (ManagerOccupancy tier m)) ss) = sum_list (map (\<lambda>m. CapacityOf config tier div length ss) ss)"
    using c by (intro arg_cong [where f = sum_list] map_cong) auto
  then show "sum_list (map (\<lambda>m. snd (ManagerOccupancy tier m)) ss) = length ss * (CapacityOf config tier div length ss)"
    by (simp add: sum_list_triv)
  have "sum_list (map (\<lambda>m. fst (ManagerOccupancy tier m)) ss) \<le> sum_list (map (\<lambda>m. CapacityOf config tier div length ss) ss)"
    by (rule sum_list_mono) (rule u)
  then show "sum_list (map (\<lambda>m. fst (ManagerOccupancy tier m)) ss) \<le> length ss * (CapacityOf config tier div length ss)"
    by (simp add: sum_list_triv)
qed

section \<open>Properties\<close>

text \<open>C16. Whatever is written, read and prefetched, the occupancy of a tier summed over the shards is the
  sum of their byte counts without wrap-around and stays within the global capacity of that tier, of
  which the even split loses less than one byte per shard. A key is only ever in the shard it hashes
  to, so looking there is looking everywhere, and every operation returns, enforcing the capacities
  being without effect between operations.\<close>
theorem sharded_within_capacity:
  assumes "config_ok config" "sharded_reach hash config n ss"
  shows "ShardedOccupancy tier ss = (\<Sum>m \<leftarrow> ss. used_bytes m tier, length ss * (CapacityOf config tier div length ss))
    \<and> fst (ShardedOccupancy tier ss) \<le> snd (ShardedOccupancy tier ss)
    \<and> snd (ShardedOccupancy tier ss) \<le> CapacityOf config tier
    \<and> CapacityOf config tier < snd (ShardedOccupancy tier ss) + length ss
    \<and> (ShardedLocate hash key ss = Some tier \<longleftrightarrow> (\<exists>i < length ss. ManagerLocate key (ss ! i) = Some tier))
    \<and> (\<exists>st ss'. ShardedWrite hash block target ss = Some (st, ss'))
    \<and> (\<exists>st ss'. ShardedPrefetch hash keys ss = Some (st, ss'))
    \<and> (\<exists>r ss'. ShardedRead hash key ss = Some (r, ss') \<and> (\<forall>b. r = Inr b \<longrightarrow> (\<exists>i < length ss. mgr_content (ss ! i) key = Some b)))
    \<and> ShardedEnforceCapacity tier ss = Some (Ok, ss)"
proof -
  have ok: "sharded_ok hash config ss" by (rule sharded_reach_ok [OF assms(2,1)])
  let ?c = "CapacityOf config tier" and ?n = "length ss"
  have n: "0 < ?n" and range: "shard_of hash key ss < ?n" using ok by (auto simp: sharded_ok_def shard_of_def)
  have "?c \<le> 2 ^ 53" using assms(1) by (simp add: config_ok_def)
  then have small: "?n * (?c div ?n) \<le> ?c" "?n * (?c div ?n) < 2 ^ 64" by (auto intro: le_less_trans [OF times_div_less_eq_dividend])
  have "ShardedOccupancy tier ss = (\<Sum>m \<leftarrow> ss. fst (ManagerOccupancy tier m), \<Sum>m \<leftarrow> ss. snd (ManagerOccupancy tier m))"
    using occupancy_sum [of "(0, 0)" tier ss] shards_within [OF assms(1) ok, of tier] small by (simp add: ShardedOccupancy_def)
  then have 1: "ShardedOccupancy tier ss = (\<Sum>m \<leftarrow> ss. used_bytes m tier, ?n * (?c div ?n))"
      "fst (ShardedOccupancy tier ss) \<le> snd (ShardedOccupancy tier ss)"
    using shards_within [OF assms(1) ok, of tier] by (simp_all add: ManagerOccupancy_def)
  have 2: "?c < ?n * (?c div ?n) + ?n" using n mod_less_divisor [OF n, of ?c] mult_div_mod_eq [of ?n ?c] by linarith
  have "i = shard_of hash key ss" if "i < ?n" "ManagerLocate key (ss ! i) = Some tier" for i
    using ok that by (auto simp: sharded_ok_def ManagerLocate_def mgr_content_def)
  with range have 3: "ShardedLocate hash key ss = Some tier \<longleftrightarrow> (\<exists>i < ?n. ManagerLocate key (ss ! i) = Some tier)"
    by (auto simp: ShardedLocate_def)
  from 1 2 3 small(1) range sharded_write_ok [OF ok, of block target] sharded_prefetch_ok [OF ok, of keys] sharded_read_ok [OF ok, of key]
    sharded_enforce_ok [OF ok, of tier]
  show ?thesis by auto
qed

theorem sharded_within_capacity_witness:
  "\<exists>ss. ShardedWrite (nat \<circ> bk_hash_id) (sized_block 1 4) kHBM (ShardedTieredStore_init small_config 2) = Some (Ok, ss)
     \<and> snd (ShardedOccupancy kHBM ss) = 10 \<and> fst (ShardedOccupancy kHBM ss) \<le> 10
     \<and> ShardedEnforceCapacity kHBM ss = Some (Ok, ss)"
proof -
  let ?h = "nat \<circ> bk_hash_id" and ?c = "per_shard 2 small_config" and ?ss = "ShardedTieredStore_init small_config 2"
  have facts: "EvictionThresholdOf ?c kHBM = 5" "ResolveConfiguredTier ?c kHBM = Some kHBM" by code_simp+
  have ss: "?ss ! shard_of ?h (kb_key (sized_block 1 4)) ?ss = TieredStorageManager_init ?c" "length ?ss = 2"
    by (simp_all add: ShardedTieredStore_init_def Let_def shard_of_def)
  have c: "store_ok (TieredStorageManager_init ?c)" "mgr_config (TieredStorageManager_init ?c) = ?c"
    using store_ok_init [OF per_shard_ok [OF small_config_facts(4)]] by (simp_all add: TieredStorageManager_init_def)
  from ManagerWrite_ok [OF c(1), of "sized_block 1 4" kHBM 0]
  obtain m where "ManagerWrite (sized_block 1 4) kHBM 0 (TieredStorageManager_init ?c) = Some (Ok, m)"
    by (auto simp: c(2) facts small_config_facts(3))
  then obtain ss where w: "ShardedWrite ?h (sized_block 1 4) kHBM ?ss = Some (Ok, ss)" "length ss = 2"
    using ss by (simp add: ShardedWrite_def on_shard_def)
  have "CapacityOf small_config kHBM = 10" by code_simp
  with sharded_within_capacity [OF small_config_facts(4) sharded_reach.put [OF sharded_reach.init w(1)], where tier = kHBM
      and key = "kb_key (sized_block 1 4)" and block = "sized_block 1 4" and target = kHBM and keys = "[]"] w
  show ?thesis by (intro exI [of _ ss]) (cases "ShardedOccupancy kHBM ss"; auto)
qed

end
