(* ===== verification/Block_Wire.thy ===== *)
theory Block_Wire
  imports Storage_Manager "HOL-Library.Word"
begin

text \<open>
  The wire format of \<^verbatim>\<open>src/datapath/data_path.cpp\<close>: a block as a header of 52 bytes in little endian and its two
  payloads. The integers of the header keep their width; \<^verbatim>\<open>size_t\<close> is a 64-bit word and its sums wrap.
  Copying an iterator range that does not lie in the vector is undefined behaviour, the value \<open>None\<close>.
\<close>

unbundle bit_operations_syntax

section \<open>Model\<close>

type_synonym u8 = "8 word"

record WireBlock =
  wb_hash_id :: "64 word"
  wb_layer :: "32 word"
  wb_version :: "16 word"
  wb_num_tokens :: "32 word"
  wb_num_heads :: "16 word"
  wb_head_dim :: "16 word"
  wb_dtype :: "16 word"
  wb_k_payload :: "u8 list"
  wb_v_payload :: "u8 list"

definition DTypeSizeBytes :: "16 word \<Rightarrow> nat" where
  "DTypeSizeBytes dtype =
     (if dtype = 0 \<or> dtype = 1 then 2 else if dtype = 2 \<or> dtype = 3 \<or> dtype = 5 \<or> dtype = 6 then 1
      else if dtype = 4 then 4 else 0)"

definition kMagic :: "32 word" where
  "kMagic = 0x424B564D"

definition kBlockSchemaVersion :: "16 word" where
  "kBlockSchemaVersion = 1"

definition kHeaderBytes :: nat where
  "kHeaderBytes = 8 + 4 + 2 + 2 + 8 + 4 + 4 + 2 + 2 + 8 + 8"

definition AppendLE :: "'a::len word \<Rightarrow> u8 list" where
  "AppendLE v = map (\<lambda>i. ucast (drop_bit (8 * i) v AND 0xFF)) [0..<LENGTH('a) div 8]"

definition ReadLE :: "u8 list \<Rightarrow> nat \<Rightarrow> 'a::len word" where
  "ReadLE bs offset = foldl (\<lambda>v i. v OR push_bit (8 * i) (ucast (bs ! (offset + i)))) 0 [0..<LENGTH('a) div 8]"

definition Serialize :: "WireBlock \<Rightarrow> u8 list" where
  "Serialize b =
     (let k = wb_k_payload b; v = wb_v_payload b; total = kHeaderBytes + length k + length v
      in AppendLE (of_nat total :: 64 word) @ AppendLE kMagic @ AppendLE (wb_version b) @ AppendLE (wb_dtype b)
         @ AppendLE (wb_hash_id b) @ AppendLE (wb_layer b) @ AppendLE (wb_num_tokens b) @ AppendLE (wb_num_heads b)
         @ AppendLE (wb_head_dim b) @ AppendLE (of_nat (length k) :: 64 word) @ AppendLE (of_nat (length v) :: 64 word)
         @ k @ v)"

text \<open>\<^verbatim>\<open>assign(begin + first, begin + last)\<close> with the offsets read as \<^verbatim>\<open>ptrdiff_t\<close>.\<close>

definition assign_range :: "u8 list \<Rightarrow> 64 word \<Rightarrow> 64 word \<Rightarrow> u8 list option" where
  "assign_range bs a b =
     (if 0 \<le> sint a \<and> sint a \<le> sint b \<and> sint b \<le> int (length bs)
      then Some (take (nat (sint b - sint a)) (drop (nat (sint a)) bs)) else None)"

definition Deserialize :: "u8 list \<Rightarrow> (StatusCode + WireBlock) option" where
  "Deserialize bs =
     (if length bs < kHeaderBytes then Some (Inl kInvalidArgument)
      else if (ReadLE bs 0 :: 64 word) \<noteq> of_nat (length bs) then Some (Inl kInvalidArgument)
      else if ReadLE bs 8 \<noteq> kMagic then Some (Inl kInvalidArgument)
      else if ReadLE bs 12 \<noteq> kBlockSchemaVersion then Some (Inl kInvalidArgument)
      else
        (let k_len = ReadLE bs 36; v_len = ReadLE bs 44; off = of_nat kHeaderBytes
         in if off + k_len + v_len \<noteq> of_nat (length bs) then Some (Inl kInvalidArgument)
            else
              (case (assign_range bs off (off + k_len), assign_range bs (off + k_len) (off + k_len + v_len)) of
                 (Some k, Some v) \<Rightarrow>
                   Some (Inr \<lparr>wb_hash_id = ReadLE bs 16, wb_layer = ReadLE bs 24, wb_version = ReadLE bs 12,
                              wb_num_tokens = ReadLE bs 28, wb_num_heads = ReadLE bs 32, wb_head_dim = ReadLE bs 34,
                              wb_dtype = ReadLE bs 14, wb_k_payload = k, wb_v_payload = v\<rparr>)
               | _ \<Rightarrow> None)))"

section \<open>Integers on the wire\<close>

lemma bit_foldl_or:
  "bit (foldl (\<lambda>v i. v OR f i) (a :: 'a::len word) is) n \<longleftrightarrow> bit a n \<or> (\<exists>i \<in> set is. bit (f i) n)"
  by (induction "is" arbitrary: a) (auto simp: bit_or_iff)

lemma and_0xFF: "(w :: 'a::len word) AND 0xFF = take_bit 8 w"
  by (simp add: take_bit_eq_mask mask_eq_exp_minus_1)

lemma bit_u8: "bit (w :: u8) n \<Longrightarrow> n < 8"
  using bit_imp_le_length [of w n] by simp

lemma bit_AppendLE:
  assumes "i < LENGTH('a) div 8"
  shows "bit (AppendLE (v :: 'a::len word) ! i) n \<longleftrightarrow> n < 8 \<and> bit v (8 * i + n)"
  using assms by (auto simp: AppendLE_def bit_ucast_iff and_0xFF bit_take_bit_iff bit_drop_bit_eq dest: bit_imp_le_length)

lemma length_AppendLE [simp]: "length (AppendLE (v :: 'a::len word)) = LENGTH('a) div 8"
  by (simp add: AppendLE_def)

lemma bit_ReadLE:
  assumes "8 dvd LENGTH('a)"
  shows "bit (ReadLE bs off :: 'a::len word) n \<longleftrightarrow> n < LENGTH('a) \<and> bit (bs ! (off + n div 8)) (n mod 8)"
proof -
  have "bit (ReadLE bs off :: 'a word) n \<longleftrightarrow> n < LENGTH('a) \<and> (\<exists>i < LENGTH('a) div 8. 8 * i \<le> n \<and> n - 8 * i < 8 \<and> bit (bs ! (off + i)) (n - 8 * i))"
    by (auto simp: ReadLE_def bit_foldl_or bit_push_bit_iff bit_ucast_iff dest: bit_u8)
  also have "\<dots> \<longleftrightarrow> n < LENGTH('a) \<and> bit (bs ! (off + n div 8)) (n mod 8)"
  proof (safe, goal_cases)
    case (1 i)
    then have "i = n div 8" by auto
    with 1 show ?case by (simp add: minus_mult_div_eq_mod)
  next
    case 2
    with assms show ?case by (intro exI [of _ "n div 8"]) (auto simp: div_less_iff_less_mult minus_mult_div_eq_mod)
  qed
  finally show ?thesis .
qed

lemma ReadLE_AppendLE:
  assumes "8 dvd LENGTH('a)" "length xs = off"
  shows "ReadLE (xs @ AppendLE v @ ys) off = (v :: 'a::len word)"
proof (rule bit_word_eqI)
  fix n assume n: "n < LENGTH('a)"
  then have i: "n div 8 < LENGTH('a) div 8" using assms(1) by (auto simp: div_less_iff_less_mult)
  then have "(xs @ AppendLE v @ ys) ! (off + n div 8) = AppendLE v ! (n div 8)" using assms(2) by (simp add: nth_append)
  then show "bit (ReadLE (xs @ AppendLE v @ ys) off :: 'a word) n \<longleftrightarrow> bit v n"
    using n by (simp add: bit_ReadLE [OF assms(1)] bit_AppendLE [OF i])
qed

lemma AppendLE_ReadLE:
  assumes "8 dvd LENGTH('a)" "off + LENGTH('a) div 8 \<le> length bs"
  shows "AppendLE (ReadLE bs off :: 'a::len word) = take (LENGTH('a) div 8) (drop off bs)"
proof (rule nth_equalityI)
  show "length (AppendLE (ReadLE bs off :: 'a word)) = length (take (LENGTH('a) div 8) (drop off bs))" using assms(2) by simp
next
  fix i assume "i < length (AppendLE (ReadLE bs off :: 'a word))"
  then have i: "i < LENGTH('a) div 8" by simp
  have "AppendLE (ReadLE bs off :: 'a word) ! i = bs ! (off + i)"
  proof (rule bit_word_eqI)
    fix n assume "n < LENGTH(8)"
    then have n: "n < 8" "8 * i + n < LENGTH('a)" using i assms(1) by auto
    then show "bit (AppendLE (ReadLE bs off :: 'a word) ! i) n \<longleftrightarrow> bit (bs ! (off + i)) n"
      by (simp add: bit_AppendLE [OF i] bit_ReadLE [OF assms(1)])
  qed
  with i assms(2) show "AppendLE (ReadLE bs off :: 'a word) ! i = take (LENGTH('a) div 8) (drop off bs) ! i" by simp
qed

text \<open>A field is read past the fields before it, and the read fields tile the header.\<close>

lemma ReadLE_skip [simp]: "length xs \<le> off \<Longrightarrow> ReadLE (xs @ ys) off = ReadLE ys (off - length xs)"
  by (simp add: ReadLE_def nth_append)

lemma ReadLE_first [simp]: "8 dvd LENGTH('a) \<Longrightarrow> ReadLE (AppendLE v @ ys) 0 = (v :: 'a::len word)"
  using ReadLE_AppendLE [of "[]" 0 v ys] by simp

lemma cut_slice: "take m (drop n bs) @ drop (n + m) bs = drop n bs"
  by (metis append_take_drop_id drop_drop add.commute)

lemmas header_cuts = cut_slice [of 8 0, simplified] cut_slice [of 4 8, simplified] cut_slice [of 2 12, simplified]
  cut_slice [of 2 14, simplified] cut_slice [of 8 16, simplified] cut_slice [of 4 24, simplified]
  cut_slice [of 4 28, simplified] cut_slice [of 2 32, simplified] cut_slice [of 2 34, simplified]
  cut_slice [of 8 36, simplified] cut_slice [of 8 44, simplified]

section \<open>Offsets\<close>

lemma sint_offset: "n < 2 ^ 63 \<Longrightarrow> sint (of_nat n :: 64 word) = int n"
  by (simp add: signed_of_nat signed_take_bit_int_eq_self)

lemma unat_offset: "n < 2 ^ 64 \<Longrightarrow> unat (of_nat n :: 64 word) = n"
  by (simp add: unat_of_nat)

lemma unat_u64: "unat (w :: 64 word) < 2 ^ 64"
proof -
  have "unat w < 2 ^ LENGTH(64)" by (rule unsigned_less)
  then show ?thesis by simp
qed

text \<open>An offset inside the vector is a small natural number.\<close>

lemma offset_cases:
  assumes "0 \<le> sint (w :: 64 word)" "sint w \<le> int n"
  obtains m where "w = of_nat m" "sint w = int m" "m \<le> n"
proof (rule that [of "nat (sint w)"])
  have "of_int (sint w) = w" by simp
  then show "w = of_nat (nat (sint w))" using assms(1) by (metis int_nat_eq of_int_of_nat_eq)
qed (use assms in auto)

lemma assign_range_Some:
  assumes "a \<le> b" "b \<le> length bs" "length bs < 2 ^ 63"
  shows "assign_range bs (of_nat a) (of_nat b) = Some (take (b - a) (drop a bs))"
  using assms by (simp add: assign_range_def sint_offset nat_diff_distrib)

lemma assign_range_SomeD:
  assumes "assign_range bs (of_nat a) w = Some xs" "length bs < 2 ^ 63" "a \<le> length bs"
  obtains b where "w = of_nat b" "a \<le> b" "b \<le> length bs" "xs = take (b - a) (drop a bs)"
proof -
  have c: "sint (of_nat a :: 64 word) = int a" using sint_offset assms(2,3) by simp
  then have "int a \<le> sint w" "sint w \<le> int (length bs)" and xs: "xs = take (nat (sint w - int a)) (drop a bs)"
    using assms(1) by (auto simp: assign_range_def split: if_splits)
  moreover from this obtain b where "w = of_nat b" "sint w = int b" "b \<le> length bs" by (rule_tac offset_cases) auto
  ultimately show thesis using that [of b] by (simp add: nat_diff_distrib)
qed

section \<open>Decoding\<close>

text \<open>What the checks before the copies establish.\<close>

definition header_ok :: "u8 list \<Rightarrow> bool" where
  "header_ok bs \<longleftrightarrow> kHeaderBytes \<le> length bs \<and> (ReadLE bs 0 :: 64 word) = of_nat (length bs) \<and> ReadLE bs 8 = kMagic
     \<and> ReadLE bs 12 = kBlockSchemaVersion
     \<and> of_nat kHeaderBytes + (ReadLE bs 36 + ReadLE bs 44) = (of_nat (length bs) :: 64 word)"

lemma Deserialize_rejects: "\<not> header_ok bs \<Longrightarrow> Deserialize bs = Some (Inl kInvalidArgument)"
  by (auto simp: Deserialize_def header_ok_def Let_def add.assoc)

definition decoded :: "u8 list \<Rightarrow> nat \<Rightarrow> WireBlock" where
  "decoded bs n =
     \<lparr>wb_hash_id = ReadLE bs 16, wb_layer = ReadLE bs 24, wb_version = ReadLE bs 12, wb_num_tokens = ReadLE bs 28,
      wb_num_heads = ReadLE bs 32, wb_head_dim = ReadLE bs 34, wb_dtype = ReadLE bs 14,
      wb_k_payload = take (n - kHeaderBytes) (drop kHeaderBytes bs), wb_v_payload = drop n bs\<rparr>"

text \<open>Past the checks the copies stay inside the vector exactly when the lengths did not wrap.\<close>

lemma Deserialize_header:
  fixes bs :: "u8 list"
  assumes "header_ok bs" "length bs < 2 ^ 63"
  defines "K \<equiv> unat (ReadLE bs 36 :: 64 word)" and "V \<equiv> unat (ReadLE bs 44 :: 64 word)"
  shows "kHeaderBytes + K + V = length bs \<Longrightarrow> Deserialize bs = Some (Inr (decoded bs (kHeaderBytes + K)))"
    and "kHeaderBytes + K + V \<noteq> length bs \<Longrightarrow> Deserialize bs = None \<and> 2 ^ 64 \<le> kHeaderBytes + K + V"
proof -
  let ?h = "of_nat kHeaderBytes :: 64 word" and ?k = "ReadLE bs 36 :: 64 word" and ?v = "ReadLE bs 44 :: 64 word"
  have kv: "?k = of_nat K" "?v = of_nat V" by (simp_all add: K_def V_def)
  have hl: "kHeaderBytes \<le> length bs" using assms(1) by (simp add: header_ok_def)
  have D: "Deserialize bs = (case (assign_range bs ?h (?h + ?k), assign_range bs (?h + ?k) (of_nat (length bs))) of
      (Some k, Some v) \<Rightarrow> Some (Inr ((decoded bs 0)\<lparr>wb_k_payload := k, wb_v_payload := v\<rparr>)) | _ \<Rightarrow> None)"
    using assms(1) by (simp add: Deserialize_def header_ok_def Let_def decoded_def add.assoc split: option.splits)
  { assume n: "kHeaderBytes + K + V = length bs"
    have "assign_range bs ?h (?h + ?k) = Some (take K (drop kHeaderBytes bs))"
      using assign_range_Some [of kHeaderBytes "kHeaderBytes + K" bs] n assms(2) by (simp add: kv)
    moreover have "assign_range bs (?h + ?k) (of_nat (length bs)) = Some (drop (kHeaderBytes + K) bs)"
      using assign_range_Some [of "kHeaderBytes + K" "length bs" bs] n assms(2) by (simp add: kv)
    ultimately show "Deserialize bs = Some (Inr (decoded bs (kHeaderBytes + K)))" by (simp add: D decoded_def) }
  { assume n: "kHeaderBytes + K + V \<noteq> length bs"
    have "of_nat (kHeaderBytes + K + V) = (of_nat (length bs) :: 64 word)" using assms(1) by (simp add: header_ok_def kv add.assoc)
    then have "unat (of_nat (kHeaderBytes + K + V) :: 64 word) = unat (of_nat (length bs) :: 64 word)" by (simp only:)
    then have m: "(kHeaderBytes + K + V) mod 2 ^ 64 = length bs" using assms(2) unfolding unat_of_nat by simp
    then have wrap: "2 ^ 64 \<le> kHeaderBytes + K + V" using n by (metis mod_less not_less)
    have V: "V < 2 ^ 64" unfolding V_def by (rule unat_u64)
    have "assign_range bs ?h (?h + ?k) = None"
    proof (rule ccontr)
      assume "assign_range bs ?h (?h + ?k) \<noteq> None"
      then obtain b where "?h + ?k = of_nat b" "kHeaderBytes \<le> b" "b \<le> length bs"
        using assign_range_SomeD [OF _ assms(2) hl] by blast
      then have "?k = of_nat (b - kHeaderBytes)" by (metis add_diff_cancel_left' of_nat_diff)
      then have "K = b - kHeaderBytes" using \<open>b \<le> length bs\<close> assms(2) by (simp add: K_def unat_offset)
      then have "kHeaderBytes + K + V \<le> length bs + V" using \<open>b \<le> length bs\<close> \<open>kHeaderBytes \<le> b\<close> by simp
      with wrap V assms(2) have "(kHeaderBytes + K + V) mod 2 ^ 64 = kHeaderBytes + K + V - 2 ^ 64" by (simp add: mod_if)
      with m V wrap \<open>kHeaderBytes + K + V \<le> length bs + V\<close> show False by linarith
    qed
    with D wrap show "Deserialize bs = None \<and> 2 ^ 64 \<le> kHeaderBytes + K + V" by simp }
qed

section \<open>Encoding\<close>

lemma Serialize_fields:
  fixes b :: WireBlock
  defines "k \<equiv> wb_k_payload b" and "v \<equiv> wb_v_payload b"
  shows "length (Serialize b) = kHeaderBytes + length k + length v"
    and "ReadLE (Serialize b) 0 = (of_nat (kHeaderBytes + length k + length v) :: 64 word)" "ReadLE (Serialize b) 8 = kMagic"
    and "ReadLE (Serialize b) 12 = wb_version b" "ReadLE (Serialize b) 14 = wb_dtype b" "ReadLE (Serialize b) 16 = wb_hash_id b"
    and "ReadLE (Serialize b) 24 = wb_layer b" "ReadLE (Serialize b) 28 = wb_num_tokens b" "ReadLE (Serialize b) 32 = wb_num_heads b"
    and "ReadLE (Serialize b) 34 = wb_head_dim b" "ReadLE (Serialize b) 36 = (of_nat (length k) :: 64 word)"
    and "ReadLE (Serialize b) 44 = (of_nat (length v) :: 64 word)" "drop kHeaderBytes (Serialize b) = k @ v"
  by (simp_all add: Serialize_def Let_def k_def v_def kHeaderBytes_def)

lemma Deserialize_Serialize:
  assumes "wb_version b = kBlockSchemaVersion" "length (Serialize b) < 2 ^ 63"
  shows "Deserialize (Serialize b) = Some (Inr b)"
proof -
  let ?k = "wb_k_payload b" and ?v = "wb_v_payload b"
  note f = Serialize_fields [of b]
  have l: "unat (of_nat (length ?k) :: 64 word) = length ?k" "unat (of_nat (length ?v) :: 64 word) = length ?v"
    using assms(2) f(1) by (simp_all add: unat_offset)
  have "header_ok (Serialize b)" unfolding header_ok_def f by (simp add: assms(1))
  from Deserialize_header(1) [OF this assms(2)]
  have "Deserialize (Serialize b) = Some (Inr (decoded (Serialize b) (kHeaderBytes + length ?k)))" unfolding f l by simp
  moreover have "drop (kHeaderBytes + length ?k) (Serialize b) = ?v"
    using f(13) by (metis add.commute append_eq_conv_conj drop_drop)
  ultimately show ?thesis by (simp add: decoded_def f)
qed

lemma Serialize_decoded:
  assumes "header_ok bs" "length bs < 2 ^ 63" "unat (ReadLE bs 36 :: 64 word) = K"
    and "kHeaderBytes + K + unat (ReadLE bs 44 :: 64 word) = length bs"
  shows "Serialize (decoded bs (kHeaderBytes + K)) = bs"
proof -
  define k v where "k = take K (drop kHeaderBytes bs)" and "v = drop (kHeaderBytes + K) bs"
  have len: "length k = K" "length v = unat (ReadLE bs 44 :: 64 word)" using assms(4) unfolding k_def v_def by auto
  then have kv: "of_nat (length k) = (ReadLE bs 36 :: 64 word)" "of_nat (length v) = (ReadLE bs 44 :: 64 word)"
    by (simp_all add: assms(3) [symmetric])
  have t: "kHeaderBytes + length k + length v = length bs" using assms(4) len by simp
  have d: "decoded bs (kHeaderBytes + K) = (decoded bs 0)\<lparr>wb_k_payload := k, wb_v_payload := v\<rparr>"
    by (simp add: decoded_def k_def v_def)
  have h: "of_nat (length bs) = (ReadLE bs 0 :: 64 word)" "kMagic = ReadLE bs 8" "52 \<le> length bs"
    using assms(1) by (simp_all add: header_ok_def kHeaderBytes_def)
  have "Serialize (decoded bs (kHeaderBytes + K)) = AppendLE (ReadLE bs 0 :: 64 word) @ AppendLE (ReadLE bs 8 :: 32 word)
      @ AppendLE (ReadLE bs 12 :: 16 word) @ AppendLE (ReadLE bs 14 :: 16 word) @ AppendLE (ReadLE bs 16 :: 64 word)
      @ AppendLE (ReadLE bs 24 :: 32 word) @ AppendLE (ReadLE bs 28 :: 32 word) @ AppendLE (ReadLE bs 32 :: 16 word)
      @ AppendLE (ReadLE bs 34 :: 16 word) @ AppendLE (ReadLE bs 36 :: 64 word) @ AppendLE (ReadLE bs 44 :: 64 word) @ k @ v"
    unfolding Serialize_def Let_def d by (simp only: t h(1,2) kv WireBlock.select_convs WireBlock.update_convs decoded_def)
  also have "k @ v = drop 52 bs" unfolding k_def v_def using cut_slice [of K kHeaderBytes bs] by (simp add: kHeaderBytes_def)
  also have "AppendLE (ReadLE bs 0 :: 64 word) @ AppendLE (ReadLE bs 8 :: 32 word)
      @ AppendLE (ReadLE bs 12 :: 16 word) @ AppendLE (ReadLE bs 14 :: 16 word) @ AppendLE (ReadLE bs 16 :: 64 word)
      @ AppendLE (ReadLE bs 24 :: 32 word) @ AppendLE (ReadLE bs 28 :: 32 word) @ AppendLE (ReadLE bs 32 :: 16 word)
      @ AppendLE (ReadLE bs 34 :: 16 word) @ AppendLE (ReadLE bs 36 :: 64 word) @ AppendLE (ReadLE bs 44 :: 64 word) @ drop 52 bs = bs"
    using h(3) by (simp add: AppendLE_ReadLE header_cuts)
  finally show ?thesis .
qed

text \<open>The element type is taken over unchecked: a block of an unknown type, whose elements have no size, is decoded.\<close>

lemma unknown_dtype_decodes:
  assumes "DTypeSizeBytes (wb_dtype b) = 0" "wb_version b = kBlockSchemaVersion" "length (Serialize b) < 2 ^ 63"
  shows "\<exists>b'. Deserialize (Serialize b) = Some (Inr b') \<and> DTypeSizeBytes (wb_dtype b') = 0"
  using Deserialize_Serialize [OF assms(2,3)] assms(1) by simp

section \<open>Properties\<close>

text \<open>C13. The wire format is a bijection between the blocks of the current schema version and the byte strings that
  are accepted: decoding gives a block exactly for the encoding of that block. So what was encoded is read back,
  nothing else is ever decoded, and two blocks never share an encoding. Strings of \<open>2 ^ 63\<close> bytes and more do
  not fit an address space.\<close>

theorem wire_bijection:
  assumes "length bs < 2 ^ 63"
  shows "Deserialize bs = Some (Inr b) \<longleftrightarrow> bs = Serialize b \<and> wb_version b = kBlockSchemaVersion"
proof
  assume d: "Deserialize bs = Some (Inr b)"
  then have h: "header_ok bs" using Deserialize_rejects by fastforce
  let ?K = "unat (ReadLE bs 36 :: 64 word)" and ?V = "unat (ReadLE bs 44 :: 64 word)"
  have l: "kHeaderBytes + ?K + ?V = length bs" using Deserialize_header(2) [OF h assms] d by force
  then have "b = decoded bs (kHeaderBytes + ?K)" using Deserialize_header(1) [OF h assms] d by simp
  then show "bs = Serialize b \<and> wb_version b = kBlockSchemaVersion"
    using Serialize_decoded [OF h assms refl l] h by (simp add: header_ok_def decoded_def)
qed (use Deserialize_Serialize assms in blast)

definition demo_block :: WireBlock where
  "demo_block = \<lparr>wb_hash_id = 7, wb_layer = 1, wb_version = 1, wb_num_tokens = 16, wb_num_heads = 2, wb_head_dim = 8,
     wb_dtype = 0, wb_k_payload = [1, 2], wb_v_payload = [3]\<rparr>"

theorem wire_bijection_witness:
  "Deserialize (Serialize demo_block) = Some (Inr demo_block)"
proof -
  have "length (Serialize demo_block) < 2 ^ 63" by (simp add: Serialize_fields(1) demo_block_def kHeaderBytes_def)
  from wire_bijection [OF this, of demo_block] show ?thesis by (simp add: demo_block_def kBlockSchemaVersion_def)
qed

text \<open>C39. The check of the payload lengths can be defeated: the sum wraps at \<open>2 ^ 64\<close>, so a string of 52 bytes whose
  length fields are \<open>2 ^ 64 - 1\<close> and 1 passes all checks and the copy leaves the vector. This is the only way:
  the copies are out of range exactly when the checks pass and the lengths wrap.\<close>

theorem wire_lengths_wrap:
  "(\<forall>bs. length bs < 2 ^ 63 \<and> Deserialize bs = None \<longleftrightarrow> length bs < 2 ^ 63 \<and> header_ok bs
       \<and> 2 ^ 64 \<le> kHeaderBytes + unat (ReadLE bs 36 :: 64 word) + unat (ReadLE bs 44 :: 64 word))
   \<and> (\<exists>bs. length bs = kHeaderBytes \<and> Deserialize bs = None)"
proof
  have "Deserialize bs = None \<longleftrightarrow> header_ok bs
       \<and> 2 ^ 64 \<le> kHeaderBytes + unat (ReadLE bs 36 :: 64 word) + unat (ReadLE bs 44 :: 64 word)"
    if "length bs < 2 ^ 63" for bs
  proof (cases "header_ok bs")
    case True
    from Deserialize_header [OF this that] that True show ?thesis
      by (cases "kHeaderBytes + unat (ReadLE bs 36 :: 64 word) + unat (ReadLE bs 44 :: 64 word) = length bs") auto
  qed (simp add: Deserialize_rejects)
  then show "\<forall>bs. length bs < 2 ^ 63 \<and> Deserialize bs = None \<longleftrightarrow> length bs < 2 ^ 63 \<and> header_ok bs
       \<and> 2 ^ 64 \<le> kHeaderBytes + unat (ReadLE bs 36 :: 64 word) + unat (ReadLE bs 44 :: 64 word)" by blast
next
  let ?bs = "[52, 0, 0, 0, 0, 0, 0, 0, 77, 86, 75, 66, 1, 0, 0, 0] @ replicate 20 0 @ replicate 8 255 @ [1, 0, 0, 0, 0, 0, 0, 0] :: u8 list"
  have "length ?bs = kHeaderBytes \<and> Deserialize ?bs = None" by code_simp
  then show "\<exists>bs. length bs = kHeaderBytes \<and> Deserialize bs = None" by blast
qed

end
