(* ===== verification/Object_Store.thy ===== *)
theory Object_Store
  imports Block_Wire
begin

text \<open>
  The object store interface \<^verbatim>\<open>src/adapter/store_adapter.h\<close> over encoded blocks and its in-memory implementation in
  \<^verbatim>\<open>src/adapter/fake_backend.h\<close>.
\<close>

section \<open>Model\<close>

record InMemoryObjectStore =
  os_self :: string
  os_objects :: "BlockKey \<rightharpoonup> u8 list"

definition InMemoryObjectStore_init :: "string \<Rightarrow> InMemoryObjectStore" where
  "InMemoryObjectStore_init self = \<lparr>os_self = self, os_objects = Map.empty\<rparr>"

definition os_Put :: "BlockKey \<Rightarrow> u8 list \<Rightarrow> InMemoryObjectStore \<Rightarrow> status \<times> InMemoryObjectStore" where
  "os_Put key block s = (Ok, s\<lparr>os_objects := (os_objects s)(key \<mapsto> block)\<rparr>)"

definition os_Get :: "BlockKey \<Rightarrow> InMemoryObjectStore \<Rightarrow> StatusCode + u8 list" where
  "os_Get key s = (case os_objects s key of None \<Rightarrow> Inl kNotFound | Some block \<Rightarrow> Inr block)"

definition os_Exists :: "BlockKey \<Rightarrow> InMemoryObjectStore \<Rightarrow> bool" where
  "os_Exists key s \<longleftrightarrow> os_objects s key \<noteq> None"

definition os_Locate :: "BlockKey \<Rightarrow> InMemoryObjectStore \<Rightarrow> string list" where
  "os_Locate key s = (if os_objects s key = None then [] else [os_self s])"

section \<open>Interface\<close>

locale object_store =
  fixes put :: "BlockKey \<Rightarrow> u8 list \<Rightarrow> 's \<Rightarrow> status \<times> 's" and get :: "BlockKey \<Rightarrow> 's \<Rightarrow> StatusCode + u8 list"
    and exists_in :: "BlockKey \<Rightarrow> 's \<Rightarrow> bool" and locate :: "BlockKey \<Rightarrow> 's \<Rightarrow> string list"
  assumes get_put: "put key bs s = (Ok, s') \<Longrightarrow> get k s' = (if k = key then Inr bs else get k s)"
    and exists_get: "exists_in key s \<longleftrightarrow> (\<exists>bs. get key s = Inr bs)"
    and missing_get: "\<not> exists_in key s \<Longrightarrow> get key s = Inl kNotFound"
    and locate_exists: "locate key s \<noteq> [] \<longleftrightarrow> exists_in key s"
begin

text \<open>Blocks are put one after the other, encoded, up to the first failure.\<close>

fun put_blocks :: "(BlockKey \<times> WireBlock) list \<Rightarrow> 's \<Rightarrow> 's option" where
  "put_blocks [] s = Some s"
| "put_blocks ((key, b) # rest) s = (case put key (Serialize b) s of (st, s') \<Rightarrow> if st = Ok then put_blocks rest s' else None)"

text \<open>A key then has the encoding of the block put last under it, or what it had before.\<close>

lemma get_put_blocks:
  "put_blocks blocks s = Some s' \<Longrightarrow>
    get key s' = (case map_of (rev blocks) key of None \<Rightarrow> get key s | Some b \<Rightarrow> Inr (Serialize b))"
  by (induction blocks s rule: put_blocks.induct)
    (auto simp: get_put map_add_def split: prod.splits option.splits if_splits)

lemma last_block_decodes:
  assumes "put_blocks blocks s = Some s'" "map_of (rev blocks) key = Some b"
    and "wb_version b = kBlockSchemaVersion" "length (Serialize b) < 2 ^ 63"
  shows "\<exists>bs. get key s' = Inr bs \<and> Deserialize bs = Some (Inr b) \<and> locate key s' \<noteq> []"
  using get_put_blocks [OF assms(1), of key] Deserialize_Serialize [of b] assms(2-4) by (simp add: locate_exists exists_get)

end

interpretation ios: object_store os_Put os_Get os_Exists os_Locate
proof (unfold_locales, goal_cases)
  case (1 key bs s s' k)
  then show ?case by (cases "k = key") (auto simp: os_Put_def os_Get_def)
qed (auto simp: os_Get_def os_Exists_def os_Locate_def split: option.splits)

lemma ios_never_full: "\<exists>s'. ios.put_blocks blocks s = Some s'"
proof (induction blocks arbitrary: s)
  case (Cons kb blocks)
  obtain s1 where "os_Put (fst kb) (Serialize (snd kb)) s = (Ok, s1)" by (simp add: os_Put_def)
  with Cons show ?case by (cases kb) simp
qed simp

end
