(* ===== verification/Data_Path.thy ===== *)
theory Data_Path
  imports Storage_Manager "HOL-Library.Multiset"
begin

text \<open>
  The submission queue of \<^verbatim>\<open>src/datapath/data_path.cpp\<close> with its worker thread. Code under the mutex is one step;
  callers and worker interleave freely. A promise is a number, its answer is an entry of a log. The path
  choice and the results of the transfer backend are arguments.
\<close>

section \<open>The submission queue\<close>

datatype TransportPath = kRdma | kGpuDirect | kTcp

record 'b TransferRequest =
  tr_key :: BlockKey
  tr_src :: 'b
  tr_dst :: 'b
  tr_preferred :: TransportPath

datatype 'b worker = Ready | Busy nat "'b TransferRequest" | Exited

text \<open>Besides the fields of the class: the promises handed out and answered, and what reached the queue and the backend.\<close>

record ('b, 'r) DataPath =
  dp_capacity :: nat
  dp_queue :: "(nat \<times> 'b TransferRequest) list"
  dp_shutting_down :: bool
  dp_worker :: "'b worker"
  dp_next :: nat
  dp_answers :: "(nat \<times> (StatusCode + 'r)) list"
  dp_accepted :: "(nat \<times> 'b TransferRequest) list"
  dp_sent :: "(nat \<times> 'b TransferRequest) list"

definition DataPath_init :: "nat \<Rightarrow> ('b, 'r) DataPath" where
  "DataPath_init queue_capacity =
     \<lparr>dp_capacity = (if queue_capacity = 0 then 1 else queue_capacity), dp_queue = [], dp_shutting_down = False,
      dp_worker = Ready, dp_next = 0, dp_answers = [], dp_accepted = [], dp_sent = []\<rparr>"

definition TransferAsync ::
  "('b TransferRequest \<Rightarrow> TransportPath) \<Rightarrow> 'b TransferRequest \<Rightarrow> ('b, 'r) DataPath \<Rightarrow> nat \<times> ('b, 'r) DataPath" where
  "TransferAsync select_path request dp =
     (let p = dp_next dp; dp1 = dp\<lparr>dp_next := p + 1\<rparr>
      in if dp_capacity dp \<le> length (dp_queue dp) \<or> dp_shutting_down dp
         then (p, dp1\<lparr>dp_answers := dp_answers dp @ [(p, Inl kBackpressure)]\<rparr>)
         else
           (let item = (p, request\<lparr>tr_preferred := select_path request\<rparr>)
            in (p, dp1\<lparr>dp_queue := dp_queue dp @ [item], dp_accepted := dp_accepted dp @ [item]\<rparr>)))"

definition PendingDepth :: "('b, 'r) DataPath \<Rightarrow> nat" where
  "PendingDepth dp = length (dp_queue dp)"

text \<open>The worker wakes up with an item or for the shutdown; without an item it returns.\<close>

definition worker_wake :: "('b, 'r) DataPath \<Rightarrow> ('b, 'r) DataPath" where
  "worker_wake dp =
     (case dp_queue dp of
        [] \<Rightarrow> dp\<lparr>dp_worker := Exited\<rparr>
      | (p, req) # rest \<Rightarrow> dp\<lparr>dp_queue := rest, dp_worker := Busy p req, dp_sent := dp_sent dp @ [(p, req)]\<rparr>)"

definition worker_finish :: "nat \<Rightarrow> StatusCode + 'r \<Rightarrow> ('b, 'r) DataPath \<Rightarrow> ('b, 'r) DataPath" where
  "worker_finish p r dp = dp\<lparr>dp_worker := Ready, dp_answers := dp_answers dp @ [(p, r)]\<rparr>"

definition begin_shutdown :: "('b, 'r) DataPath \<Rightarrow> ('b, 'r) DataPath" where
  "begin_shutdown dp = dp\<lparr>dp_shutting_down := True\<rparr>"

text \<open>The destructor after the join answers what is left in the queue.\<close>

definition answer_rest :: "('b, 'r) DataPath \<Rightarrow> ('b, 'r) DataPath" where
  "answer_rest dp = dp\<lparr>dp_answers := dp_answers dp @ map (\<lambda>(p, _). (p, Inl kInternal)) (dp_queue dp)\<rparr>"

inductive dp_step :: "('b TransferRequest \<Rightarrow> TransportPath) \<Rightarrow> ('b, 'r) DataPath \<Rightarrow> ('b, 'r) DataPath \<Rightarrow> bool"
  for select_path where
  submitted: "dp_step select_path dp (snd (TransferAsync select_path request dp))"
| woken: "dp_worker dp = Ready \<Longrightarrow> dp_shutting_down dp \<or> dp_queue dp \<noteq> [] \<Longrightarrow> dp_step select_path dp (worker_wake dp)"
| finished: "dp_worker dp = Busy p req \<Longrightarrow> dp_step select_path dp (worker_finish p r dp)"
| closing: "dp_step select_path dp (begin_shutdown dp)"

section \<open>Invariant of the queue\<close>

definition in_work :: "'b worker \<Rightarrow> nat multiset" where
  "in_work w = (case w of Busy p _ \<Rightarrow> {#p#} | _ \<Rightarrow> {#})"

definition dp_inv :: "nat \<Rightarrow> ('b, 'r) DataPath \<Rightarrow> bool" where
  "dp_inv c dp \<longleftrightarrow> dp_capacity dp = max 1 c \<and> length (dp_queue dp) \<le> dp_capacity dp
     \<and> mset (map fst (dp_answers dp)) + in_work (dp_worker dp) + mset (map fst (dp_queue dp)) = mset [0..<dp_next dp]
     \<and> dp_accepted dp = dp_sent dp @ dp_queue dp
     \<and> (dp_worker dp = Exited \<longrightarrow> dp_shutting_down dp \<and> dp_queue dp = [])"

lemma dp_init_inv: "dp_inv c (DataPath_init c)"
  by (simp add: dp_inv_def DataPath_init_def in_work_def max_def)

lemma dp_step_inv: "dp_step select_path dp dp' \<Longrightarrow> dp_inv c dp \<Longrightarrow> dp_inv c dp'"
proof (induction rule: dp_step.induct)
  case (submitted dp request)
  then show ?case by (auto simp: dp_inv_def TransferAsync_def Let_def atLeast0_lessThan_Suc)
next
  case (woken dp)
  then show ?case by (cases "dp_queue dp") (auto simp: dp_inv_def worker_wake_def in_work_def)
next
  case (finished dp p req r)
  then show ?case by (auto simp: dp_inv_def worker_finish_def in_work_def)
next
  case (closing dp)
  then show ?case by (simp add: dp_inv_def begin_shutdown_def)
qed

abbreviation dp_reach :: "('b TransferRequest \<Rightarrow> TransportPath) \<Rightarrow> ('b, 'r) DataPath \<Rightarrow> ('b, 'r) DataPath \<Rightarrow> bool" where
  "dp_reach select_path \<equiv> (dp_step select_path)\<^sup>*\<^sup>*"

lemma dp_reach_inv: "dp_reach select_path dp dp' \<Longrightarrow> dp_inv c dp \<Longrightarrow> dp_inv c dp'"
  by (induction rule: rtranclp_induct) (auto intro: dp_step_inv)

text \<open>While the worker has not returned after the shutdown it can move, and each of its moves brings its return closer.\<close>

definition worker_work :: "('b, 'r) DataPath \<Rightarrow> nat" where
  "worker_work dp = 2 * length (dp_queue dp) + (case dp_worker dp of Ready \<Rightarrow> 1 | Busy _ _ \<Rightarrow> 2 | Exited \<Rightarrow> 0)"

lemma worker_drains:
  assumes "dp_inv c dp" "dp_shutting_down dp"
  shows "\<exists>dp'. dp_reach select_path dp dp' \<and> dp_worker dp' = Exited \<and> dp_next dp' = dp_next dp"
  using assms
proof (induction "worker_work dp" arbitrary: dp rule: less_induct)
  case less
  obtain dp1 where "dp_worker dp = Exited \<or> dp_step select_path dp dp1 \<and> worker_work dp1 < worker_work dp
      \<and> dp_shutting_down dp1 \<and> dp_next dp1 = dp_next dp"
  proof (cases "dp_worker dp")
    case Ready
    from dp_step.woken [OF this, of select_path] less(3) that [of "worker_wake dp"] Ready show thesis
      by (cases "dp_queue dp") (auto simp: worker_wake_def worker_work_def)
  next
    case (Busy p req)
    from dp_step.finished [OF this, of select_path "Inl kInternal"] that [of "worker_finish p (Inl kInternal) dp"] Busy less(3) show thesis
      by (auto simp: worker_finish_def worker_work_def)
  qed (use that in blast)
  then show ?case
  proof (elim disjE conjE)
    assume "dp_step select_path dp dp1" "worker_work dp1 < worker_work dp" "dp_shutting_down dp1" "dp_next dp1 = dp_next dp"
    with less.hyps [of dp1] dp_step_inv less(2) show ?case by (metis converse_rtranclp_into_rtranclp)
  qed blast
qed

section \<open>Properties\<close>

text \<open>C14. No transfer is lost: whatever callers, worker and backend do, at most the configured number of requests wait,
  the backend gets the accepted requests in the order they were accepted, no promise is answered twice, and once
  the worker has returned every promise handed out has its answer, so the destructor finds an empty queue.
  After a shutdown the worker can always get there.\<close>

theorem transfers_answered:
  assumes "dp_reach select_path (DataPath_init c) dp"
  shows "PendingDepth dp \<le> max 1 c \<and> dp_accepted dp = dp_sent dp @ dp_queue dp \<and> distinct (map fst (dp_answers dp))
    \<and> (dp_worker dp = Exited \<longrightarrow> set (map fst (dp_answers dp)) = {..<dp_next dp} \<and> answer_rest dp = dp)
    \<and> (\<exists>dp'. dp_reach select_path (begin_shutdown dp) dp' \<and> dp_worker dp' = Exited \<and> dp_next dp' = dp_next dp)"
proof -
  note I = dp_reach_inv [OF assms dp_init_inv]
  have m: "mset (map fst (dp_answers dp)) + in_work (dp_worker dp) + mset (map fst (dp_queue dp)) = mset [0..<dp_next dp]"
    using I by (simp add: dp_inv_def)
  obtain w where "in_work (dp_worker dp) = mset w" using ex_mset by metis
  with m have "mset (map fst (dp_answers dp) @ w @ map fst (dp_queue dp)) = mset [0..<dp_next dp]" by (simp add: add.assoc)
  from mset_eq_imp_distinct_iff [OF this] have d: "distinct (map fst (dp_answers dp))" by simp
  have e: "set (map fst (dp_answers dp)) = {..<dp_next dp} \<and> answer_rest dp = dp" if "dp_worker dp = Exited"
  proof
    have q: "dp_queue dp = []" using I that by (simp add: dp_inv_def)
    with m that have "mset (map fst (dp_answers dp)) = mset [0..<dp_next dp]" by (simp add: in_work_def)
    from mset_eq_setD [OF this] show "set (map fst (dp_answers dp)) = {..<dp_next dp}" by (simp add: atLeast0LessThan)
    from q show "answer_rest dp = dp" by (simp add: answer_rest_def)
  qed
  have "dp_inv c (begin_shutdown dp)" "dp_shutting_down (begin_shutdown dp)" "dp_next (begin_shutdown dp) = dp_next dp"
    using I by (simp_all add: dp_inv_def begin_shutdown_def)
  with worker_drains [of c "begin_shutdown dp" select_path] d e I show ?thesis by (simp add: dp_inv_def PendingDepth_def)
qed

theorem transfers_answered_witness:
  "\<exists>dp :: (nat, nat) DataPath. dp_reach (\<lambda>_. kTcp) (DataPath_init 0) dp \<and> PendingDepth dp = 1 \<and> dp_accepted dp = dp_sent dp @ dp_queue dp"
proof -
  define dp :: "(nat, nat) DataPath" where
    "dp = snd (TransferAsync (\<lambda>_. kTcp) \<lparr>tr_key = \<lparr>bk_hash_id = 7, bk_layer = 0, bk_version = 1\<rparr>, tr_src = 1, tr_dst = 2, tr_preferred = kRdma\<rparr>
       (DataPath_init 0))"
  have r: "dp_reach (\<lambda>_. kTcp) (DataPath_init 0) dp" unfolding dp_def by (rule r_into_rtranclp) (rule dp_step.submitted)
  have "PendingDepth dp = 1" by (simp add: dp_def PendingDepth_def TransferAsync_def DataPath_init_def Let_def)
  with transfers_answered [OF r] r show ?thesis by blast
qed

end
