(* ===== verification/Registration_Guards.thy ===== *)
theory Registration_Guards
  imports Storage_Manager
begin

text \<open>
  The guard \<^verbatim>\<open>ScopedRegistration\<close> of \<^verbatim>\<open>src/datapath/data_path.cpp\<close>, which pairs registrations of buffers, over the methods of
  \<^verbatim>\<open>ITransferBackend\<close> it calls. The backends are in \<open>Transfer_Backend\<close>.
\<close>

section \<open>Model\<close>

text \<open>Registration numbers count up from 1; there are fewer than \<open>2 ^ 64\<close> of them. Address 0 is the null pointer.\<close>

record BufferHandle =
  bh_addr :: nat
  bh_length :: nat
  bh_reg_id :: nat
  bh_on_gpu :: bool

record 's ITransferBackend =
  RegisterBuffer :: "nat \<Rightarrow> nat \<Rightarrow> bool \<Rightarrow> 's \<Rightarrow> (StatusCode + BufferHandle) \<times> 's"
  DeregisterBuffer :: "BufferHandle \<Rightarrow> 's \<Rightarrow> status \<times> 's"

record ScopedRegistration =
  sr_attached :: bool
  sr_handle :: BufferHandle
  sr_status :: status
  sr_valid :: bool

definition null_handle :: BufferHandle where
  "null_handle = \<lparr>bh_addr = 0, bh_length = 0, bh_reg_id = 0, bh_on_gpu = False\<rparr>"

definition ScopedRegistration_init ::
  "'s ITransferBackend \<Rightarrow> nat \<Rightarrow> nat \<Rightarrow> bool \<Rightarrow> 's \<Rightarrow> ScopedRegistration \<times> 's" where
  "ScopedRegistration_init backend addr len on_gpu s =
     (case RegisterBuffer backend addr len on_gpu s of
        (Inr h, s') \<Rightarrow> (\<lparr>sr_attached = True, sr_handle = h, sr_status = Ok, sr_valid = True\<rparr>, s')
      | (Inl e, s') \<Rightarrow> (\<lparr>sr_attached = True, sr_handle = null_handle, sr_status = Failed e, sr_valid = False\<rparr>, s'))"

definition Release :: "'s ITransferBackend \<Rightarrow> ScopedRegistration \<Rightarrow> 's \<Rightarrow> ScopedRegistration \<times> 's" where
  "Release backend g s =
     (if sr_valid g \<and> sr_attached g then (g\<lparr>sr_valid := False\<rparr>, snd (DeregisterBuffer backend (sr_handle g) s)) else (g, s))"

definition moved_from :: "ScopedRegistration \<Rightarrow> ScopedRegistration" where
  "moved_from other = other\<lparr>sr_valid := False, sr_attached := False\<rparr>"

text \<open>The guards of a program by address; an address without a guard has an invalid one.\<close>

type_synonym 's guard_state = "(nat \<Rightarrow> ScopedRegistration) \<times> 's"

definition construct_guard :: "'s ITransferBackend \<Rightarrow> nat \<Rightarrow> nat \<Rightarrow> nat \<Rightarrow> bool \<Rightarrow> 's guard_state \<Rightarrow> 's guard_state" where
  "construct_guard backend i addr len on_gpu s =
     (let (g, b) = ScopedRegistration_init backend addr len on_gpu (snd s) in ((fst s)(i := g), b))"

definition move_construct :: "nat \<Rightarrow> nat \<Rightarrow> 's guard_state \<Rightarrow> 's guard_state" where
  "move_construct i j s = ((fst s)(i := fst s j, j := moved_from (fst s j)), snd s)"

definition move_assign :: "'s ITransferBackend \<Rightarrow> nat \<Rightarrow> nat \<Rightarrow> 's guard_state \<Rightarrow> 's guard_state" where
  "move_assign backend i j s =
     (if i = j then s
      else (let (_, b) = Release backend (fst s i) (snd s) in ((fst s)(i := fst s j, j := moved_from (fst s j)), b)))"

definition destroy_guard :: "'s ITransferBackend \<Rightarrow> nat \<Rightarrow> 's guard_state \<Rightarrow> 's guard_state" where
  "destroy_guard backend i s = (let (g, b) = Release backend (fst s i) (snd s) in ((fst s)(i := g), b))"

inductive guard_step :: "'s ITransferBackend \<Rightarrow> 's guard_state \<Rightarrow> 's guard_state \<Rightarrow> bool" for backend where
  constructed: "\<not> sr_valid (fst s i) \<Longrightarrow> guard_step backend s (construct_guard backend i addr len on_gpu s)"
| moved: "i \<noteq> j \<Longrightarrow> \<not> sr_valid (fst s i) \<Longrightarrow> guard_step backend s (move_construct i j s)"
| assigned: "guard_step backend s (move_assign backend i j s)"
| destroyed: "guard_step backend s (destroy_guard backend i s)"

definition no_guard :: ScopedRegistration where
  "no_guard = \<lparr>sr_attached = False, sr_handle = null_handle, sr_status = Ok, sr_valid = False\<rparr>"

definition guards_init :: "'s \<Rightarrow> 's guard_state" where
  "guards_init b = ((\<lambda>_. no_guard), b)"

definition valid_guards :: "'s guard_state \<Rightarrow> nat set" where
  "valid_guards s = {i. sr_valid (fst s i)}"

abbreviation guard_id :: "'s guard_state \<Rightarrow> nat \<Rightarrow> nat" where
  "guard_id s i \<equiv> bh_reg_id (sr_handle (fst s i))"

lemma move_assign_eq: "i \<noteq> j \<Longrightarrow> move_assign backend i j s = move_construct i j (destroy_guard backend i s)"
  by (simp add: move_assign_def move_construct_def destroy_guard_def fun_eq_iff split: prod.splits)

lemma destroy_invalid: "\<not> sr_valid (fst s i) \<Longrightarrow> destroy_guard backend i s = s"
  by (simp add: destroy_guard_def Release_def)

lemma destroyed_not_valid: "sr_valid (fst s i) \<longrightarrow> sr_attached (fst s i) \<Longrightarrow> \<not> sr_valid (fst (destroy_guard backend i s) i)"
  by (auto simp: destroy_guard_def Release_def)

text \<open>The handles of the valid guards, and what moving a registration from one guard to another leaves of them.\<close>

definition guard_handles :: "'s guard_state \<Rightarrow> BufferHandle set" where
  "guard_handles s = (\<lambda>i. sr_handle (fst s i)) ` valid_guards s"

lemma move_handles:
  assumes "i \<noteq> j" "\<not> sr_valid (fst s i)"
  shows "guard_handles (move_construct i j s) = guard_handles s"
proof -
  let ?f = "\<lambda>k. if k = j then i else k"
  have V: "valid_guards (move_construct i j s) = ?f ` valid_guards s"
    using assms by (auto simp: move_construct_def moved_from_def valid_guards_def split: if_splits)
  have "sr_handle (fst (move_construct i j s) (?f k)) = sr_handle (fst s k)" if "k \<in> valid_guards s" for k
    using that assms by (auto simp: move_construct_def valid_guards_def)
  then show ?thesis unfolding guard_handles_def V image_image by (rule image_cong [OF refl])
qed

section \<open>Interface\<close>

text \<open>What the guard relies on: an accepted buffer gets an identifier not in use, which stays in use until it is given back,
  and giving back what is not in use is refused.\<close>

locale registrar =
  fixes backend :: "'s ITransferBackend" and backend_ok :: "'s \<Rightarrow> bool" and live :: "'s \<Rightarrow> nat set"
  assumes reg_ok: "backend_ok b \<Longrightarrow> backend_ok (snd (RegisterBuffer backend a n g b))"
    and dereg_ok: "backend_ok b \<Longrightarrow> backend_ok (snd (DeregisterBuffer backend h b))"
    and reg_new: "backend_ok b \<Longrightarrow> RegisterBuffer backend a n g b = (Inr h, b') \<Longrightarrow>
      bh_reg_id h \<notin> live b \<and> live b' = insert (bh_reg_id h) (live b)"
    and reg_refused: "RegisterBuffer backend a n g b = (Inl c, b') \<Longrightarrow> live b' = live b"
    and dereg_live: "live (snd (DeregisterBuffer backend h b)) = live b - {bh_reg_id h}"
    and dereg_unknown: "fst (DeregisterBuffer backend h b) = Failed kAddressNotRegistered \<longleftrightarrow> bh_reg_id h \<notin> live b"
begin

text \<open>The live registrations are those of the valid guards, each with its own.\<close>

definition guards_inv :: "'s guard_state \<Rightarrow> bool" where
  "guards_inv s \<longleftrightarrow> backend_ok (snd s) \<and> (\<forall>i \<in> valid_guards s. sr_attached (fst s i))
     \<and> inj_on (guard_id s) (valid_guards s) \<and> live (snd s) = guard_id s ` valid_guards s"

lemma guards_invD:
  assumes "guards_inv s"
  shows "backend_ok (snd s)" "inj_on (guard_id s) (valid_guards s)" "live (snd s) = guard_id s ` valid_guards s"
    and "sr_valid (fst s i) \<Longrightarrow> sr_attached (fst s i)"
  using assms by (simp_all add: guards_inv_def valid_guards_def)

lemma init_inv: "backend_ok b \<Longrightarrow> live b = {} \<Longrightarrow> guards_inv (guards_init b)"
  by (simp add: guards_inv_def guards_init_def valid_guards_def no_guard_def)

lemma destroy_inv:
  assumes "guards_inv s"
  shows "guards_inv (destroy_guard backend i s)"
proof (cases "sr_valid (fst s i)")
  case True
  note D = guards_invD [OF assms]
  have d: "destroy_guard backend i s = ((fst s)(i := (fst s i)\<lparr>sr_valid := False\<rparr>), snd (DeregisterBuffer backend (sr_handle (fst s i)) (snd s)))"
    using D(4) [OF True] True by (simp add: destroy_guard_def Release_def)
  have V: "valid_guards (destroy_guard backend i s) = valid_guards s - {i}" and v: "i \<in> valid_guards s"
    using True unfolding d valid_guards_def by auto
  have g: "guard_id (destroy_guard backend i s) = guard_id s" unfolding d by (rule ext) simp
  have "live (snd (destroy_guard backend i s)) = guard_id s ` (valid_guards s - {i})"
    using inj_on_image_set_diff [OF D(2), of "valid_guards s" "{i}"] v D(3) by (simp add: d dereg_live)
  moreover have "\<forall>j \<in> valid_guards s - {i}. sr_attached (fst (destroy_guard backend i s) j)"
    using D(4) by (simp add: d valid_guards_def)
  ultimately show ?thesis
    unfolding guards_inv_def V g using dereg_ok [OF D(1)] D(2) by (auto simp: d intro: inj_on_diff)
qed (simp add: destroy_invalid assms)

lemma construct_inv:
  assumes "guards_inv s" "\<not> sr_valid (fst s i)"
  shows "guards_inv (construct_guard backend i addr len on_gpu s)"
proof -
  note D = guards_invD [OF assms(1)]
  let ?s = "construct_guard backend i addr len on_gpu s"
  obtain r b where r: "RegisterBuffer backend addr len on_gpu (snd s) = (r, b)" by fastforce
  have ok: "backend_ok b" using reg_ok [OF D(1), of addr len on_gpu] r by simp
  have i: "i \<notin> valid_guards s" using assms(2) by (simp add: valid_guards_def)
  show ?thesis
  proof (cases r)
    case (Inl e)
    have d: "?s = ((fst s)(i := \<lparr>sr_attached = True, sr_handle = null_handle, sr_status = Failed e, sr_valid = False\<rparr>), b)"
      using r Inl by (simp add: construct_guard_def ScopedRegistration_init_def)
    have V: "valid_guards ?s = valid_guards s" using i by (auto simp: d valid_guards_def)
    have g: "fst ?s j = fst s j" if "j \<in> valid_guards s" for j using that i by (auto simp: d)
    have "live b = live (snd s)" using reg_refused r Inl by blast
    then show ?thesis unfolding guards_inv_def V using D g ok by (auto simp: d [THEN arg_cong [of _ _ snd]] valid_guards_def inj_on_def)
  next
    case (Inr h)
    have d: "?s = ((fst s)(i := \<lparr>sr_attached = True, sr_handle = h, sr_status = Ok, sr_valid = True\<rparr>), b)"
      using r Inr by (simp add: construct_guard_def ScopedRegistration_init_def)
    have V: "valid_guards ?s = insert i (valid_guards s)" by (auto simp: d valid_guards_def)
    have n: "bh_reg_id h \<notin> guard_id s ` valid_guards s" "live b = insert (bh_reg_id h) (guard_id s ` valid_guards s)"
      using reg_new [OF D(1)] r Inr D(3) by auto
    have g: "guard_id ?s i = bh_reg_id h" "\<And>j. j \<in> valid_guards s \<Longrightarrow> fst ?s j = fst s j" using i by (auto simp: d)
    have im: "guard_id ?s ` valid_guards s = guard_id s ` valid_guards s" using g(2) by (simp cong: image_cong)
    have "inj_on (guard_id ?s) (insert i (valid_guards s))" using D(2) i n(1) im g by (simp cong: inj_on_cong)
    moreover have "live (snd ?s) = guard_id ?s ` insert i (valid_guards s)" unfolding image_insert g(1) im using n(2) by (simp add: d)
    moreover have "\<forall>j \<in> insert i (valid_guards s). sr_attached (fst ?s j)" using D(4) by (simp add: d valid_guards_def)
    ultimately show ?thesis unfolding guards_inv_def V using ok by (simp add: d)
  qed
qed

text \<open>A move hands the registration of one guard to another that has none.\<close>

lemma move_inv:
  assumes "guards_inv s" "i \<noteq> j" "\<not> sr_valid (fst s i)"
  shows "guards_inv (move_construct i j s)"
proof -
  let ?s = "move_construct i j s" and ?f = "\<lambda>k. if k = j then i else k"
  note D = guards_invD [OF assms(1)]
  have V: "valid_guards ?s = ?f ` valid_guards s"
    using assms(2,3) by (auto simp: move_construct_def moved_from_def valid_guards_def split: if_splits)
  have g: "guard_id ?s (?f k) = guard_id s k" if "k \<in> valid_guards s" for k
    using that assms(2,3) by (auto simp: move_construct_def valid_guards_def)
  have im: "guard_id ?s ` ?f ` valid_guards s = guard_id s ` valid_guards s" unfolding image_image using g by (rule image_cong [OF refl])
  have "inj_on (guard_id ?s \<circ> ?f) (valid_guards s)" using D(2) g by (simp add: comp_def cong: inj_on_cong)
  then have "inj_on (guard_id ?s) (?f ` valid_guards s)" by (rule inj_on_imageI)
  moreover have "\<forall>k \<in> ?f ` valid_guards s. sr_attached (fst ?s k)"
    using D(4) assms(2,3) by (auto simp: move_construct_def valid_guards_def)
  ultimately show ?thesis unfolding guards_inv_def V im using D(1,3) by (simp add: move_construct_def)
qed

lemma guard_step_inv: "guard_step backend s s' \<Longrightarrow> guards_inv s \<Longrightarrow> guards_inv s'"
proof (induction rule: guard_step.induct)
  case (assigned s i j)
  show ?case
  proof (cases "i = j")
    case False
    have "\<not> sr_valid (fst (destroy_guard backend i s) i)" using destroyed_not_valid guards_invD(4) [OF assigned] by blast
    with move_inv [OF destroy_inv [OF assigned] False] show ?thesis by (simp add: move_assign_eq [OF False])
  qed (simp add: move_assign_def assigned)
qed (auto intro: construct_inv move_inv destroy_inv)

text \<open>What a step does to the handles of the valid guards and to the backend.\<close>

lemma destroy_effect:
  assumes "guards_inv s" "i \<in> valid_guards s"
  defines "h \<equiv> sr_handle (fst s i)"
  shows "h \<in> guard_handles s" "guard_handles (destroy_guard backend i s) = guard_handles s - {h}"
    "snd (destroy_guard backend i s) = snd (DeregisterBuffer backend h (snd s))"
proof -
  note D = guards_invD [OF assms(1)]
  have v: "sr_valid (fst s i)" using assms(2) by (simp add: valid_guards_def)
  have d: "destroy_guard backend i s = ((fst s)(i := (fst s i)\<lparr>sr_valid := False\<rparr>), snd (DeregisterBuffer backend h (snd s)))"
    using D(4) [OF v] v by (simp add: destroy_guard_def Release_def h_def)
  show "h \<in> guard_handles s" using assms(2) by (simp add: guard_handles_def h_def)
  show "snd (destroy_guard backend i s) = snd (DeregisterBuffer backend h (snd s))" by (simp add: d)
  have V: "valid_guards (destroy_guard backend i s) = valid_guards s - {i}" unfolding d valid_guards_def by auto
  have "inj_on (\<lambda>i. sr_handle (fst s i)) (valid_guards s)" using D(2) by (auto simp: inj_on_def)
  from inj_on_image_set_diff [OF this, of "valid_guards s" "{i}"] assms(2)
  have "(\<lambda>i. sr_handle (fst s i)) ` (valid_guards s - {i}) = guard_handles s - {h}" by (simp add: guard_handles_def h_def)
  moreover have "sr_handle (fst (destroy_guard backend i s) k) = sr_handle (fst s k)" for k by (simp add: d)
  ultimately show "guard_handles (destroy_guard backend i s) = guard_handles s - {h}" by (simp add: guard_handles_def V)
qed

lemma construct_effect:
  assumes "\<not> sr_valid (fst s i)" "RegisterBuffer backend addr len on_gpu (snd s) = (r, b)"
  shows "snd (construct_guard backend i addr len on_gpu s) = b"
    "guard_handles (construct_guard backend i addr len on_gpu s) = (case r of Inl _ \<Rightarrow> {} | Inr h \<Rightarrow> {h}) \<union> guard_handles s"
proof -
  let ?s = "construct_guard backend i addr len on_gpu s"
  show "snd ?s = b" using assms(2) by (cases r) (simp_all add: construct_guard_def ScopedRegistration_init_def)
  have i: "i \<notin> valid_guards s" using assms(1) by (simp add: valid_guards_def)
  have other: "fst ?s k = fst s k" if "k \<noteq> i" for k using that by (simp add: construct_guard_def split: prod.split)
  have "valid_guards ?s = (case r of Inl _ \<Rightarrow> {} | Inr h \<Rightarrow> {i}) \<union> valid_guards s"
    using assms by (auto simp: valid_guards_def construct_guard_def ScopedRegistration_init_def split: sum.splits if_splits)
  moreover have "sr_handle (fst ?s i) = h" if "r = Inr h" for h
    using that assms(2) by (simp add: construct_guard_def ScopedRegistration_init_def)
  moreover have "(\<lambda>k. sr_handle (fst ?s k)) ` valid_guards s = guard_handles s"
    unfolding guard_handles_def by (rule image_cong [OF refl]) (use i other in metis)
  ultimately show "guard_handles ?s = (case r of Inl _ \<Rightarrow> {} | Inr h \<Rightarrow> {h}) \<union> guard_handles s"
    by (cases r) (simp_all add: guard_handles_def)
qed

lemma guard_step_effect:
  assumes "guard_step backend s s'" "guards_inv s"
  obtains (same) "guard_handles s' = guard_handles s" "snd s' = snd s"
    | (registered) addr len on_gpu r where "RegisterBuffer backend addr len on_gpu (snd s) = (r, snd s')"
        "guard_handles s' = (case r of Inl _ \<Rightarrow> {} | Inr h \<Rightarrow> {h}) \<union> guard_handles s"
    | (deregistered) h where "h \<in> guard_handles s" "guard_handles s' = guard_handles s - {h}"
        "snd s' = snd (DeregisterBuffer backend h (snd s))"
  using assms
proof (induction rule: guard_step.induct)
  case (constructed s i addr len on_gpu)
  obtain r b where r: "RegisterBuffer backend addr len on_gpu (snd s) = (r, b)" by fastforce
  show ?case by (rule constructed.prems(2) [of addr len on_gpu r])
      (use r construct_effect [OF constructed.hyps r] in simp_all)
next
  case (moved i j s)
  show ?case by (rule moved.prems(1)) (simp add: move_handles [OF moved.hyps], simp add: move_construct_def)
next
  case (assigned s i j)
  let ?d = "destroy_guard backend i s"
  show ?case
  proof (cases "i = j")
    case True
    then show ?thesis using assigned.prems(1) by (simp add: move_assign_def)
  next
    case False
    have "\<not> sr_valid (fst ?d i)" using destroyed_not_valid guards_invD(4) [OF assigned.prems(4)] by blast
    then have m: "guard_handles (move_assign backend i j s) = guard_handles ?d" "snd (move_assign backend i j s) = snd ?d"
      by (simp_all add: move_assign_eq [OF False] move_handles [OF False], simp add: move_construct_def)
    show ?thesis
    proof (cases "i \<in> valid_guards s")
      case True
      from destroy_effect [OF assigned.prems(4) True] show ?thesis by (intro assigned.prems(3)) (simp_all add: m)
    next
      case False
      then have "?d = s" by (simp add: valid_guards_def destroy_invalid)
      with m show ?thesis by (intro assigned.prems(1)) simp_all
    qed
  qed
next
  case (destroyed s i)
  show ?case
  proof (cases "i \<in> valid_guards s")
    case True
    from destroy_effect [OF destroyed.prems(4) True] show ?thesis by (intro destroyed.prems(3)) simp_all
  next
    case False
    then have "destroy_guard backend i s = s" by (simp add: valid_guards_def destroy_invalid)
    then show ?thesis by (intro destroyed.prems(1)) simp_all
  qed
qed

lemma guards_reached:
  assumes "(guard_step backend)\<^sup>*\<^sup>* (guards_init b) s" "backend_ok b" "live b = {}"
  shows "guards_inv s"
  using assms(1) by induction (auto intro: guard_step_inv init_inv [OF assms(2,3)])

lemma guards_paired:
  assumes "(guard_step backend)\<^sup>*\<^sup>* (guards_init b) s" "backend_ok b" "live b = {}"
  shows "backend_ok (snd s)" "live (snd s) = guard_id s ` valid_guards s" "inj_on (guard_id s) (valid_guards s)"
proof -
  from guards_reached [OF assms] show "backend_ok (snd s)" "live (snd s) = guard_id s ` valid_guards s" "inj_on (guard_id s) (valid_guards s)"
    by (rule guards_invD)+
qed

end

end
