(* ===== verification/Transfer_Backend.thy ===== *)
theory Transfer_Backend
  imports Data_Path Registration_Guards Block_Wire
begin

text \<open>
  The transfer backends: \<^verbatim>\<open>src/adapter/mooncake_transfer_backend.cpp\<close>, which drives the C interface of the Mooncake
  transfer engine, and its in-memory double in \<^verbatim>\<open>src/adapter/fake_backend.h\<close>. The engine is third-party: its functions are
  the fields of \<open>engine\<close>, over an engine state that also holds the clock. An error is its code with the key named in its text.
  Both provide the interface of the registration guard.
\<close>

section \<open>Model of the Mooncake backend\<close>

record MooncakeBackendConfig =
  mc_metadata_conn_string :: string
  mc_local_server_name :: string
  mc_ip_or_host_name :: string
  mc_rpc_port :: nat
  mc_try_rdma :: bool
  mc_gpu_location :: string
  mc_remote_segment_name :: string

record TransferReceipt =
  rc_key :: BlockKey
  rc_path :: TransportPath
  rc_transferred_bytes :: nat

type_synonym transfer_result = "StatusCode \<times> BlockKey option + TransferReceipt"

record transfer_entry =
  en_source :: nat
  en_target_id :: int
  en_target_offset :: nat
  en_length :: nat

datatype transfer_status = STATUS_COMPLETED | STATUS_FAILED | STATUS_TIMEOUT | STATUS_CANCELED | STATUS_OTHER

text \<open>A call that reports success with 0 is a Boolean, one that can return an invalid batch an option.\<close>

record 'e engine =
  createTransferEngine :: "string \<Rightarrow> string \<Rightarrow> string \<Rightarrow> nat \<Rightarrow> 'e \<Rightarrow> bool \<times> 'e"
  installTransport :: "string \<Rightarrow> 'e \<Rightarrow> bool \<times> 'e"
  openSegment :: "string \<Rightarrow> 'e \<Rightarrow> int \<times> 'e"
  closeSegment :: "int \<Rightarrow> 'e \<Rightarrow> 'e"
  destroyTransferEngine :: "'e \<Rightarrow> 'e"
  registerLocalMemory :: "nat \<Rightarrow> nat \<Rightarrow> string \<Rightarrow> 'e \<Rightarrow> bool \<times> 'e"
  unregisterLocalMemory :: "nat \<Rightarrow> 'e \<Rightarrow> bool \<times> 'e"
  allocateBatchID :: "'e \<Rightarrow> nat option \<times> 'e"
  submitTransfer :: "nat \<Rightarrow> transfer_entry \<Rightarrow> 'e \<Rightarrow> bool \<times> 'e"
  getTransferStatus :: "nat \<Rightarrow> 'e \<Rightarrow> (transfer_status \<times> nat) option \<times> 'e"
  freeBatchID :: "nat \<Rightarrow> 'e \<Rightarrow> bool \<times> 'e"
  clock_now :: "'e \<Rightarrow> nat \<times> 'e"
  sleep_for :: "nat \<Rightarrow> 'e \<Rightarrow> 'e"

record MooncakeTransferBackend =
  mb_config :: MooncakeBackendConfig
  mb_rdma_installed :: bool
  mb_segment :: int
  mb_next_reg_id :: nat
  mb_live_registrations :: "(nat \<times> nat) list"

definition PathToLocation :: "MooncakeBackendConfig \<Rightarrow> bool \<Rightarrow> string" where
  "PathToLocation config on_gpu = (if on_gpu then mc_gpu_location config else ''cpu:0'')"

definition Create :: "'e engine \<Rightarrow> MooncakeBackendConfig \<Rightarrow> 'e \<Rightarrow> (StatusCode + MooncakeTransferBackend) \<times> 'e" where
  "Create en config e =
     (let (created, e1) = createTransferEngine en (mc_metadata_conn_string config) (mc_local_server_name config)
           (mc_ip_or_host_name config) (mc_rpc_port config) e
      in if \<not> created then (Inl kTransferFailed, e1)
         else
           (let (rdma_installed, e2) = (if mc_try_rdma config then installTransport en ''rdma'' e1 else (False, e1));
                (usable, e3) = (if rdma_installed then (True, e2) else installTransport en ''tcp'' e2)
            in if \<not> usable then (Inl kTransferFailed, destroyTransferEngine en e3)
               else
                 (let segment_name = (if mc_remote_segment_name config = [] then mc_local_server_name config else mc_remote_segment_name config);
                      (segment, e4) = openSegment en segment_name e3
                  in if segment < 0 then (Inl kTransferFailed, destroyTransferEngine en e4)
                     else
                       (Inr \<lparr>mb_config = config, mb_rdma_installed = rdma_installed, mb_segment = segment, mb_next_reg_id = 1,
                             mb_live_registrations = []\<rparr>, e4))))"

definition destroy_backend :: "'e engine \<Rightarrow> MooncakeTransferBackend \<Rightarrow> 'e \<Rightarrow> 'e" where
  "destroy_backend en mb e =
     destroyTransferEngine en (closeSegment en (mb_segment mb)
       (foldl (\<lambda>e (reg_id, addr). snd (unregisterLocalMemory en addr e)) e (mb_live_registrations mb)))"

definition mb_RegisterBuffer ::
  "'e engine \<Rightarrow> nat \<Rightarrow> nat \<Rightarrow> bool \<Rightarrow> MooncakeTransferBackend \<times> 'e \<Rightarrow> (StatusCode + BufferHandle) \<times> MooncakeTransferBackend \<times> 'e" where
  "mb_RegisterBuffer en addr len on_gpu s =
     (let (mb, e) = s; (accepted, e1) = registerLocalMemory en addr len (PathToLocation (mb_config mb) on_gpu) e
      in if \<not> accepted then (Inl kAddressNotRegistered, mb, e1)
         else
           (let r = mb_next_reg_id mb
            in (Inr \<lparr>bh_addr = addr, bh_length = len, bh_reg_id = r, bh_on_gpu = on_gpu\<rparr>,
                mb\<lparr>mb_next_reg_id := r + 1, mb_live_registrations := mb_live_registrations mb @ [(r, addr)]\<rparr>, e1)))"

definition mb_DeregisterBuffer :: "'e engine \<Rightarrow> BufferHandle \<Rightarrow> MooncakeTransferBackend \<times> 'e \<Rightarrow> status \<times> MooncakeTransferBackend \<times> 'e" where
  "mb_DeregisterBuffer en h s =
     (let (mb, e) = s
      in if bh_reg_id h \<notin> fst ` set (mb_live_registrations mb) then (Failed kAddressNotRegistered, mb, e)
         else
           (let mb1 = mb\<lparr>mb_live_registrations := filter (\<lambda>ra. fst ra \<noteq> bh_reg_id h) (mb_live_registrations mb)\<rparr>;
                (accepted, e1) = unregisterLocalMemory en (bh_addr h) e
            in (if accepted then Ok else Failed kTransferFailed, mb1, e1)))"

definition mooncake_methods :: "'e engine \<Rightarrow> (MooncakeTransferBackend \<times> 'e) ITransferBackend" where
  "mooncake_methods en = \<lparr>RegisterBuffer = mb_RegisterBuffer en, DeregisterBuffer = mb_DeregisterBuffer en\<rparr>"

definition mb_SelectPath :: "MooncakeTransferBackend \<Rightarrow> BufferHandle TransferRequest \<Rightarrow> TransportPath" where
  "mb_SelectPath mb request =
     (if \<not> mb_rdma_installed mb then kTcp
      else if bh_on_gpu (tr_src request) \<or> bh_on_gpu (tr_dst request) then kGpuDirect
      else kRdma)"

text \<open>Microseconds.\<close>

definition kPollInterval :: nat where
  "kPollInterval = 50"

definition kTransferTimeout :: nat where
  "kTransferTimeout = 30 * 1000000"

text \<open>The code that \<^verbatim>\<open>freeBatchID\<close> returns is cast to void on every path.\<close>

partial_function (option) poll_transfer ::
  "'e engine \<Rightarrow> nat \<Rightarrow> nat \<Rightarrow> BlockKey \<Rightarrow> TransportPath \<Rightarrow> 'e \<Rightarrow> (transfer_result \<times> 'e) option" where
  "poll_transfer en batch deadline key path e =
     (let now = fst (clock_now en e); e1 = snd (clock_now en e)
      in if now < deadline
         then (let reply = fst (getTransferStatus en batch e1); e2 = snd (getTransferStatus en batch e1)
               in case reply of
                    None \<Rightarrow> Some (Inl (kTransferFailed, None), snd (freeBatchID en batch e2))
                  | Some (status, bytes) \<Rightarrow>
                      if status = STATUS_COMPLETED
                      then Some (Inr \<lparr>rc_key = key, rc_path = path, rc_transferred_bytes = bytes\<rparr>, snd (freeBatchID en batch e2))
                      else if status = STATUS_FAILED \<or> status = STATUS_TIMEOUT \<or> status = STATUS_CANCELED
                      then Some (Inl (kTransferFailed, Some key), snd (freeBatchID en batch e2))
                      else poll_transfer en batch deadline key path (sleep_for en kPollInterval e2))
         else Some (Inl (kTransferFailed, Some key), snd (freeBatchID en batch e1)))"

definition run_transfer ::
  "'e engine \<Rightarrow> int \<Rightarrow> BufferHandle TransferRequest \<Rightarrow> TransportPath \<Rightarrow> 'e \<Rightarrow> (transfer_result \<times> 'e) option" where
  "run_transfer en segment request path e =
     (case allocateBatchID en e of
        (None, e1) \<Rightarrow> Some (Inl (kTransferFailed, None), e1)
      | (Some batch, e1) \<Rightarrow>
          (let entry = \<lparr>en_source = bh_addr (tr_src request), en_target_id = segment, en_target_offset = bh_addr (tr_dst request),
                        en_length = bh_length (tr_src request)\<rparr>;
               (submitted, e2) = submitTransfer en batch entry e1
           in if \<not> submitted then Some (Inl (kTransferFailed, Some (tr_key request)), snd (freeBatchID en batch e2))
              else
                (let (now, e3) = clock_now en e2
                 in poll_transfer en batch (now + kTransferTimeout) (tr_key request) path e3)))"

text \<open>The transfer runs to its end in its own thread; its registrations are looked up before.\<close>

definition mb_SubmitAsync ::
  "'e engine \<Rightarrow> BufferHandle TransferRequest \<Rightarrow> MooncakeTransferBackend \<Rightarrow> 'e \<Rightarrow> (transfer_result \<times> 'e) option" where
  "mb_SubmitAsync en request mb e =
     (let live = fst ` set (mb_live_registrations mb)
      in if bh_reg_id (tr_src request) \<notin> live \<or> bh_reg_id (tr_dst request) \<notin> live then Some (Inl (kAddressNotRegistered, None), e)
         else run_transfer en (mb_segment mb) request (mb_SelectPath mb request) e)"

section \<open>Model of the in-memory double\<close>

text \<open>Besides the fields of the class: the memory that transfers copy.\<close>

record FakeTransferBackend =
  rdma_available :: bool
  gpu_direct_available :: bool
  fail_next_transfer :: int
  hold_transfers :: bool
  ft_next_reg_id :: nat
  ft_live_registrations :: "nat set"
  ft_register_count :: nat
  ft_deregister_count :: nat
  ft_submit_count :: nat
  ft_last_error :: "(BlockKey \<times> TransportPath) option"
  ft_memory :: "nat \<Rightarrow> u8"

definition FakeTransferBackend_init :: "(nat \<Rightarrow> u8) \<Rightarrow> FakeTransferBackend" where
  "FakeTransferBackend_init mem =
     \<lparr>rdma_available = True, gpu_direct_available = True, fail_next_transfer = 0, hold_transfers = False, ft_next_reg_id = 1,
      ft_live_registrations = {}, ft_register_count = 0, ft_deregister_count = 0, ft_submit_count = 0, ft_last_error = None,
      ft_memory = mem\<rparr>"

definition fake_RegisterBuffer ::
  "nat \<Rightarrow> nat \<Rightarrow> bool \<Rightarrow> FakeTransferBackend \<Rightarrow> (StatusCode + BufferHandle) \<times> FakeTransferBackend" where
  "fake_RegisterBuffer addr len on_gpu fb =
     (if addr = 0 \<or> len = 0 then (Inl kInvalidArgument, fb)
      else
        (let r = ft_next_reg_id fb
         in (Inr \<lparr>bh_addr = addr, bh_length = len, bh_reg_id = r, bh_on_gpu = on_gpu\<rparr>,
             fb\<lparr>ft_next_reg_id := r + 1, ft_live_registrations := insert r (ft_live_registrations fb),
                ft_register_count := ft_register_count fb + 1\<rparr>)))"

definition fake_DeregisterBuffer :: "BufferHandle \<Rightarrow> FakeTransferBackend \<Rightarrow> status \<times> FakeTransferBackend" where
  "fake_DeregisterBuffer h fb =
     (if bh_reg_id h \<notin> ft_live_registrations fb then (Failed kAddressNotRegistered, fb)
      else (Ok, fb\<lparr>ft_live_registrations := ft_live_registrations fb - {bh_reg_id h},
                   ft_deregister_count := ft_deregister_count fb + 1\<rparr>))"

definition fake_methods :: "FakeTransferBackend ITransferBackend" where
  "fake_methods = \<lparr>RegisterBuffer = fake_RegisterBuffer, DeregisterBuffer = fake_DeregisterBuffer\<rparr>"

definition fake_SelectPath :: "FakeTransferBackend \<Rightarrow> BufferHandle TransferRequest \<Rightarrow> TransportPath" where
  "fake_SelectPath fb request =
     (if (bh_on_gpu (tr_src request) \<or> bh_on_gpu (tr_dst request)) \<and> gpu_direct_available fb \<and> rdma_available fb then kGpuDirect
      else if rdma_available fb then kRdma
      else kTcp)"

text \<open>Copying between ranges that overlap is undefined behaviour.\<close>

definition memcpy :: "nat \<Rightarrow> nat \<Rightarrow> nat \<Rightarrow> (nat \<Rightarrow> u8) \<Rightarrow> (nat \<Rightarrow> u8) option" where
  "memcpy dst src n mem =
     (if n = 0 \<or> dst + n \<le> src \<or> src + n \<le> dst
      then Some (\<lambda>a. if dst \<le> a \<and> a < dst + n then mem (src + (a - dst)) else mem a) else None)"

lemma memcpy_disjoint:
  assumes "a + n \<le> a' \<or> a' + n \<le> a"
  obtains mem' where "memcpy a' a n mem = Some mem'" "map mem' [a'..<a' + n] = map mem [a..<a + n]"
    "\<And>x. x < a' \<or> a' + n \<le> x \<Longrightarrow> mem' x = mem x"
proof
  let ?mem = "\<lambda>x. if a' \<le> x \<and> x < a' + n then mem (a + (x - a')) else mem x"
  show "memcpy a' a n mem = Some ?mem" using assms by (auto simp: memcpy_def)
  show "map ?mem [a'..<a' + n] = map mem [a..<a + n]" by (rule nth_equalityI) simp_all
qed auto

text \<open>While transfers are held the call spins; that and undefined behaviour are the value \<open>None\<close>.\<close>

definition fake_SubmitAsync ::
  "BufferHandle TransferRequest \<Rightarrow> FakeTransferBackend \<Rightarrow> (transfer_result \<times> FakeTransferBackend) option" where
  "fake_SubmitAsync request fb =
     (if hold_transfers fb then None
      else
        (let path = fake_SelectPath fb request; live = ft_live_registrations fb; src = tr_src request; dst = tr_dst request;
             fb1 = fb\<lparr>ft_submit_count := ft_submit_count fb + 1\<rparr>
         in if bh_reg_id src \<notin> live \<or> bh_reg_id dst \<notin> live
            then Some (Inl (kAddressNotRegistered, Some (tr_key request)), fb1)
            else if 0 < fail_next_transfer fb
            then Some (Inl (kTransferFailed, Some (tr_key request)),
                       fb1\<lparr>fail_next_transfer := fail_next_transfer fb - 1, ft_last_error := Some (tr_key request, path)\<rparr>)
            else
              (let bytes = (if bh_length src < bh_length dst then bh_length src else bh_length dst)
               in map_option (\<lambda>mem. (Inr \<lparr>rc_key = tr_key request, rc_path = path, rc_transferred_bytes = bytes\<rparr>, fb1\<lparr>ft_memory := mem\<rparr>))
                    (memcpy (bh_addr dst) (bh_addr src) bytes (ft_memory fb)))))"

section \<open>Registrations\<close>

lemma od_dom_filter [simp]: "od_dom (filter (\<lambda>ra. fst ra \<noteq> r) xs) = od_dom xs - {r}"
  by (induction xs) auto

definition mb_live :: "MooncakeTransferBackend \<times> 'e \<Rightarrow> nat set" where
  "mb_live s = fst ` set (mb_live_registrations (fst s))"

definition mb_ok :: "MooncakeTransferBackend \<times> 'e \<Rightarrow> bool" where
  "mb_ok s \<longleftrightarrow> (\<forall>r \<in> mb_live s. r < mb_next_reg_id (fst s))"

interpretation mooncake: registrar "mooncake_methods en" mb_ok mb_live for en
  by unfold_locales
    (auto simp: mooncake_methods_def mb_ok_def mb_live_def mb_RegisterBuffer_def mb_DeregisterBuffer_def Let_def less_Suc_eq
      split: prod.splits if_splits)

definition fake_ok :: "FakeTransferBackend \<Rightarrow> bool" where
  "fake_ok fb \<longleftrightarrow> finite (ft_live_registrations fb) \<and> (\<forall>r \<in> ft_live_registrations fb. r < ft_next_reg_id fb)
     \<and> ft_register_count fb = ft_deregister_count fb + card (ft_live_registrations fb)"

lemma fake_register_ok: "fake_ok fb \<Longrightarrow> fake_ok (snd (fake_RegisterBuffer a n g fb))"
  by (auto simp: fake_ok_def fake_RegisterBuffer_def Let_def less_Suc_eq)

lemma fake_deregister_ok: "fake_ok fb \<Longrightarrow> fake_ok (snd (fake_DeregisterBuffer h fb))"
  using card_Suc_Diff1 [of "ft_live_registrations fb" "bh_reg_id h"] by (auto simp: fake_ok_def fake_DeregisterBuffer_def)

interpretation fake: registrar fake_methods fake_ok ft_live_registrations
  by unfold_locales
    (auto simp: fake_methods_def fake_register_ok fake_deregister_ok,
     auto simp: fake_ok_def fake_RegisterBuffer_def fake_DeregisterBuffer_def Let_def split: if_splits)

text \<open>The double counts: the registrations are the deregistrations plus the valid guards.\<close>

lemma fake_registrations_counted:
  assumes "(guard_step fake_methods)\<^sup>*\<^sup>* (guards_init (FakeTransferBackend_init mem)) s"
  shows "ft_register_count (snd s) = ft_deregister_count (snd s) + card (valid_guards s)"
proof -
  have "fake_ok (FakeTransferBackend_init mem)" "ft_live_registrations (FakeTransferBackend_init mem) = {}"
    by (simp_all add: fake_ok_def FakeTransferBackend_init_def)
  note P = fake.guards_paired [OF assms this]
  show ?thesis using P(1) card_image [OF P(3)] by (simp add: fake_ok_def P(2))
qed

text \<open>The double stands for the backend: from matching states both select the same path, hand out the same handles for the buffers
  both accept, forget the same registrations and refuse the same transfers.\<close>

definition double_of :: "FakeTransferBackend \<Rightarrow> MooncakeTransferBackend \<times> 'e \<Rightarrow> bool" where
  "double_of fb s \<longleftrightarrow> rdma_available fb = mb_rdma_installed (fst s) \<and> gpu_direct_available fb
     \<and> ft_next_reg_id fb = mb_next_reg_id (fst s) \<and> ft_live_registrations fb = mb_live s"

lemma dereg_frame:
  "mb_rdma_installed (fst (snd (mb_DeregisterBuffer en h s))) = mb_rdma_installed (fst s)"
  "mb_next_reg_id (fst (snd (mb_DeregisterBuffer en h s))) = mb_next_reg_id (fst s)"
  "rdma_available (snd (fake_DeregisterBuffer h fb)) = rdma_available fb"
  "gpu_direct_available (snd (fake_DeregisterBuffer h fb)) = gpu_direct_available fb"
  "ft_next_reg_id (snd (fake_DeregisterBuffer h fb)) = ft_next_reg_id fb"
  by (auto simp: mb_DeregisterBuffer_def fake_DeregisterBuffer_def Let_def split: prod.splits)

lemma double_registers:
  assumes "double_of fb s" "fake_RegisterBuffer a n g fb = (Inr h, fb')" "mb_RegisterBuffer en a n g s = (Inr h', s')"
  shows "h = h' \<and> double_of fb' s'"
  using assms by (auto simp: double_of_def fake_RegisterBuffer_def mb_RegisterBuffer_def mb_live_def Let_def split: prod.splits if_splits)

lemma double_deregisters:
  assumes "double_of fb s" "fake_DeregisterBuffer h fb = (st, fb')" "mb_DeregisterBuffer en h s = (st', s')"
  shows "(st = Failed kAddressNotRegistered \<longleftrightarrow> st' = Failed kAddressNotRegistered) \<and> double_of fb' s'"
proof -
  have "DeregisterBuffer fake_methods h fb = (st, fb')" "DeregisterBuffer (mooncake_methods en) h s = (st', s')"
    using assms(2,3) by (simp_all add: fake_methods_def mooncake_methods_def)
  then show ?thesis
    using assms mooncake.dereg_live [of en h s] mooncake.dereg_unknown [of en h s] fake.dereg_live [of h fb] fake.dereg_unknown [of h fb]
      dereg_frame(1,2) [of en h s] dereg_frame(3-5) [of h fb]
    by (simp add: double_of_def)
qed

lemma double_submits:
  assumes "double_of fb s"
  shows "fake_SelectPath fb request = mb_SelectPath (fst s) request"
    and "fake_SubmitAsync request fb = Some (Inl (kAddressNotRegistered, k), fb') \<Longrightarrow>
      mb_SubmitAsync en request (fst s) e = Some (Inl (kAddressNotRegistered, None), e)"
  using assms
  by (auto simp: double_of_def fake_SelectPath_def mb_SelectPath_def fake_SubmitAsync_def mb_SubmitAsync_def mb_live_def Let_def
      split: if_splits)

text \<open>A backend that was created has a transport and a segment; RDMA is used whenever it could be installed.\<close>

lemma Create_transport:
  assumes "Create en config e = (Inr mb, e')"
  shows "0 \<le> mb_segment mb \<and> mb_live_registrations mb = [] \<and> (mb_rdma_installed mb \<longrightarrow> mc_try_rdma config)"
  using assms by (auto simp: Create_def Let_def split: prod.splits if_splits)

section \<open>The calls of an engine\<close>

text \<open>Any engine can be run with a log of the calls that allocate, use and release batches and that give memory back; the
  log changes nothing else.\<close>

datatype engine_call =
    Allocated "nat option"
  | Submitted nat transfer_entry bool
  | Polled nat
  | Freed nat bool
  | Unregistered nat bool

definition logging :: "('e \<Rightarrow> 'r \<times> 'e) \<Rightarrow> ('r \<Rightarrow> engine_call list) \<Rightarrow> 'e \<times> engine_call list \<Rightarrow> 'r \<times> 'e \<times> engine_call list" where
  "logging call entry s = (let (r, e) = call (fst s) in (r, e, snd s @ entry r))"

definition recording :: "'e engine \<Rightarrow> ('e \<times> engine_call list) engine" where
  "recording en =
     \<lparr>createTransferEngine = (\<lambda>c n i p. logging (createTransferEngine en c n i p) (\<lambda>_. [])),
      installTransport = (\<lambda>t. logging (installTransport en t) (\<lambda>_. [])),
      openSegment = (\<lambda>n. logging (openSegment en n) (\<lambda>_. [])),
      closeSegment = (\<lambda>g (e, l). (closeSegment en g e, l)),
      destroyTransferEngine = (\<lambda>(e, l). (destroyTransferEngine en e, l)),
      registerLocalMemory = (\<lambda>a n t. logging (registerLocalMemory en a n t) (\<lambda>_. [])),
      unregisterLocalMemory = (\<lambda>a. logging (unregisterLocalMemory en a) (\<lambda>ok. [Unregistered a ok])),
      allocateBatchID = logging (allocateBatchID en) (\<lambda>b. [Allocated b]),
      submitTransfer = (\<lambda>b x. logging (submitTransfer en b x) (\<lambda>ok. [Submitted b x ok])),
      getTransferStatus = (\<lambda>b. logging (getTransferStatus en b) (\<lambda>_. [Polled b])),
      freeBatchID = (\<lambda>b. logging (freeBatchID en b) (\<lambda>ok. [Freed b ok])),
      clock_now = logging (clock_now en) (\<lambda>_. []),
      sleep_for = (\<lambda>d (e, l). (sleep_for en d e, l))\<rparr>"

lemma logging_simps [simp]:
  "fst (logging call entry (e, l)) = fst (call e)"
  "snd (logging call entry (e, l)) = (snd (call e), l @ entry (fst (call e)))"
  by (simp_all add: logging_def split: prod.splits)

lemma recording_simps [simp]:
  "registerLocalMemory (recording en) a n t = logging (registerLocalMemory en a n t) (\<lambda>_. [])"
  "unregisterLocalMemory (recording en) a = logging (unregisterLocalMemory en a) (\<lambda>ok. [Unregistered a ok])"
  "allocateBatchID (recording en) = logging (allocateBatchID en) (\<lambda>b. [Allocated b])"
  "submitTransfer (recording en) b x = logging (submitTransfer en b x) (\<lambda>ok. [Submitted b x ok])"
  "getTransferStatus (recording en) b = logging (getTransferStatus en b) (\<lambda>_. [Polled b])"
  "freeBatchID (recording en) b = logging (freeBatchID en b) (\<lambda>ok. [Freed b ok])"
  "clock_now (recording en) = logging (clock_now en) (\<lambda>_. [])"
  "sleep_for (recording en) d (e, l) = (sleep_for en d e, l)"
  by (simp_all add: recording_def)

section \<open>Transfers\<close>

text \<open>What the backend relies on, over three observations of the engine: the batches it holds, those with a request still
  pending and its clock. A new batch is not one it holds. A release is refused, without effect, while a request of
  the batch is pending, and a status of completed or failed means that it is not; the other statuses and a refused
  submission say nothing about it. Nothing else changes which batches are held. The clock does not go back
  and sleeping takes at least the time asked for.\<close>

definition engine_laws :: "'e engine \<Rightarrow> ('e \<Rightarrow> nat set) \<Rightarrow> ('e \<Rightarrow> nat set) \<Rightarrow> ('e \<Rightarrow> nat) \<Rightarrow> bool" where
  "engine_laws en batches pending time \<longleftrightarrow>
     (\<forall>e. case allocateBatchID en e of
            (None, e') \<Rightarrow> batches e' = batches e
          | (Some b, e') \<Rightarrow> b \<notin> batches e \<and> batches e' = insert b (batches e))
     \<and> (\<forall>b x e. batches (snd (submitTransfer en b x e)) = batches e)
     \<and> (\<forall>b e. batches (snd (getTransferStatus en b e)) = batches e \<and> time e \<le> time (snd (getTransferStatus en b e)))
     \<and> (\<forall>b e st n. fst (getTransferStatus en b e) = Some (st, n) \<and> (st = STATUS_COMPLETED \<or> st = STATUS_FAILED)
          \<longrightarrow> b \<notin> pending (snd (getTransferStatus en b e)))
     \<and> (\<forall>b e. fst (freeBatchID en b e) = (b \<notin> pending e))
     \<and> (\<forall>b e. batches (snd (freeBatchID en b e)) = (if b \<in> pending e then batches e else batches e - {b}))
     \<and> (\<forall>e. batches (snd (clock_now en e)) = batches e \<and> time e \<le> fst (clock_now en e) \<and> fst (clock_now en e) \<le> time (snd (clock_now en e)))
     \<and> (\<forall>d e. batches (sleep_for en d e) = batches e \<and> time e + d \<le> time (sleep_for en d e))"

lemma engine_lawsD:
  assumes "engine_laws en batches pending time"
  shows "allocateBatchID en e = (None, e') \<Longrightarrow> batches e' = batches e"
    and "allocateBatchID en e = (Some b, e') \<Longrightarrow> b \<notin> batches e \<and> batches e' = insert b (batches e)"
    and "batches (snd (submitTransfer en b x e)) = batches e"
    and "batches (snd (getTransferStatus en b e)) = batches e" "time e \<le> time (snd (getTransferStatus en b e))"
    and "fst (getTransferStatus en b e) = Some (STATUS_COMPLETED, n) \<Longrightarrow> b \<notin> pending (snd (getTransferStatus en b e))"
    and "fst (freeBatchID en b e) = (b \<notin> pending e)"
    and "batches (snd (freeBatchID en b e)) = (if b \<in> pending e then batches e else batches e - {b})"
    and "batches (snd (clock_now en e)) = batches e" "time e \<le> fst (clock_now en e)" "fst (clock_now en e) \<le> time (snd (clock_now en e))"
    and "batches (sleep_for en d e) = batches e" "time e + d \<le> time (sleep_for en d e)"
proof -
  note laws = assms [unfolded engine_laws_def]
  show "allocateBatchID en e = (None, e') \<Longrightarrow> batches e' = batches e"
    "allocateBatchID en e = (Some b, e') \<Longrightarrow> b \<notin> batches e \<and> batches e' = insert b (batches e)"
    using spec [OF conjunct1 [OF laws], of e] by auto
qed (use assms in \<open>auto simp: engine_laws_def\<close>)

text \<open>How polling a submitted batch ends: some polls, no more than fit before the deadline, then one release, and the answer.\<close>

definition polled :: "'e engine \<Rightarrow> ('e \<Rightarrow> nat set) \<Rightarrow> nat \<Rightarrow> nat \<Rightarrow> BlockKey \<Rightarrow> TransportPath \<Rightarrow> 'e \<Rightarrow> nat \<Rightarrow> bool" where
  "polled en batches batch deadline key path e slack \<longleftrightarrow>
     (\<exists>r e' n freed. poll_transfer en batch deadline key path e = Some (r, e')
       \<and> (\<forall>l. poll_transfer (recording en) batch deadline key path (e, l) = Some (r, e', l @ replicate n (Polled batch) @ [Freed batch freed]))
       \<and> n * kPollInterval < slack + kPollInterval
       \<and> batches e' = (if freed then batches e - {batch} else batches e)
       \<and> (case r of Inr receipt \<Rightarrow> freed \<and> rc_key receipt = key \<and> rc_path receipt = path | Inl (code, _) \<Rightarrow> code = kTransferFailed))"

text \<open>One round of the loop, on the engine and on the same engine with its log.\<close>

lemma poll_round:
  fixes en e batch
  defines "e1 \<equiv> snd (clock_now en e)"
  defines "reply \<equiv> fst (getTransferStatus en batch (snd (clock_now en e)))" and "e2 \<equiv> snd (getTransferStatus en batch (snd (clock_now en e)))"
  shows "\<not> fst (clock_now en e) < deadline \<Longrightarrow> poll_transfer en batch deadline key path e =
      Some (Inl (kTransferFailed, Some key), snd (freeBatchID en batch e1))"
    and "fst (clock_now en e) < deadline \<Longrightarrow> reply = None \<Longrightarrow> poll_transfer en batch deadline key path e =
      Some (Inl (kTransferFailed, None), snd (freeBatchID en batch e2))"
    and "fst (clock_now en e) < deadline \<Longrightarrow> reply = Some (STATUS_COMPLETED, bytes) \<Longrightarrow> poll_transfer en batch deadline key path e =
      Some (Inr \<lparr>rc_key = key, rc_path = path, rc_transferred_bytes = bytes\<rparr>, snd (freeBatchID en batch e2))"
    and "fst (clock_now en e) < deadline \<Longrightarrow> reply = Some (st, bytes) \<Longrightarrow> st \<in> {STATUS_FAILED, STATUS_TIMEOUT, STATUS_CANCELED} \<Longrightarrow>
      poll_transfer en batch deadline key path e = Some (Inl (kTransferFailed, Some key), snd (freeBatchID en batch e2))"
    and "fst (clock_now en e) < deadline \<Longrightarrow> reply = Some (STATUS_OTHER, bytes) \<Longrightarrow> poll_transfer en batch deadline key path e =
      poll_transfer en batch deadline key path (sleep_for en kPollInterval e2)"
  unfolding e1_def reply_def e2_def by (subst poll_transfer.simps; auto simp: Let_def)+

lemma poll_budget: "n * 50 < (deadline - t') + 50 \<Longrightarrow> t + 50 \<le> t' \<Longrightarrow> t < deadline \<Longrightarrow> Suc n * 50 < (deadline - t) + (50::nat)"
  by presburger

lemma poll_transfer_laws:
  assumes "engine_laws en batches pending time"
  shows "polled en batches batch deadline key path e (deadline - time e)"
proof (induction "deadline - time e" arbitrary: e rule: less_induct)
  case less
  note laws = engine_lawsD [OF assms]
  define e1 where "e1 = snd (clock_now en e)"
  define e2 where "e2 = snd (getTransferStatus en batch e1)"
  have b: "batches e1 = batches e" "batches e2 = batches e" by (simp_all add: e1_def e2_def laws)
  have t: "time e \<le> fst (clock_now en e)" "time e \<le> time e2"
    using order_trans [OF laws(10) [of e] order_trans [OF laws(11) [of e] laws(5)]] unfolding e1_def e2_def by (simp_all add: laws)
  have stop: "polled en batches batch deadline key path e (deadline - time e)"
    if "poll_transfer en batch deadline key path e = Some (r, snd (freeBatchID en batch e'))"
      and "\<And>l. poll_transfer (recording en) batch deadline key path (e, l) =
        Some (r, snd (freeBatchID en batch e'), l @ replicate n (Polled batch) @ [Freed batch (fst (freeBatchID en batch e'))])"
      and "n = 0 \<or> n = 1 \<and> time e < deadline" "batches e' = batches e"
      and "case r of Inr receipt \<Rightarrow> fst (freeBatchID en batch e') \<and> rc_key receipt = key \<and> rc_path receipt = path | Inl (code, _) \<Rightarrow> code = kTransferFailed"
    for r e' n
    unfolding polled_def
    by (rule exI [of _ r], rule exI [of _ "snd (freeBatchID en batch e')"], rule exI [of _ n], rule exI [of _ "fst (freeBatchID en batch e')"])
      (use that in \<open>auto simp: laws(7,8) kPollInterval_def\<close>)
  show ?case
  proof (cases "fst (clock_now en e) < deadline")
    case False
    then show ?thesis
      by (intro stop [of "Inl (kTransferFailed, Some key)" e1 0]) (simp_all add: poll_round(1) e1_def b(1) [unfolded e1_def])
  next
    case True
    then have before: "time e < deadline" using t(1) by simp
    consider (none) "fst (getTransferStatus en batch e1) = None"
      | (completed) n where "fst (getTransferStatus en batch e1) = Some (STATUS_COMPLETED, n)"
      | (failed) st n where "fst (getTransferStatus en batch e1) = Some (st, n)" "st \<in> {STATUS_FAILED, STATUS_TIMEOUT, STATUS_CANCELED}"
      | (other) n where "fst (getTransferStatus en batch e1) = Some (STATUS_OTHER, n)"
    proof (cases "fst (getTransferStatus en batch e1)")
      case (Some p)
      obtain st n where p: "p = (st, n)" by fastforce
      with Some that show thesis by (cases st) simp_all
    qed (use that in simp)
    then show ?thesis
    proof cases
      case none
      with True show ?thesis
        by (intro stop [of "Inl (kTransferFailed, None)" e2 1]) (simp_all add: poll_round(2) e1_def e2_def before b(2) [unfolded e1_def e2_def])
    next
      case completed
      have "fst (freeBatchID en batch e2)" using laws(6) completed by (simp add: laws(7) e2_def)
      with True completed show ?thesis
        by (intro stop [of "Inr \<lparr>rc_key = key, rc_path = path, rc_transferred_bytes = n\<rparr>" e2 1])
          (simp_all add: poll_round(3) e1_def e2_def before b(2) [unfolded e1_def e2_def])
    next
      case failed
      with True show ?thesis
        by (intro stop [of "Inl (kTransferFailed, Some key)" e2 1])
          (simp_all add: poll_round(4) [where st = st] e1_def e2_def before b(2) [unfolded e1_def e2_def])
    next
      case other
      let ?e = "sleep_for en kPollInterval e2"
      have s: "batches ?e = batches e" "time e2 + kPollInterval \<le> time ?e" using laws(12,13) b(2) by auto
      then have "deadline - time ?e < deadline - time e" using before t unfolding kPollInterval_def by linarith
      from less [OF this] obtain r e' n freed where ih: "poll_transfer en batch deadline key path ?e = Some (r, e')"
        "\<And>l. poll_transfer (recording en) batch deadline key path (?e, l) = Some (r, e', l @ replicate n (Polled batch) @ [Freed batch freed])"
        "n * kPollInterval < (deadline - time ?e) + kPollInterval" "batches e' = (if freed then batches ?e - {batch} else batches ?e)"
        "case r of Inr receipt \<Rightarrow> freed \<and> rc_key receipt = key \<and> rc_path receipt = path | Inl (code, _) \<Rightarrow> code = kTransferFailed"
        unfolding polled_def by blast
      have "Suc n * kPollInterval < (deadline - time e) + kPollInterval"
        using poll_budget ih(3) order_trans [OF add_right_mono [OF t(2)] s(2)] before unfolding kPollInterval_def by blast
      then show ?thesis unfolding polled_def
        by (intro exI [of _ r] exI [of _ e'] exI [of _ "Suc n"] exI [of _ freed])
          (use ih True other in \<open>simp add: poll_round(5) e1_def [symmetric] e2_def [symmetric] s(1)\<close>)
    qed
  qed
qed

text \<open>The single request that a transfer submits: the whole source buffer, to the address of the target buffer in the segment.\<close>

definition entry_of :: "int \<Rightarrow> BufferHandle TransferRequest \<Rightarrow> transfer_entry" where
  "entry_of segment request =
     \<lparr>en_source = bh_addr (tr_src request), en_target_id = segment, en_target_offset = bh_addr (tr_dst request),
      en_length = bh_length (tr_src request)\<rparr>"

lemma run_transfer_laws:
  assumes "engine_laws en batches pending time"
  shows "\<exists>r e' calls. run_transfer en segment request path e = Some (r, e')
    \<and> run_transfer (recording en) segment request path (e, []) = Some (r, e', calls)
    \<and> (calls = [Allocated None] \<and> r = Inl (kTransferFailed, None) \<and> batches e' = batches e
       \<or> (\<exists>b ok n freed. b \<notin> batches e \<and> n \<le> 600000
            \<and> calls = [Allocated (Some b), Submitted b (entry_of segment request) ok] @ replicate n (Polled b) @ [Freed b freed]
            \<and> (case r of Inr receipt \<Rightarrow> ok \<and> freed \<and> rc_key receipt = tr_key request \<and> rc_path receipt = path
                       | Inl (code, _) \<Rightarrow> code = kTransferFailed)
            \<and> batches e' = (if freed then batches e else insert b (batches e))))"
proof -
  note laws = engine_lawsD [OF assms]
  obtain b e1 where a: "allocateBatchID en e = (b, e1)" by fastforce
  show ?thesis
  proof (cases b)
    case None
    then show ?thesis using a laws(1) [of e e1] by (simp add: run_transfer_def logging_def)
  next
    case (Some batch)
    have e1: "batch \<notin> batches e" "batches e1 = insert batch (batches e)" using laws(2) [of e batch e1] a Some by auto
    let ?x = "entry_of segment request"
    obtain ok e2 where e2: "submitTransfer en batch ?x e1 = (ok, e2)" by fastforce
    have b2: "batches e2 = insert batch (batches e)" using laws(3) [of batch ?x e1] e1 e2 by simp
    show ?thesis
    proof (cases ok)
      case False
      let ?f = "freeBatchID en batch e2"
      have "run_transfer en segment request path e = Some (Inl (kTransferFailed, Some (tr_key request)), snd ?f)"
        "run_transfer (recording en) segment request path (e, []) = Some (Inl (kTransferFailed, Some (tr_key request)), snd ?f,
           [Allocated (Some batch), Submitted batch ?x False] @ replicate 0 (Polled batch) @ [Freed batch (fst ?f)])"
        using a Some e2 False by (simp_all add: run_transfer_def entry_of_def logging_def split: prod.splits)
      moreover have "batches (snd ?f) = (if fst ?f then batches e else insert batch (batches e))"
        using laws(7,8) b2 e1(1) by simp
      ultimately show ?thesis using e1(1) False by fastforce
    next
      case True
      obtain now e3 where e3: "clock_now en e2 = (now, e3)" by fastforce
      have b3: "batches e3 = insert batch (batches e)" and now: "now \<le> time e3" using laws(9,11) [of e2] b2 e3 by simp_all
      obtain r e' n freed where pl: "poll_transfer en batch (now + kTransferTimeout) (tr_key request) path e3 = Some (r, e')"
        "\<And>l. poll_transfer (recording en) batch (now + kTransferTimeout) (tr_key request) path (e3, l) =
          Some (r, e', l @ replicate n (Polled batch) @ [Freed batch freed])"
        "n * kPollInterval < (now + kTransferTimeout - time e3) + kPollInterval"
        "batches e' = (if freed then batches e3 - {batch} else batches e3)"
        "case r of Inr receipt \<Rightarrow> freed \<and> rc_key receipt = tr_key request \<and> rc_path receipt = path | Inl (code, _) \<Rightarrow> code = kTransferFailed"
        using poll_transfer_laws [OF assms, of batch "now + kTransferTimeout" "tr_key request" path e3] unfolding polled_def by blast
      have n: "n \<le> 600000" using pl(3) now unfolding kPollInterval_def kTransferTimeout_def by linarith
      have run: "run_transfer en segment request path e = Some (r, e')"
        "run_transfer (recording en) segment request path (e, []) = Some (r, e',
           [Allocated (Some batch), Submitted batch ?x True] @ replicate n (Polled batch) @ [Freed batch freed])"
        using a Some e2 e3 True pl(1,2) by (simp_all add: run_transfer_def entry_of_def logging_def)
      have "batches e' = (if freed then batches e else insert batch (batches e))" using pl(4) b3 e1(1) by auto
      with n pl(5) e1(1) have "batch \<notin> batches e \<and> n \<le> 600000
         \<and> [Allocated (Some batch), Submitted batch ?x True] @ replicate n (Polled batch) @ [Freed batch freed] =
           [Allocated (Some batch), Submitted batch ?x True] @ replicate n (Polled batch) @ [Freed batch freed]
         \<and> (case r of Inr receipt \<Rightarrow> True \<and> freed \<and> rc_key receipt = tr_key request \<and> rc_path receipt = path
                    | Inl (code, _) \<Rightarrow> code = kTransferFailed)
         \<and> batches e' = (if freed then batches e else insert batch (batches e))" by (cases r) simp_all
      with run show ?thesis by blast
    qed
  qed
qed

text \<open>The transfer has the length of its source: the length of the target buffer has no influence on it.\<close>

lemma target_length_ignored:
  "mb_SubmitAsync en (request\<lparr>tr_dst := (tr_dst request)\<lparr>bh_length := n\<rparr>\<rparr>) mb e = mb_SubmitAsync en request mb e"
proof -
  let ?request = "request\<lparr>tr_dst := (tr_dst request)\<lparr>bh_length := n\<rparr>\<rparr>"
  have same: "tr_src ?request = tr_src request" "tr_key ?request = tr_key request" "bh_addr (tr_dst ?request) = bh_addr (tr_dst request)"
      "bh_reg_id (tr_dst ?request) = bh_reg_id (tr_dst request)" "bh_on_gpu (tr_dst ?request) = bh_on_gpu (tr_dst request)" by simp_all
  show ?thesis unfolding mb_SubmitAsync_def mb_SelectPath_def run_transfer_def same by (rule refl)
qed

section \<open>Memory\<close>

text \<open>What the engine does with memory, over the addresses of the regions it holds: it accepts no region it already holds, and a
  refused call changes nothing.\<close>

definition engine_memory :: "'e engine \<Rightarrow> ('e \<Rightarrow> nat set) \<Rightarrow> bool" where
  "engine_memory en regs \<longleftrightarrow>
     (\<forall>a n t e. case registerLocalMemory en a n t e of
          (True, e') \<Rightarrow> a \<notin> regs e \<and> regs e' = insert a (regs e) | (False, e') \<Rightarrow> regs e' = regs e)
     \<and> (\<forall>a e. case unregisterLocalMemory en a e of (True, e') \<Rightarrow> regs e' = regs e - {a} | (False, e') \<Rightarrow> regs e' = regs e)"

lemma engine_memoryD:
  assumes "engine_memory en regs"
  shows "registerLocalMemory en a n t e = (ok, e') \<Longrightarrow> if ok then a \<notin> regs e \<and> regs e' = insert a (regs e) else regs e' = regs e"
    and "unregisterLocalMemory en a e = (ok, e') \<Longrightarrow> regs e' = (if ok then regs e - {a} else regs e)"
proof -
  have "case registerLocalMemory en a n t e of
      (True, e') \<Rightarrow> a \<notin> regs e \<and> regs e' = insert a (regs e) | (False, e') \<Rightarrow> regs e' = regs e"
    by (rule assms [unfolded engine_memory_def, THEN conjunct1, THEN spec, THEN spec, THEN spec, THEN spec])
  moreover have "case unregisterLocalMemory en a e of (True, e') \<Rightarrow> regs e' = regs e - {a} | (False, e') \<Rightarrow> regs e' = regs e"
    by (rule assms [unfolded engine_memory_def, THEN conjunct2, THEN spec, THEN spec])
  ultimately show "registerLocalMemory en a n t e = (ok, e') \<Longrightarrow> if ok then a \<notin> regs e \<and> regs e' = insert a (regs e) else regs e' = regs e"
    and "unregisterLocalMemory en a e = (ok, e') \<Longrightarrow> regs e' = (if ok then regs e - {a} else regs e)"
    by (auto split: bool.splits)
qed

text \<open>A run of guards on an engine is a run on the engine with its log.\<close>

definition with_log :: "(MooncakeTransferBackend \<times> 'e) guard_state \<Rightarrow> engine_call list \<Rightarrow> (MooncakeTransferBackend \<times> 'e \<times> engine_call list) guard_state" where
  "with_log s l = (fst s, fst (snd s), snd (snd s), l)"

lemma recorded_calls:
  "mb_RegisterBuffer (recording en) a n g (mb, e, l) = (fst (mb_RegisterBuffer en a n g (mb, e)), fst (snd (mb_RegisterBuffer en a n g (mb, e))),
     snd (snd (mb_RegisterBuffer en a n g (mb, e))), l)"
  "\<exists>l'. mb_DeregisterBuffer (recording en) h (mb, e, l) = (fst (mb_DeregisterBuffer en h (mb, e)), fst (snd (mb_DeregisterBuffer en h (mb, e))),
     snd (snd (mb_DeregisterBuffer en h (mb, e))), l')"
  by (auto simp: mb_RegisterBuffer_def mb_DeregisterBuffer_def logging_def Let_def split: prod.splits)

lemma recorded_destroy:
  "\<exists>l'. destroy_guard (mooncake_methods (recording en)) i (with_log s l) = with_log (destroy_guard (mooncake_methods en) i s) l'"
  using recorded_calls(2) [of en "sr_handle (fst s i)" "fst (snd s)" "snd (snd s)" l]
  by (auto simp: destroy_guard_def Release_def with_log_def mooncake_methods_def)

lemma recorded_construct:
  "construct_guard (mooncake_methods (recording en)) i a n g (with_log s l) = with_log (construct_guard (mooncake_methods en) i a n g s) l"
  by (simp add: construct_guard_def ScopedRegistration_init_def with_log_def mooncake_methods_def recorded_calls(1) Let_def
      split: prod.splits sum.splits)

lemma recorded_move: "move_construct i j (with_log s l) = with_log (move_construct i j s) l"
  by (simp add: move_construct_def with_log_def)

lemma recorded_step:
  assumes "guard_step (mooncake_methods en) s s'"
  shows "\<exists>l'. guard_step (mooncake_methods (recording en)) (with_log s l) (with_log s' l')"
  using assms
proof cases
  case (constructed i a n g)
  then show ?thesis using guard_step.constructed [of "with_log s l" i "mooncake_methods (recording en)" a n g]
    unfolding recorded_construct by (auto simp: with_log_def)
next
  case (moved i j)
  then show ?thesis using guard_step.moved [of i j "with_log s l" "mooncake_methods (recording en)"]
    unfolding recorded_move by (auto simp: with_log_def)
next
  case (assigned i j)
  obtain l' where "move_assign (mooncake_methods (recording en)) i j (with_log s l) = with_log s' l'"
    using recorded_destroy [of en i s l] assigned
    by (cases "i = j") (auto simp: move_assign_def [of _ j j] move_assign_eq recorded_move)
  then show ?thesis using guard_step.assigned by metis
next
  case (destroyed i)
  then show ?thesis using recorded_destroy [of en i s l] guard_step.destroyed by metis
qed

lemma recorded_run:
  assumes "(guard_step (mooncake_methods en))\<^sup>*\<^sup>* s s'"
  shows "\<exists>l'. (guard_step (mooncake_methods (recording en)))\<^sup>*\<^sup>* (with_log s l) (with_log s' l')"
  using assms by induction (auto, meson recorded_step rtranclp.rtrancl_into_rtrancl)

text \<open>The addresses that the engine refused to give back, and the memory of a run: the engine holds what it held at the start,
  the buffers of the valid guards and the refused ones.\<close>

definition refused :: "engine_call list \<Rightarrow> nat set" where
  "refused l = {a. Unregistered a False \<in> set l}"

definition memory_inv :: "('e \<Rightarrow> nat set) \<Rightarrow> nat set \<Rightarrow> (MooncakeTransferBackend \<times> 'e \<times> engine_call list) guard_state \<Rightarrow> bool" where
  "memory_inv regs base s \<longleftrightarrow>
     (let e = fst (snd (snd s)); l = snd (snd (snd s)); H = guard_handles s
      in inj_on bh_addr H \<and> regs e = base \<union> bh_addr ` H \<union> refused l \<and> bh_addr ` H \<inter> (base \<union> refused l) = {})"

lemma memory_registered:
  assumes "engine_memory en regs" "memory_inv regs base (gs, mb, e, l)" "mb_RegisterBuffer (recording en) a n g (mb, e, l) = (r, b')"
    and "guard_handles (gs', b') = (case r of Inl _ \<Rightarrow> {} | Inr h \<Rightarrow> {h}) \<union> guard_handles (gs, mb, e, l)"
  shows "memory_inv regs base (gs', b')"
proof -
  obtain ok e' where c: "registerLocalMemory en a n (PathToLocation (mb_config mb) g) e = (ok, e')" by fastforce
  then have m: "if ok then a \<notin> regs e \<and> regs e' = insert a (regs e) else regs e' = regs e"
    by (rule engine_memoryD(1) [OF assms(1)])
  show ?thesis
  proof (cases ok)
    case True
    then obtain h mb' where "r = Inr h" "bh_addr h = a" "b' = (mb', e', l)"
      using assms(3) c by (auto simp: mb_RegisterBuffer_def logging_def Let_def)
    with assms(2,4) m True show ?thesis by (auto simp: memory_inv_def Let_def)
  next
    case False
    then have "\<exists>x. r = Inl x" "b' = (mb, e', l)" using assms(3) c by (auto simp: mb_RegisterBuffer_def logging_def)
    with assms(2,4) m False show ?thesis by (auto simp: memory_inv_def Let_def)
  qed
qed

lemma memory_deregistered:
  assumes "engine_memory en regs" "memory_inv regs base (gs, mb, e, l)" "h \<in> guard_handles (gs, mb, e, l)"
    and "bh_reg_id h \<in> mb_live (mb, e, l)" "b' = snd (mb_DeregisterBuffer (recording en) h (mb, e, l))"
    and "guard_handles (gs', b') = guard_handles (gs, mb, e, l) - {h}"
  shows "memory_inv regs base (gs', b')"
proof -
  let ?H = "guard_handles (gs, mb, e, l)"
  obtain ok e' where c: "unregisterLocalMemory en (bh_addr h) e = (ok, e')" by fastforce
  then have m: "regs e' = (if ok then regs e - {bh_addr h} else regs e)"
    by (rule engine_memoryD(2) [OF assms(1)])
  obtain mb' where b': "b' = (mb', e', l @ [Unregistered (bh_addr h) ok])"
    using assms(4,5) c by (auto simp: mb_DeregisterBuffer_def mb_live_def logging_def Let_def)
  have inj: "inj_on bh_addr ?H" and R: "regs e = base \<union> bh_addr ` ?H \<union> refused l" and D: "bh_addr ` ?H \<inter> (base \<union> refused l) = {}"
    using assms(2) by (simp_all add: memory_inv_def Let_def)
  have im: "bh_addr ` (?H - {h}) = bh_addr ` ?H - {bh_addr h}" using inj_on_image_set_diff [OF inj, of ?H "{h}"] assms(3) by simp
  have a: "bh_addr h \<in> bh_addr ` ?H" using assms(3) by simp
  have ref: "refused (l @ [Unregistered (bh_addr h) ok]) = (if ok then refused l else insert (bh_addr h) (refused l))"
    by (auto simp: refused_def)
  have "regs e' = base \<union> (bh_addr ` ?H - {bh_addr h}) \<union> (if ok then refused l else insert (bh_addr h) (refused l))"
    unfolding m R using D a by (cases ok) (simp_all, blast+)
  moreover have "(bh_addr ` ?H - {bh_addr h}) \<inter> (base \<union> (if ok then refused l else insert (bh_addr h) (refused l))) = {}"
    using D by (cases ok) (simp_all, blast+)
  moreover have "inj_on bh_addr (?H - {h})" using inj by (rule inj_on_diff)
  ultimately show ?thesis
    unfolding memory_inv_def b' Let_def assms(6) [unfolded b'] im snd_conv fst_conv ref by blast
qed

lemma memory_step:
  assumes "engine_memory en regs" "guard_step (mooncake_methods (recording en)) s s'" "mooncake.guards_inv s"
    and "memory_inv regs base s"
  shows "memory_inv regs base s'"
proof -
  obtain gs mb e l where s: "s = (gs, mb, e, l)" by (cases s) auto
  obtain gs' b' where s': "s' = (gs', b')" by (cases s')
  from assms(2,3) show ?thesis
  proof (cases rule: mooncake.guard_step_effect)
    case same
    with assms(4) show ?thesis by (simp add: memory_inv_def)
  next
    case (registered a n g r)
    then show ?thesis using memory_registered [OF assms(1) assms(4) [unfolded s], of a n g r b' gs']
      by (simp add: s s' mooncake_methods_def)
  next
    case (deregistered h)
    have "mb_live (snd s) = guard_id s ` valid_guards s" by (rule mooncake.guards_invD(3) [OF assms(3)])
    then have "bh_reg_id h \<in> mb_live (snd s)" using deregistered(1) by (auto simp: guard_handles_def)
    with deregistered show ?thesis
      using memory_deregistered [OF assms(1) assms(4) [unfolded s], of h b' gs'] by (simp add: s s' mooncake_methods_def)
  qed
qed

lemma memory_run:
  assumes "engine_memory en regs" "(guard_step (mooncake_methods (recording en)))\<^sup>*\<^sup>* (guards_init (mb, e, [])) s"
    and "mb_ok (mb, e, [] :: engine_call list)" "mb_live (mb, e, [] :: engine_call list) = {}"
  shows "memory_inv regs (regs e) s"
  using assms(2)
proof induction
  case base
  show ?case by (simp add: memory_inv_def guards_init_def guard_handles_def valid_guards_def no_guard_def refused_def)
next
  case (step s s')
  show ?case by (rule memory_step [OF assms(1) step.hyps(2) mooncake.guards_reached [OF step.hyps(1) assms(3,4)] step.IH])
qed

section \<open>Properties\<close>

text \<open>C18. A submitted transfer always comes to an end. Unregistered buffers are refused before the engine is called. Otherwise one
  batch is asked for; if there is one it is new, gets one request, for the whole source buffer, is polled at most 600000
  times and released exactly once, as the last call. A receipt names the key and the selected path, and then the
  batch is gone; every failure is a failed transfer. A batch stays with the engine after a failure exactly if
  the engine refused the release because the request was still pending, whose code the backend ignores.\<close>
theorem transfer_returns:
  assumes "engine_laws en batches pending time"
  shows "\<exists>r e' calls. mb_SubmitAsync en request mb e = Some (r, e') \<and> mb_SubmitAsync (recording en) request mb (e, []) = Some (r, e', calls)
    \<and> (if {bh_reg_id (tr_src request), bh_reg_id (tr_dst request)} \<subseteq> fst ` set (mb_live_registrations mb)
       then calls = [Allocated None] \<and> r = Inl (kTransferFailed, None) \<and> batches e' = batches e
         \<or> (\<exists>b ok n freed. b \<notin> batches e \<and> n \<le> 600000
              \<and> calls = [Allocated (Some b), Submitted b (entry_of (mb_segment mb) request) ok] @ replicate n (Polled b) @ [Freed b freed]
              \<and> (case r of Inr receipt \<Rightarrow> ok \<and> freed \<and> rc_key receipt = tr_key request \<and> rc_path receipt = mb_SelectPath mb request
                         | Inl (code, _) \<Rightarrow> code = kTransferFailed)
              \<and> batches e' = (if freed then batches e else insert b (batches e)))
       else calls = [] \<and> r = Inl (kAddressNotRegistered, None) \<and> e' = e)"
  using run_transfer_laws [OF assms, of "mb_segment mb" request "mb_SelectPath mb request" e]
  by (auto simp: mb_SubmitAsync_def Let_def)

text \<open>C35. Registrations are paired on the production backend, whatever its engine answers: whatever sequence of constructions, moves,
  assignments and destructions of guards a program runs, the live registrations are exactly those of the valid guards and no
  two guards share one. The engine holds the memory it held before, that of the valid guards and that of the buffers it
  refused to give back, and nothing else; the adapter forgets a refused buffer. So when all guards are gone and
  nothing was refused, no memory stays registered, and the destructor of the backend has nothing to give back.\<close>
theorem registrations_paired:
  assumes "Create en config e = (Inr mb, e1)" "(guard_step (mooncake_methods en))\<^sup>*\<^sup>* (guards_init (mb, e1)) s"
    and "engine_memory en regs"
  shows "fst ` set (mb_live_registrations (fst (snd s))) = guard_id s ` valid_guards s \<and> inj_on (guard_id s) (valid_guards s)
    \<and> (\<exists>calls. (guard_step (mooncake_methods (recording en)))\<^sup>*\<^sup>* (guards_init (mb, e1, [])) (with_log s calls)
        \<and> regs (snd (snd s)) = regs e1 \<union> bh_addr ` guard_handles s \<union> refused calls)
    \<and> (valid_guards s = {} \<longrightarrow> mb_live_registrations (fst (snd s)) = []
        \<and> destroy_backend en (fst (snd s)) e2 = destroyTransferEngine en (closeSegment en (mb_segment (fst (snd s))) e2))"
proof -
  have "mb_ok (mb, e1)" "mb_live (mb, e1) = {}" and log: "mb_ok (mb, e1, [] :: engine_call list)"
      "mb_live (mb, e1, [] :: engine_call list) = {}"
    using Create_transport [OF assms(1)] by (simp_all add: mb_ok_def mb_live_def)
  note P = mooncake.guards_paired [OF assms(2) this(1,2)]
  have "mb_live_registrations (fst (snd s)) = []" if "valid_guards s = {}"
    using P(2) that by (cases "mb_live_registrations (fst (snd s))") (auto simp: mb_live_def)
  moreover obtain calls where r: "(guard_step (mooncake_methods (recording en)))\<^sup>*\<^sup>* (guards_init (mb, e1, [])) (with_log s calls)"
    using recorded_run [OF assms(2), of "[]"] by (auto simp: with_log_def guards_init_def)
  moreover have "guard_handles (with_log s calls) = guard_handles s" by (simp add: with_log_def guard_handles_def valid_guards_def)
  then have "regs (snd (snd s)) = regs e1 \<union> bh_addr ` guard_handles s \<union> refused calls"
    using memory_run [OF assms(3) r log] by (simp add: memory_inv_def with_log_def Let_def)
  ultimately show ?thesis using P by (auto simp: mb_live_def destroy_backend_def)
qed

text \<open>An engine that hands out the identifier after the sum of those in use, completes every transfer at time 100, takes every
  address once and does not give address 8192 back. Its state: the time, the batches, the addresses.\<close>

definition demo_engine :: "(nat \<times> nat list \<times> nat list) engine" where
  "demo_engine =
     \<lparr>createTransferEngine = (\<lambda>_ _ _ _ e. (True, e)), installTransport = (\<lambda>_ e. (True, e)), openSegment = (\<lambda>_ e. (0, e)),
      closeSegment = (\<lambda>_ e. e), destroyTransferEngine = (\<lambda>e. e),
      registerLocalMemory = (\<lambda>a _ _ (t, bs, rs). if a \<in> set rs then (False, t, bs, rs) else (True, t, bs, a # rs)),
      unregisterLocalMemory = (\<lambda>a (t, bs, rs). if a = 8192 then (False, t, bs, rs) else (True, t, bs, filter (\<lambda>x. x \<noteq> a) rs)),
      allocateBatchID = (\<lambda>(t, bs, rs). let b = sum_list bs + 1 in (Some b, t, b # bs, rs)), submitTransfer = (\<lambda>_ _ e. (True, e)),
      getTransferStatus = (\<lambda>_ (t, bs, rs). (Some (if t < 100 then STATUS_OTHER else STATUS_COMPLETED, 8), t, bs, rs)),
      freeBatchID = (\<lambda>b (t, bs, rs). if t < 100 \<and> b \<in> set bs then (False, t, bs, rs) else (True, t, filter (\<lambda>x. x \<noteq> b) bs, rs)),
      clock_now = (\<lambda>(t, bs, rs). (t, t, bs, rs)), sleep_for = (\<lambda>d (t, bs, rs). (t + d, bs, rs))\<rparr>"

definition demo_backend :: MooncakeTransferBackend where
  "demo_backend = \<lparr>mb_config = \<lparr>mc_metadata_conn_string = [], mc_local_server_name = ''a'', mc_ip_or_host_name = [], mc_rpc_port = 12345,
       mc_try_rdma = True, mc_gpu_location = ''cuda:0'', mc_remote_segment_name = []\<rparr>,
     mb_rdma_installed = True, mb_segment = 0, mb_next_reg_id = 3, mb_live_registrations = [(1, 16), (2, 32)]\<rparr>"

definition demo_request :: "BufferHandle TransferRequest" where
  "demo_request = \<lparr>tr_key = \<lparr>bk_hash_id = 7, bk_layer = 0, bk_version = 1\<rparr>,
     tr_src = \<lparr>bh_addr = 16, bh_length = 8, bh_reg_id = 1, bh_on_gpu = False\<rparr>,
     tr_dst = \<lparr>bh_addr = 32, bh_length = 8, bh_reg_id = 2, bh_on_gpu = True\<rparr>, tr_preferred = kRdma\<rparr>"

theorem transfer_returns_witness:
  "\<exists>r e calls. mb_SubmitAsync (recording demo_engine) demo_request demo_backend ((0, [], []), []) = Some (r, e, calls)
     \<and> (\<forall>receipt. r = Inr receipt \<longrightarrow> rc_path receipt = kGpuDirect \<and> (\<exists>b. Freed b True \<in> set calls) \<and> set (fst (snd e)) = {})"
proof -
  have "sum_list bs + 1 \<notin> set bs" for bs :: "nat list" using member_le_sum_list [of _ bs] by fastforce
  then have laws: "engine_laws demo_engine (set \<circ> fst \<circ> snd) (\<lambda>(t, bs, rs). if t < 100 then set bs else {}) fst"
    by (auto simp: engine_laws_def demo_engine_def Let_def)
  have path: "mb_SelectPath demo_backend demo_request = kGpuDirect"
    and live: "{bh_reg_id (tr_src demo_request), bh_reg_id (tr_dst demo_request)} \<subseteq> fst ` set (mb_live_registrations demo_backend)"
    by (simp_all add: mb_SelectPath_def demo_backend_def demo_request_def)
  obtain r e calls where s: "mb_SubmitAsync (recording demo_engine) demo_request demo_backend ((0, [], []), []) = Some (r, e, calls)"
    and "r = Inl (kTransferFailed, None) \<or> (\<exists>b freed. Freed b freed \<in> set calls
        \<and> (case r of Inr receipt \<Rightarrow> freed \<and> rc_path receipt = kGpuDirect | Inl (code, _) \<Rightarrow> code = kTransferFailed)
        \<and> set (fst (snd e)) = (if freed then {} else {b}))"
    using transfer_returns [OF laws, of demo_request demo_backend "(0, [], [])"]
    unfolding if_P [OF live] path by (elim exE conjE disjE) (force split: sum.splits)+
  then show ?thesis by (intro exI [of _ r] exI [of _ e] exI [of _ calls]) (auto split: if_splits)
qed

text \<open>An engine whose transfers stay pending and whose sleeps last a minute: the transfer is given up at its deadline, the release is
  refused, the backend ignores that and the batch stays allocated.\<close>

definition stuck_engine :: "(nat \<times> nat list \<times> nat list) engine" where
  "stuck_engine = demo_engine
     \<lparr>getTransferStatus := (\<lambda>_ e. (Some (STATUS_OTHER, 0), e)),
      freeBatchID := (\<lambda>b (t, bs, rs). if b \<in> set bs then (False, t, bs, rs) else (True, t, bs, rs)),
      sleep_for := (\<lambda>d (t, bs, rs). (t + d + 60000000, bs, rs))\<rparr>"

lemma pending_batch_leaks:
  "engine_laws stuck_engine (set \<circ> fst \<circ> snd) (set \<circ> fst \<circ> snd) fst"
  "mb_SubmitAsync stuck_engine demo_request demo_backend (0, [], []) = Some (Inl (kTransferFailed, Some (tr_key demo_request)), 60000050, [1], [])"
proof -
  have "sum_list bs + 1 \<notin> set bs" for bs :: "nat list" using member_le_sum_list [of _ bs] by fastforce
  then show "engine_laws stuck_engine (set \<circ> fst \<circ> snd) (set \<circ> fst \<circ> snd) fst"
    by (auto simp: engine_laws_def stuck_engine_def demo_engine_def Let_def)
  have sim: "clock_now stuck_engine e = (fst e, e)" "getTransferStatus stuck_engine b e = (Some (STATUS_OTHER, 0), e)"
    "freeBatchID stuck_engine 1 (t, [1], []) = (False, t, [1], [])" "sleep_for stuck_engine d (t, bs, rs) = (t + d + 60000000, bs, rs)"
    for e b t d bs rs
    by (simp_all add: stuck_engine_def demo_engine_def split: prod.split)
  have start: "allocateBatchID stuck_engine (0, [], []) = (Some 1, 0, [1], [])" "submitTransfer stuck_engine b x e = (True, e)" for b x e
    by (simp_all add: stuck_engine_def demo_engine_def)
  have late: "poll_transfer stuck_engine 1 30000000 key path (60000050, [1], []) = Some (Inl (kTransferFailed, Some key), 60000050, [1], [])" for key path
    using poll_round(1) [of stuck_engine "(60000050, [1], [])"] by (simp add: sim [unfolded One_nat_def])
  have two: "poll_transfer stuck_engine 1 30000000 key path (0, [1], []) = Some (Inl (kTransferFailed, Some key), 60000050, [1], [])" for key path
    using poll_round(5) [of stuck_engine "(0, [1], [])" 30000000 1] late by (simp add: sim kPollInterval_def)
  show "mb_SubmitAsync stuck_engine demo_request demo_backend (0, [], []) = Some (Inl (kTransferFailed, Some (tr_key demo_request)), 60000050, [1], [])"
    using two by (simp add: mb_SubmitAsync_def run_transfer_def demo_backend_def demo_request_def sim start kTransferTimeout_def)
qed

text \<open>A guard over the buffer that the engine does not give back: it is gone, the backend has no registration, the engine has.\<close>

lemma refused_buffer_stays:
  "snd (mb_DeregisterBuffer demo_engine \<lparr>bh_addr = 8192, bh_length = 8, bh_reg_id = 1, bh_on_gpu = False\<rparr>
     (demo_backend\<lparr>mb_live_registrations := [(1, 8192)]\<rparr>, 0, [], [8192])) = (demo_backend\<lparr>mb_live_registrations := []\<rparr>, 0, [], [8192])"
  by (simp add: mb_DeregisterBuffer_def demo_engine_def demo_backend_def Let_def)

theorem registrations_paired_witness:
  "\<exists>mb e s. Create demo_engine (mb_config demo_backend) (0, [], []) = (Inr mb, e)
     \<and> (guard_step (mooncake_methods demo_engine))\<^sup>*\<^sup>* (guards_init (mb, e)) s \<and> valid_guards s = {0}
     \<and> fst ` set (mb_live_registrations (fst (snd s))) = {1} \<and> 4096 \<in> set (snd (snd (snd (snd s))))"
proof -
  let ?m = "mooncake_methods demo_engine"
  obtain mb e where c: "Create demo_engine (mb_config demo_backend) (0, [], []) = (Inr mb, e)" "mb_next_reg_id mb = 1" "e = (0, [], [])"
    by (simp add: Create_def demo_engine_def demo_backend_def)
  define s where "s = construct_guard ?m 0 4096 64 False (guards_init (mb, e))"
  have r: "(guard_step ?m)\<^sup>*\<^sup>* (guards_init (mb, e)) s" unfolding s_def
    by (rule r_into_rtranclp) (rule guard_step.constructed, simp add: guards_init_def no_guard_def)
  have v: "valid_guards s = {0}" and g: "sr_handle (fst s 0) = \<lparr>bh_addr = 4096, bh_length = 64, bh_reg_id = 1, bh_on_gpu = False\<rparr>" using c(2,3)
    by (auto simp: s_def valid_guards_def construct_guard_def ScopedRegistration_init_def mooncake_methods_def mb_RegisterBuffer_def
        demo_engine_def guards_init_def no_guard_def Let_def split: if_splits)
  have mem: "engine_memory demo_engine (set \<circ> snd \<circ> snd)" by (auto simp: engine_memory_def demo_engine_def)
  have "fst ` set (mb_live_registrations (fst (snd s))) = {1}" "4096 \<in> set (snd (snd (snd (snd s))))"
    using registrations_paired [OF c(1) r mem, of e] v g by (auto simp: guard_handles_def)
  with c(1) r v show ?thesis by (intro exI [of _ mb] exI [of _ e] exI [of _ s] conjI)
qed

end
