(* ===== verification/Data_Transfer.thy ===== *)
theory Data_Transfer
  imports Transfer_Backend
begin

text \<open>
  The data path of \<^verbatim>\<open>src/datapath/data_path.cpp\<close> over a transfer backend: the worker hands each request to the backend and
  forwards its answer, while callers submit, close and register buffers. Which bytes a backend moves is stated once, as
  an interface; the in-memory double provides it, and so does the Mooncake backend over any engine that moves bytes.
\<close>

section \<open>Model of the worker over a backend\<close>

text \<open>A transfer, which the worker waits for, is one step. \<open>other\<close> are the calls that do not go through the queue.\<close>

inductive run_step ::
  "(BufferHandle TransferRequest \<Rightarrow> 's \<Rightarrow> (transfer_result \<times> 's) option) \<Rightarrow> ('s \<Rightarrow> BufferHandle TransferRequest \<Rightarrow> TransportPath) \<Rightarrow>
     ('s \<Rightarrow> 's \<Rightarrow> bool) \<Rightarrow> (BufferHandle, TransferReceipt) DataPath \<times> 's \<Rightarrow> (BufferHandle, TransferReceipt) DataPath \<times> 's \<Rightarrow> bool"
  for submit select other where
  submitted: "run_step submit select other (dp, s) (snd (TransferAsync (select s) request dp), s)"
| woken: "dp_worker dp = Ready \<Longrightarrow> dp_shutting_down dp \<or> dp_queue dp \<noteq> [] \<Longrightarrow> run_step submit select other (dp, s) (worker_wake dp, s)"
| finished: "dp_worker dp = Busy p req \<Longrightarrow> submit req s = Some (r, s') \<Longrightarrow>
    run_step submit select other (dp, s) (worker_finish p (map_sum fst id r) dp, s')"
| closing: "run_step submit select other (dp, s) (begin_shutdown dp, s)"
| aside: "other s s' \<Longrightarrow> run_step submit select other (dp, s) (dp, s')"

definition mb_submit ::
  "'e engine \<Rightarrow> BufferHandle TransferRequest \<Rightarrow> MooncakeTransferBackend \<times> 'e \<Rightarrow> (transfer_result \<times> MooncakeTransferBackend \<times> 'e) option" where
  "mb_submit en request s = map_option (\<lambda>(r, e). (r, fst s, e)) (mb_SubmitAsync en request (fst s) (snd s))"

inductive mb_other :: "'e engine \<Rightarrow> MooncakeTransferBackend \<times> 'e \<Rightarrow> MooncakeTransferBackend \<times> 'e \<Rightarrow> bool" for en where
  registered: "mb_other en s (snd (mb_RegisterBuffer en a n g s))"
| deregistered: "mb_other en s (snd (mb_DeregisterBuffer en h s))"
| waited: "mb_other en (mb, e) (mb, sleep_for en d e)"

inductive fake_other :: "FakeTransferBackend \<Rightarrow> FakeTransferBackend \<Rightarrow> bool" where
  registered: "fake_other fb (snd (fake_RegisterBuffer a n g fb))"
| deregistered: "fake_other fb (snd (fake_DeregisterBuffer h fb))"
| injected: "fake_other fb (fb\<lparr>fail_next_transfer := n, hold_transfers := held\<rparr>)"

section \<open>Accepted requests\<close>

definition accepted_inv :: "('s \<Rightarrow> BufferHandle TransferRequest \<Rightarrow> TransportPath) \<Rightarrow> (BufferHandle, 'r) DataPath \<times> 's \<Rightarrow> bool" where
  "accepted_inv select t \<longleftrightarrow> (let dp = fst t
     in distinct (map fst (dp_accepted dp)) \<and> set (dp_queue dp) \<subseteq> set (dp_accepted dp) \<and> (\<forall>q \<in> fst ` set (dp_accepted dp). q < dp_next dp)
      \<and> (\<forall>x \<in> set (dp_accepted dp). tr_preferred (snd x) = select (snd t) (snd x))
      \<and> (\<forall>q req. dp_worker dp = Busy q req \<longrightarrow> (q, req) \<in> set (dp_accepted dp)))"

lemma accepted_grows:
  assumes "run_step submit select other (dp, s) (dp', s')"
  shows "set (dp_accepted dp) \<subseteq> set (dp_accepted dp')"
  using assms
  by cases (auto simp: TransferAsync_def worker_wake_def worker_finish_def begin_shutdown_def Let_def split: list.splits prod.splits)

lemma run_step_dp:
  assumes "run_step submit select other (dp, s) (dp', s')"
  shows "dp' = dp \<or> dp_step (select s) dp dp'"
  using assms by cases (auto intro: dp_step.intros)

lemma run_dp_inv:
  assumes "(run_step submit select other)\<^sup>*\<^sup>* (DataPath_init c, s) t"
  shows "dp_inv c (fst t)"
  using assms
proof induction
  case (step t t')
  then show ?case using run_step_dp [of submit select other "fst t" "snd t" "fst t'" "snd t'"] dp_step_inv by auto
qed (simp add: dp_init_inv)

lemma busy_unanswered:
  assumes "dp_inv c dp" "dp_worker dp = Busy p req"
  shows "p \<notin> fst ` set (dp_answers dp)"
proof -
  have "mset (map fst (dp_answers dp)) + {#p#} + mset (map fst (dp_queue dp)) = mset [0..<dp_next dp]"
    using assms by (simp add: dp_inv_def in_work_def)
  then have "mset (map fst (dp_answers dp) @ [p] @ map fst (dp_queue dp)) = mset [0..<dp_next dp]" by (simp add: add.assoc)
  from mset_eq_imp_distinct_iff [OF this] show ?thesis by auto
qed

section \<open>Interface\<close>

abbreviation source_of :: "BufferHandle TransferRequest \<Rightarrow> nat set" where
  "source_of req \<equiv> {bh_addr (tr_src req)..<bh_addr (tr_src req) + bh_length (tr_src req)}"

text \<open>The addresses a transfer may write: as many bytes as the source has.\<close>

abbreviation target_of :: "BufferHandle TransferRequest \<Rightarrow> nat set" where
  "target_of req \<equiv> {bh_addr (tr_dst req)..<bh_addr (tr_dst req) + bh_length (tr_src req)}"

text \<open>A backend moves bytes if each transfer writes only its target, and the addresses of earlier transfers that did not come to an
  end, and if a transfer that is answered with a receipt has copied its source, unless those addresses get in its way.\<close>

locale byte_transport =
  fixes submit :: "BufferHandle TransferRequest \<Rightarrow> 's \<Rightarrow> (transfer_result \<times> 's) option"
    and select :: "'s \<Rightarrow> BufferHandle TransferRequest \<Rightarrow> TransportPath"
    and other :: "'s \<Rightarrow> 's \<Rightarrow> bool"
    and memory :: "'s \<Rightarrow> nat \<Rightarrow> u8"
    and writable :: "'s \<Rightarrow> nat set"
  assumes submit_frame: "submit req s = Some (r, s') \<Longrightarrow>
      writable s' \<subseteq> writable s \<union> target_of req \<and> (\<forall>x. x \<notin> writable s \<union> target_of req \<longrightarrow> memory s' x = memory s x) \<and> select s' = select s"
    and submit_copies: "submit req s = Some (Inr receipt, s') \<Longrightarrow> bh_length (tr_src req) \<le> bh_length (tr_dst req) \<Longrightarrow>
      (source_of req \<union> target_of req) \<inter> writable s = {} \<Longrightarrow> source_of req \<inter> target_of req = {} \<Longrightarrow>
      writable s' \<subseteq> writable s \<and> map (memory s') [bh_addr (tr_dst req)..<bh_addr (tr_dst req) + bh_length (tr_src req)]
        = map (memory s) [bh_addr (tr_src req)..<bh_addr (tr_src req) + bh_length (tr_src req)]"
    and submit_answers: "submit req s = Some (Inr receipt, s') \<Longrightarrow> rc_key receipt = tr_key req \<and> rc_path receipt = select s req"
    and other_frame: "other s s' \<Longrightarrow>
      writable s' \<subseteq> writable s \<and> (\<forall>x. x \<notin> writable s \<longrightarrow> memory s' x = memory s x) \<and> select s' = select s"
    and select_request: "select s (req\<lparr>tr_preferred := path\<rparr>) = select s req"
begin

lemma accepted_inv_step:
  assumes "run_step submit select other t t'" "accepted_inv select t"
  shows "accepted_inv select t' \<and> select (snd t') = select (snd t)"
  using assms
proof cases
  case (submitted dp s request)
  then show ?thesis using assms(2) select_request by (auto simp: accepted_inv_def TransferAsync_def Let_def less_Suc_eq)
next
  case (woken dp s)
  then show ?thesis using assms(2) by (auto simp: accepted_inv_def worker_wake_def Let_def split: list.splits)
qed (use assms(2) submit_frame other_frame in \<open>auto simp: accepted_inv_def worker_finish_def begin_shutdown_def Let_def\<close>)

lemma accepted_run:
  assumes "(run_step submit select other)\<^sup>*\<^sup>* (DataPath_init c, s0) t"
  shows "accepted_inv select t \<and> select (snd t) = select s0"
  using assms by induction (simp add: accepted_inv_def DataPath_init_def, metis accepted_inv_step)

text \<open>The bytes of one accepted request: intact until its answer, in place after a receipt, as long as no other accepted request
  writes where it reads or writes.\<close>

definition bytes_inv :: "nat \<Rightarrow> BufferHandle TransferRequest \<Rightarrow> 's \<Rightarrow> (BufferHandle, TransferReceipt) DataPath \<times> 's \<Rightarrow> bool" where
  "bytes_inv p req s0 t \<longleftrightarrow>
     (p \<notin> fst ` set (dp_answers (fst t)) \<longrightarrow> (source_of req \<union> target_of req) \<inter> writable (snd t) = {}
        \<and> (\<forall>x \<in> source_of req. memory (snd t) x = memory s0 x))
   \<and> (\<forall>receipt. (p, Inr receipt) \<in> set (dp_answers (fst t)) \<longrightarrow>
        rc_key receipt = tr_key req \<and> rc_path receipt = select s0 req \<and> target_of req \<inter> writable (snd t) = {}
        \<and> (\<forall>k < bh_length (tr_src req). memory (snd t) (bh_addr (tr_dst req) + k) = memory s0 (bh_addr (tr_src req) + k)))"

lemma bytes_frame:
  assumes "bytes_inv p req s0 (dp, s)" "set (dp_answers dp) \<subseteq> set (dp_answers dp')"
    and "\<And>receipt. (p, Inr receipt) \<in> set (dp_answers dp') \<Longrightarrow> (p, Inr receipt) \<in> set (dp_answers dp)"
    and "(source_of req \<union> target_of req) \<inter> W = {}" "writable s' \<subseteq> writable s \<union> W" "\<forall>x. x \<notin> writable s \<union> W \<longrightarrow> memory s' x = memory s x"
  shows "bytes_inv p req s0 (dp', s')"
proof -
  have m: "memory s' x = memory s x" if "x \<notin> writable s" "x \<in> source_of req \<union> target_of req" for x
    using that assms(4,6) by blast
  have t: "bh_addr (tr_dst req) + k \<in> target_of req" if "k < bh_length (tr_src req)" for k using that by simp
  show ?thesis
    unfolding bytes_inv_def fst_conv snd_conv
  proof (intro conjI impI allI ballI)
    assume "p \<notin> fst ` set (dp_answers dp')"
    then have "p \<notin> fst ` set (dp_answers dp)" using assms(2) by blast
    then have "(source_of req \<union> target_of req) \<inter> writable s = {}" "\<forall>x \<in> source_of req. memory s x = memory s0 x"
      using assms(1) by (simp_all add: bytes_inv_def)
    note U = this
    show "(source_of req \<union> target_of req) \<inter> writable s' = {}" using U(1) assms(4,5) by blast
    fix x assume x: "x \<in> source_of req"
    then have "x \<notin> writable s" using U(1) by blast
    then show "memory s' x = memory s0 x" using U(2) x m by simp
  next
    fix receipt k
    assume "(p, Inr receipt) \<in> set (dp_answers dp')"
    then have "(p, Inr receipt) \<in> set (dp_answers dp)" by (rule assms(3))
    then have R: "rc_key receipt = tr_key req" "rc_path receipt = select s0 req" "target_of req \<inter> writable s = {}"
      "\<And>k. k < bh_length (tr_src req) \<Longrightarrow> memory s (bh_addr (tr_dst req) + k) = memory s0 (bh_addr (tr_src req) + k)"
      using assms(1) by (simp_all add: bytes_inv_def)
    then show "rc_key receipt = tr_key req" "rc_path receipt = select s0 req" by simp_all
    show "target_of req \<inter> writable s' = {}" using R(3) assms(4,5) by blast
    assume k: "k < bh_length (tr_src req)"
    have "bh_addr (tr_dst req) + k \<notin> writable s" using R(3) t [OF k] by blast
    then show "memory s' (bh_addr (tr_dst req) + k) = memory s0 (bh_addr (tr_src req) + k)" using R(4) [OF k] m t [OF k] by simp
  qed
qed

lemma bytes_copied:
  assumes "bytes_inv p req s0 (dp, s)" "p \<notin> fst ` set (dp_answers dp)" "submit req s = Some (Inr receipt, s')" "select s = select s0"
    and "bh_length (tr_src req) \<le> bh_length (tr_dst req)" "source_of req \<inter> target_of req = {}"
  shows "bytes_inv p req s0 (worker_finish p (Inr receipt) dp, s')"
proof -
  have U: "(source_of req \<union> target_of req) \<inter> writable s = {}" "\<forall>x \<in> source_of req. memory s x = memory s0 x"
    using assms(1,2) by (simp_all add: bytes_inv_def)
  note C = submit_copies [OF assms(3,5) U(1) assms(6)]
  have "memory s' (bh_addr (tr_dst req) + k) = memory s (bh_addr (tr_src req) + k)" if "k < bh_length (tr_src req)" for k
  proof -
    have "map (memory s') [bh_addr (tr_dst req)..<bh_addr (tr_dst req) + bh_length (tr_src req)] ! k
      = map (memory s) [bh_addr (tr_src req)..<bh_addr (tr_src req) + bh_length (tr_src req)] ! k" using C by simp
    with that show ?thesis by simp
  qed
  then have "memory s' (bh_addr (tr_dst req) + k) = memory s0 (bh_addr (tr_src req) + k)" if "k < bh_length (tr_src req)" for k
    using that U(2) by simp
  moreover have "target_of req \<inter> writable s' = {}" using C U(1) by blast
  moreover have "(p, x) \<notin> set (dp_answers dp)" for x using assms(2) by (metis fst_conv image_eqI)
  then have "receipt' = receipt" if "(p, Inr receipt') \<in> set (dp_answers (worker_finish p (Inr receipt) dp))" for receipt'
    using that by (simp add: worker_finish_def)
  ultimately show ?thesis using submit_answers [OF assms(3)] assms(4) by (auto simp: bytes_inv_def worker_finish_def)
qed

lemma bytes_step:
  assumes "run_step submit select other t t'" "bytes_inv p req s0 t" "accepted_inv select t" "dp_inv c (fst t)" "select (snd t) = select s0"
    and "set (dp_accepted (fst t)) \<subseteq> F" "inj_on fst F" "(p, req) \<in> F"
    and "\<And>q rq. (q, rq) \<in> F \<Longrightarrow> q \<noteq> p \<Longrightarrow> target_of rq \<inter> (source_of req \<union> target_of req) = {}"
    and "bh_length (tr_src req) \<le> bh_length (tr_dst req)" "source_of req \<inter> target_of req = {}"
  shows "bytes_inv p req s0 t'"
  using assms(1)
proof cases
  case (submitted dp s request)
  show ?thesis unfolding submitted(2)
    by (rule bytes_frame [where W = "{}" and dp = dp and s = s]) (use assms(2) submitted(1) in \<open>auto simp: TransferAsync_def Let_def split: if_splits\<close>)
next
  case (woken dp s)
  show ?thesis unfolding woken(2)
    by (rule bytes_frame [where W = "{}" and dp = dp and s = s]) (use assms(2) woken(1) in \<open>auto simp: worker_wake_def split: list.splits\<close>)
next
  case (closing dp s)
  show ?thesis unfolding closing(2)
    by (rule bytes_frame [where W = "{}" and dp = dp and s = s]) (use assms(2) closing(1) in \<open>auto simp: begin_shutdown_def\<close>)
next
  case (aside s s' dp)
  show ?thesis unfolding aside(2)
    by (rule bytes_frame [where W = "{}" and dp = dp and s = s]) (use assms(2) aside(1) other_frame [OF aside(3)] in auto)
next
  case (finished dp q rq s r s')
  have b: "bytes_inv p req s0 (dp, s)" and qF: "(q, rq) \<in> F"
    using assms(2,3,6) finished(1,3) by (auto simp: accepted_inv_def Let_def)
  note frame = submit_frame [OF finished(4)]
  show ?thesis
  proof (cases "q = p")
    case False
    show ?thesis unfolding finished(2)
      by (rule bytes_frame [where W = "target_of rq", OF b])
        (use False frame assms(9) [OF qF False] in \<open>auto simp: worker_finish_def\<close>)
  next
    case True
    with qF assms(7,8) have rq: "rq = req" by (metis fst_conv inj_onD snd_conv)
    have un: "p \<notin> fst ` set (dp_answers dp)" using busy_unanswered [of c dp q rq] assms(4) finished(1,3) True by simp
    then have "(p, x) \<notin> set (dp_answers dp)" for x by (metis fst_conv image_eqI)
    then have "bytes_inv p req s0 (worker_finish p (Inl e) dp, s')" for e by (simp add: bytes_inv_def worker_finish_def)
    with un show ?thesis using bytes_copied [OF b] finished assms(5,10,11) True rq by (cases r) auto
  qed
qed

lemma bytes_run:
  assumes "(run_step submit select other)\<^sup>*\<^sup>* (DataPath_init c, s0) t" "set (dp_accepted (fst t)) \<subseteq> F" "inj_on fst F" "(p, req) \<in> F"
    and "\<And>q rq. (q, rq) \<in> F \<Longrightarrow> q \<noteq> p \<Longrightarrow> target_of rq \<inter> (source_of req \<union> target_of req) = {}"
    and "bh_length (tr_src req) \<le> bh_length (tr_dst req)" "source_of req \<inter> target_of req = {}"
    and "(source_of req \<union> target_of req) \<inter> writable s0 = {}"
  shows "bytes_inv p req s0 t"
  using assms(1,2)
proof induction
  case base
  show ?case using assms(8) by (simp add: bytes_inv_def DataPath_init_def)
next
  case (step t t')
  have sub: "set (dp_accepted (fst t)) \<subseteq> F"
    using accepted_grows [of submit select other "fst t" "snd t" "fst t'" "snd t'"] step.hyps(2) step.prems by simp
  from accepted_run [OF step.hyps(1)] bytes_step [OF step.hyps(2) step.IH [OF sub]] run_dp_inv [OF step.hyps(1)] sub assms(3-7)
  show ?case by blast
qed

text \<open>What a receipt guarantees.\<close>

lemma receipt_delivers:
  assumes "(run_step submit select other)\<^sup>*\<^sup>* (DataPath_init c, s0) (dp, s)" "(p, req) \<in> set (dp_accepted dp)" "(p, Inr receipt) \<in> set (dp_answers dp)"
    and "\<And>q rq. (q, rq) \<in> set (dp_accepted dp) \<Longrightarrow> q \<noteq> p \<Longrightarrow> target_of rq \<inter> (source_of req \<union> target_of req) = {}"
    and "bh_length (tr_src req) \<le> bh_length (tr_dst req)" "source_of req \<inter> target_of req = {}"
    and "(source_of req \<union> target_of req) \<inter> writable s0 = {}"
  shows "rc_key receipt = tr_key req \<and> rc_path receipt = tr_preferred req
    \<and> map (memory s) [bh_addr (tr_dst req)..<bh_addr (tr_dst req) + bh_length (tr_src req)]
      = map (memory s0) [bh_addr (tr_src req)..<bh_addr (tr_src req) + bh_length (tr_src req)]"
proof -
  have A: "accepted_inv select (dp, s)" "select s = select s0" using accepted_run [OF assms(1)] by simp_all
  then have inj: "inj_on fst (set (dp_accepted dp))" and "tr_preferred req = select s0 req"
    using assms(2) by (auto simp: accepted_inv_def Let_def distinct_map)
  moreover have "bytes_inv p req s0 (dp, s)"
    by (rule bytes_run [where F = "set (dp_accepted dp)", OF assms(1) _ inj assms(2,4-7)]) simp_all
  ultimately show ?thesis using assms(3) by (auto simp: bytes_inv_def intro!: nth_equalityI)
qed

end

section \<open>The in-memory double\<close>

lemma fake_select_request: "fake_SelectPath fb (req\<lparr>tr_preferred := path\<rparr>) = fake_SelectPath fb req"
  by (simp add: fake_SelectPath_def)

lemma fake_select_cong:
  "gpu_direct_available fb' = gpu_direct_available fb \<Longrightarrow> rdma_available fb' = rdma_available fb \<Longrightarrow> fake_SelectPath fb' = fake_SelectPath fb"
  by (rule ext) (simp add: fake_SelectPath_def)

lemma fake_other_frame: "fake_other fb fb' \<Longrightarrow> ft_memory fb' = ft_memory fb \<and> fake_SelectPath fb' = fake_SelectPath fb"
  by (cases rule: fake_other.cases) (auto simp: fake_RegisterBuffer_def fake_DeregisterBuffer_def Let_def intro!: fake_select_cong split: if_splits)

lemma fake_submit_cases:
  assumes "fake_SubmitAsync req fb = Some (r, fb')"
  obtains (failed) code where "r = Inl code" "ft_memory fb' = ft_memory fb" "fake_SelectPath fb' = fake_SelectPath fb"
    | (copied) receipt n where "r = Inr receipt" "rc_key receipt = tr_key req" "rc_path receipt = fake_SelectPath fb req"
        "n = min (bh_length (tr_src req)) (bh_length (tr_dst req))" "fake_SelectPath fb' = fake_SelectPath fb"
        "memcpy (bh_addr (tr_dst req)) (bh_addr (tr_src req)) n (ft_memory fb) = Some (ft_memory fb')"
proof -
  have sel: "fake_SelectPath fb' = fake_SelectPath fb"
    using assms by (intro fake_select_cong) (auto simp: fake_SubmitAsync_def Let_def split: if_splits)
  show thesis
  proof (cases r)
    case (Inl code)
    with assms have "ft_memory fb' = ft_memory fb" by (auto simp: fake_SubmitAsync_def Let_def split: if_splits)
    with failed Inl sel show thesis by blast
  next
    case (Inr receipt)
    with assms have "rc_key receipt = tr_key req \<and> rc_path receipt = fake_SelectPath fb req
      \<and> memcpy (bh_addr (tr_dst req)) (bh_addr (tr_src req)) (min (bh_length (tr_src req)) (bh_length (tr_dst req))) (ft_memory fb) = Some (ft_memory fb')"
      by (auto simp: fake_SubmitAsync_def Let_def min_def not_less split: if_splits)
    with copied Inr sel show thesis by blast
  qed
qed

lemma memcpy_copies:
  assumes "memcpy dst src n mem = Some mem'"
  shows "x \<notin> {dst..<dst + n} \<Longrightarrow> mem' x = mem x" and "map mem' [dst..<dst + n] = map mem [src..<src + n]"
proof -
  have m: "mem' = (\<lambda>a. if dst \<le> a \<and> a < dst + n then mem (src + (a - dst)) else mem a)"
    using assms by (simp add: memcpy_def split: if_splits)
  show "x \<notin> {dst..<dst + n} \<Longrightarrow> mem' x = mem x" by (auto simp: m)
  show "map mem' [dst..<dst + n] = map mem [src..<src + n]" by (rule nth_equalityI) (simp_all add: m)
qed

interpretation fake_bytes: byte_transport fake_SubmitAsync fake_SelectPath fake_other ft_memory "\<lambda>_. {}"
proof (unfold_locales, goal_cases)
  case (1 req s r s')
  then show ?case
  proof (cases rule: fake_submit_cases)
    case (copied receipt n)
    have "\<forall>x. x \<notin> target_of req \<longrightarrow> ft_memory s' x = ft_memory s x"
      using memcpy_copies(1) [OF copied(6)] by (auto simp: copied(4))
    with copied(5) show ?thesis by simp
  qed simp
next
  case (2 req s receipt s')
  from 2(1) show ?case
  proof (cases rule: fake_submit_cases)
    case (copied receipt' n)
    then have "n = bh_length (tr_src req)" using 2(2) by simp
    with memcpy_copies(2) [OF copied(6)] show ?thesis by simp
  qed simp
next
  case (3 req s receipt s')
  then show ?case by (cases rule: fake_submit_cases) auto
next
  case (4 s s')
  then show ?case using fake_other_frame by simp
next
  case (5 s req path)
  show ?case by (rule fake_select_request)
qed

section \<open>The Mooncake backend\<close>

text \<open>What moving bytes means for an engine, over two observations: the memory that registered buffers lie in, those of the target
  segment included, and for each batch the request whose end the engine has not reported. Only such a request writes, and only its
  target. Its end is reported with a status of completed; then its source, if nothing else wrote there, has been copied.
  A refused submission may have started its request.\<close>

definition entry_source :: "transfer_entry \<Rightarrow> nat set" where
  "entry_source x = {en_source x..<en_source x + en_length x}"

definition entry_target :: "transfer_entry \<Rightarrow> nat set" where
  "entry_target x = {en_target_offset x..<en_target_offset x + en_length x}"

definition touched :: "(nat \<Rightarrow> transfer_entry option) \<Rightarrow> nat set" where
  "touched q = (\<Union>x \<in> ran q. entry_target x)"

definition quiet :: "('e \<Rightarrow> nat \<Rightarrow> u8) \<Rightarrow> ('e \<Rightarrow> nat \<Rightarrow> transfer_entry option) \<Rightarrow> 'e \<Rightarrow> 'e \<Rightarrow> bool" where
  "quiet memory requests e e' \<longleftrightarrow> requests e' \<subseteq>\<^sub>m requests e \<and> (\<forall>y. y \<notin> touched (requests e) \<longrightarrow> memory e' y = memory e y)"

definition submit_bytes :: "'e engine \<Rightarrow> ('e \<Rightarrow> nat \<Rightarrow> u8) \<Rightarrow> ('e \<Rightarrow> nat \<Rightarrow> transfer_entry option) \<Rightarrow> nat \<Rightarrow> transfer_entry \<Rightarrow> 'e \<Rightarrow> bool" where
  "submit_bytes en memory requests b x e \<longleftrightarrow>
     (let (ok, e') = submitTransfer en b x e; q = (requests e)(b \<mapsto> x)
      in (if ok then requests e' = q else requests e' \<subseteq>\<^sub>m q)
       \<and> (\<forall>y. y \<notin> touched (requests e) \<union> entry_target x \<longrightarrow> memory e' y = memory e y))"

definition status_bytes :: "'e engine \<Rightarrow> ('e \<Rightarrow> nat \<Rightarrow> u8) \<Rightarrow> ('e \<Rightarrow> nat \<Rightarrow> transfer_entry option) \<Rightarrow> nat \<Rightarrow> 'e \<Rightarrow> bool" where
  "status_bytes en memory requests b e \<longleftrightarrow>
     (let (reply, e') = getTransferStatus en b e
      in quiet memory requests e e'
       \<and> (case reply of
            Some (STATUS_OTHER, _) \<Rightarrow> requests e' = requests e
          | Some (STATUS_COMPLETED, _) \<Rightarrow>
              (\<forall>x. requests e b = Some x \<longrightarrow> requests e' b = None
                 \<and> (entry_source x \<inter> touched (requests e) = {} \<and> entry_target x \<inter> touched ((requests e)(b := None)) = {} \<longrightarrow>
                      (\<forall>k < en_length x. memory e' (en_target_offset x + k) = memory e' (en_source x + k))))
          | _ \<Rightarrow> True))"

definition engine_bytes :: "'e engine \<Rightarrow> ('e \<Rightarrow> nat \<Rightarrow> u8) \<Rightarrow> ('e \<Rightarrow> nat \<Rightarrow> transfer_entry option) \<Rightarrow> bool" where
  "engine_bytes en memory requests \<longleftrightarrow>
     (\<forall>e. quiet memory requests e (snd (allocateBatchID en e)))
     \<and> (\<forall>b x e. submit_bytes en memory requests b x e)
     \<and> (\<forall>b e. status_bytes en memory requests b e)
     \<and> (\<forall>b e. quiet memory requests e (snd (freeBatchID en b e)))
     \<and> (\<forall>a n t e. quiet memory requests e (snd (registerLocalMemory en a n t e)))
     \<and> (\<forall>a e. quiet memory requests e (snd (unregisterLocalMemory en a e)))
     \<and> (\<forall>e. quiet memory requests e (snd (clock_now en e)) \<and> requests (snd (clock_now en e)) = requests e)
     \<and> (\<forall>d e. quiet memory requests e (sleep_for en d e) \<and> requests (sleep_for en d e) = requests e)"

lemma engine_bytesD:
  assumes "engine_bytes en memory requests"
  shows "quiet memory requests e (snd (allocateBatchID en e))"
    and "submit_bytes en memory requests b x e" and "status_bytes en memory requests b e"
    and "quiet memory requests e (snd (freeBatchID en b e))"
    and "quiet memory requests e (snd (registerLocalMemory en a n t e))"
    and "quiet memory requests e (snd (unregisterLocalMemory en a e))"
    and "quiet memory requests e (snd (clock_now en e))" "requests (snd (clock_now en e)) = requests e"
    and "quiet memory requests e (sleep_for en d e)" "requests (sleep_for en d e) = requests e"
  using assms by (simp_all add: engine_bytes_def)

lemma status_bytesD:
  assumes "status_bytes en memory requests b e" "getTransferStatus en b e = (reply, e')"
  shows "quiet memory requests e e'"
    and "reply = Some (STATUS_OTHER, n) \<Longrightarrow> requests e' = requests e"
    and "reply = Some (STATUS_COMPLETED, n) \<Longrightarrow> requests e b = Some x \<Longrightarrow> requests e' b = None"
    and "reply = Some (STATUS_COMPLETED, n) \<Longrightarrow> requests e b = Some x \<Longrightarrow> entry_source x \<inter> touched (requests e) = {} \<Longrightarrow>
      entry_target x \<inter> touched ((requests e)(b := None)) = {} \<Longrightarrow> k < en_length x \<Longrightarrow>
      memory e' (en_target_offset x + k) = memory e' (en_source x + k)"
  using assms by (auto simp: status_bytes_def)

section \<open>Bytes of a transfer on the Mooncake backend\<close>

lemma touched_mono: "q \<subseteq>\<^sub>m q' \<Longrightarrow> touched q \<subseteq> touched q'"
  by (auto simp: touched_def ran_def map_le_def) (metis domI)

lemma touched_upd: "touched (q(b \<mapsto> x)) \<subseteq> touched q \<union> entry_target x"
  by (auto simp: touched_def ran_def split: if_splits)

lemma quiet_trans:
  assumes "quiet memory requests e e1" "quiet memory requests e1 e2"
  shows "quiet memory requests e e2"
  using assms touched_mono [of "requests e1" "requests e"] by (auto simp: quiet_def intro: map_le_trans)

text \<open>The loop that polls: it writes only what pending requests may write, and on a receipt the batch's request has ended and copied.\<close>

definition poll_bytes :: "('e \<Rightarrow> nat \<Rightarrow> u8) \<Rightarrow> ('e \<Rightarrow> nat \<Rightarrow> transfer_entry option) \<Rightarrow> nat \<Rightarrow> 'e \<Rightarrow> transfer_result \<Rightarrow> 'e \<Rightarrow> bool" where
  "poll_bytes memory requests b e r e' \<longleftrightarrow> quiet memory requests e e'
     \<and> (\<forall>receipt x. r = Inr receipt \<and> requests e b = Some x \<longrightarrow> requests e' b = None
          \<and> (entry_source x \<inter> touched (requests e) = {} \<and> entry_target x \<inter> touched ((requests e)(b := None)) = {} \<longrightarrow>
               (\<forall>k < en_length x. memory e' (en_target_offset x + k) = memory e (en_source x + k))))"

lemma poll_bytes_later:
  assumes "quiet memory requests e e1" "requests e1 = requests e" "poll_bytes memory requests b e1 r e'"
  shows "poll_bytes memory requests b e r e'"
proof -
  have "memory e1 (en_source x + k) = memory e (en_source x + k)" if "entry_source x \<inter> touched (requests e) = {}" "k < en_length x" for x k
  proof -
    have "en_source x + k \<in> entry_source x" using that(2) by (simp add: entry_source_def)
    then show ?thesis using assms(1) that(1) by (auto simp: quiet_def)
  qed
  then show ?thesis using assms quiet_trans [OF assms(1)] by (auto simp: poll_bytes_def)
qed

lemma poll_bytes_completed:
  assumes laws: "engine_bytes en memory requests" and st: "getTransferStatus en b e = (Some (STATUS_COMPLETED, n), e1)"
  shows "poll_bytes memory requests b e r (snd (freeBatchID en b e1))"
proof -
  note S = status_bytesD [OF engine_bytesD(3) [OF laws] st]
  let ?e = "snd (freeBatchID en b e1)"
  have f: "quiet memory requests e1 ?e" by (rule engine_bytesD(4) [OF laws])
  have "requests ?e b = None \<and> (entry_source x \<inter> touched (requests e) = {} \<and> entry_target x \<inter> touched ((requests e)(b := None)) = {} \<longrightarrow>
      (\<forall>k < en_length x. memory ?e (en_target_offset x + k) = memory e (en_source x + k)))" if x: "requests e b = Some x" for x
  proof (intro conjI impI allI)
    have none: "requests e1 b = None" using S(3) [OF refl x] .
    then show "requests ?e b = None" using f by (auto simp: quiet_def map_le_def dom_def)
    fix k assume a: "entry_source x \<inter> touched (requests e) = {} \<and> entry_target x \<inter> touched ((requests e)(b := None)) = {}"
      and k: "k < en_length x"
    have "requests e1 \<subseteq>\<^sub>m (requests e)(b := None)" using S(1) none by (auto simp: quiet_def map_le_def dom_def)
    then have "touched (requests e1) \<subseteq> touched ((requests e)(b := None))" by (rule touched_mono)
    moreover have "en_target_offset x + k \<in> entry_target x" using k by (simp add: entry_target_def)
    ultimately have "memory ?e (en_target_offset x + k) = memory e1 (en_target_offset x + k)" using a f by (auto simp: quiet_def)
    also have "\<dots> = memory e1 (en_source x + k)" using S(4) [OF refl x] a k by blast
    also have "en_source x + k \<in> entry_source x" using k by (simp add: entry_source_def)
    then have "memory e1 (en_source x + k) = memory e (en_source x + k)" using a S(1) by (auto simp: quiet_def)
    finally show "memory ?e (en_target_offset x + k) = memory e (en_source x + k)" .
  qed
  then show ?thesis using quiet_trans [OF S(1) f] by (simp add: poll_bytes_def)
qed

lemma poll_transfer_bytes:
  assumes laws: "engine_bytes en memory requests" and "poll_transfer en b deadline key path e = Some (r, e')"
  shows "poll_bytes memory requests b e r e' \<and> (\<forall>receipt. r = Inr receipt \<longrightarrow> rc_key receipt = key \<and> rc_path receipt = path)"
proof -
  have "engine_bytes en memory requests \<longrightarrow> poll_bytes memory requests b e (fst y) (snd y)
      \<and> (\<forall>receipt. fst y = Inr receipt \<longrightarrow> rc_key receipt = key \<and> rc_path receipt = path)"
    if "poll_transfer en b deadline key path e = Some y" for y
  proof (rule poll_transfer.raw_induct [OF _ that, where P = "\<lambda>en b deadline key path e y. engine_bytes en memory requests \<longrightarrow>
      poll_bytes memory requests b e (fst y) (snd y) \<and> (\<forall>receipt. fst y = Inr receipt \<longrightarrow> rc_key receipt = key \<and> rc_path receipt = path)"], goal_cases)
    case (1 poll en b deadline key path e y)
    show ?case
    proof
      assume laws: "engine_bytes en memory requests"
      let ?goal = "poll_bytes memory requests b e (fst y) (snd y) \<and> (\<forall>receipt. fst y = Inr receipt \<longrightarrow> rc_key receipt = key \<and> rc_path receipt = path)"
      obtain now e1 where c: "clock_now en e = (now, e1)" by fastforce
      obtain reply e2 where st: "getTransferStatus en b e1 = (reply, e2)" by fastforce
      have q1: "quiet memory requests e e1" "requests e1 = requests e" using engine_bytesD(7,8) [OF laws, of e] c by simp_all
      have q2: "quiet memory requests e1 e2" by (rule status_bytesD(1) [OF engine_bytesD(3) [OF laws] st])
      have free: "quiet memory requests e' (snd (freeBatchID en b e'))" for e' by (rule engine_bytesD(4) [OF laws])
      have failed: ?goal if "y = (Inl code, snd (freeBatchID en b e'))" "quiet memory requests e e'" for code e'
        using that(1) quiet_trans [OF that(2) free] by (simp add: poll_bytes_def)
      note body = 1(2) [unfolded c st Let_def fst_conv snd_conv]
      show ?goal
      proof (cases "now < deadline")
        case False
        with body show ?thesis using failed [OF _ q1(1)] by auto
      next
        case True
        note q = quiet_trans [OF q1(1) q2]
        show ?thesis
        proof (cases reply)
          case None
          with body True show ?thesis using failed [OF _ q] by auto
        next
          case (Some a)
          obtain status n where a: "a = (status, n)" by fastforce
          show ?thesis
          proof (cases status)
            case STATUS_COMPLETED
            with st Some a have "getTransferStatus en b e1 = (Some (STATUS_COMPLETED, n), e2)" by simp
            from poll_bytes_later [OF q1 poll_bytes_completed [OF laws this]] show ?thesis
              using body True Some a STATUS_COMPLETED by auto
          next
            case STATUS_OTHER
            have "requests e2 = requests e1" using status_bytesD(2) [OF engine_bytesD(3) [OF laws] st] Some a STATUS_OTHER by simp
            moreover have "quiet memory requests e2 (sleep_for en kPollInterval e2)" "requests (sleep_for en kPollInterval e2) = requests e2"
              using engine_bytesD(9,10) [OF laws] by auto
            ultimately have s: "quiet memory requests e (sleep_for en kPollInterval e2)" "requests (sleep_for en kPollInterval e2) = requests e"
              using quiet_trans [OF q] q1(2) by simp_all
            have "poll en b deadline key path (sleep_for en kPollInterval e2) = Some y" using body True Some a STATUS_OTHER by simp
            from 1(1) [OF this] laws poll_bytes_later [OF s] show ?thesis by blast
          qed (use body True Some a failed [OF _ q] in auto)
        qed
      qed
    qed
  qed
  then show ?thesis using assms by simp
qed

definition moved_bytes :: "('e \<Rightarrow> nat \<Rightarrow> u8) \<Rightarrow> ('e \<Rightarrow> nat \<Rightarrow> transfer_entry option) \<Rightarrow> transfer_entry \<Rightarrow> 'e \<Rightarrow> transfer_result \<Rightarrow> 'e \<Rightarrow> bool" where
  "moved_bytes memory requests x e r e' \<longleftrightarrow>
     touched (requests e') \<subseteq> touched (requests e) \<union> entry_target x
     \<and> (\<forall>y. y \<notin> touched (requests e) \<union> entry_target x \<longrightarrow> memory e' y = memory e y)
     \<and> (\<forall>receipt. r = Inr receipt \<longrightarrow> touched (requests e') \<subseteq> touched (requests e)
          \<and> ((entry_source x \<union> entry_target x) \<inter> touched (requests e) = {} \<and> entry_source x \<inter> entry_target x = {} \<longrightarrow>
               (\<forall>k < en_length x. memory e' (en_target_offset x + k) = memory e (en_source x + k))))"

lemma moved_quiet: "quiet memory requests e e' \<Longrightarrow> moved_bytes memory requests x e (Inl code) e'"
  using touched_mono [of "requests e'" "requests e"] by (auto simp: quiet_def moved_bytes_def)

lemma moved_before:
  assumes "quiet memory requests e e1" "moved_bytes memory requests x e1 r e'"
  shows "moved_bytes memory requests x e r e'"
proof -
  have t: "touched (requests e1) \<subseteq> touched (requests e)" using assms(1) by (simp add: quiet_def touched_mono)
  have m: "memory e1 y = memory e y" if "y \<notin> touched (requests e)" for y using that assms(1) by (simp add: quiet_def)
  have src: "memory e1 (en_source x + k) = memory e (en_source x + k)"
    if "(entry_source x \<union> entry_target x) \<inter> touched (requests e) = {}" "k < en_length x" for k
  proof (rule m)
    have "en_source x + k \<in> entry_source x" using that(2) by (simp add: entry_source_def)
    with that(1) show "en_source x + k \<notin> touched (requests e)" by blast
  qed
  have d: "(entry_source x \<union> entry_target x) \<inter> touched (requests e1) = {}" if "(entry_source x \<union> entry_target x) \<inter> touched (requests e) = {}"
    using that t by blast
  show ?thesis unfolding moved_bytes_def
  proof (intro conjI allI impI)
    show "touched (requests e') \<subseteq> touched (requests e) \<union> entry_target x" using assms(2) t by (auto simp: moved_bytes_def)
    show "memory e' y = memory e y" if "y \<notin> touched (requests e) \<union> entry_target x" for y
      using that assms(2) t m [of y] by (auto simp: moved_bytes_def)
    show "touched (requests e') \<subseteq> touched (requests e)" if "r = Inr receipt" for receipt
      using that assms(2) t by (auto simp: moved_bytes_def)
    show "memory e' (en_target_offset x + k) = memory e (en_source x + k)" if "r = Inr receipt"
      "(entry_source x \<union> entry_target x) \<inter> touched (requests e) = {} \<and> entry_source x \<inter> entry_target x = {}" "k < en_length x" for receipt k
      using that assms(2) src d by (simp add: moved_bytes_def)
  qed
qed

text \<open>A submitted request followed by a quiet rest, or by polls.\<close>

lemma moved_submitted:
  assumes "submit_bytes en memory requests b x e" "submitTransfer en b x e = (ok, e1)"
  shows "quiet memory requests e1 e' \<Longrightarrow> moved_bytes memory requests x e (Inl code) e'"
    and "ok \<Longrightarrow> poll_bytes memory requests b e1 r e' \<Longrightarrow> moved_bytes memory requests x e r e'"
proof -
  have q: "requests e1 \<subseteq>\<^sub>m (requests e)(b \<mapsto> x)" "ok \<Longrightarrow> requests e1 = (requests e)(b \<mapsto> x)"
    and m: "\<And>y. y \<notin> touched (requests e) \<union> entry_target x \<Longrightarrow> memory e1 y = memory e y"
    using assms by (auto simp: submit_bytes_def Let_def split: if_splits)
  have t: "touched (requests e1) \<subseteq> touched (requests e) \<union> entry_target x" using touched_mono [OF q(1)] touched_upd by blast
  have frame: "touched (requests e') \<subseteq> touched (requests e) \<union> entry_target x
      \<and> (\<forall>y. y \<notin> touched (requests e) \<union> entry_target x \<longrightarrow> memory e' y = memory e y)" if "quiet memory requests e1 e'" for e'
  proof -
    have "touched (requests e') \<subseteq> touched (requests e1)" using that by (simp add: quiet_def touched_mono)
    moreover have "memory e' y = memory e y" if "y \<notin> touched (requests e) \<union> entry_target x" for y
      using that t m [OF that] \<open>quiet memory requests e1 e'\<close> by (auto simp: quiet_def)
    ultimately show ?thesis using t by blast
  qed
  then show "quiet memory requests e1 e' \<Longrightarrow> moved_bytes memory requests x e (Inl code) e'" by (simp add: moved_bytes_def)
  assume ok and p: "poll_bytes memory requests b e1 r e'"
  then have e1: "requests e1 = (requests e)(b \<mapsto> x)" and quiet: "quiet memory requests e1 e'" using q(2) by (simp_all add: poll_bytes_def)
  have "touched (requests e') \<subseteq> touched (requests e)
      \<and> ((entry_source x \<union> entry_target x) \<inter> touched (requests e) = {} \<and> entry_source x \<inter> entry_target x = {} \<longrightarrow>
           (\<forall>k < en_length x. memory e' (en_target_offset x + k) = memory e (en_source x + k)))" if "r = Inr receipt" for receipt
  proof (intro conjI impI allI)
    have P: "requests e' b = None" "entry_source x \<inter> touched (requests e1) = {} \<Longrightarrow> entry_target x \<inter> touched ((requests e1)(b := None)) = {} \<Longrightarrow>
        k < en_length x \<Longrightarrow> memory e' (en_target_offset x + k) = memory e1 (en_source x + k)" for k
      using p that e1 by (simp_all add: poll_bytes_def)
    have "requests e' \<subseteq>\<^sub>m (requests e)(b \<mapsto> x)" using quiet e1 by (simp add: quiet_def)
    then have "requests e' a = requests e a" if "a \<in> dom (requests e')" for a
      using that P(1) by (cases "a = b") (auto simp: map_le_def)
    then have "requests e' \<subseteq>\<^sub>m requests e" by (simp add: map_le_def)
    then show "touched (requests e') \<subseteq> touched (requests e)" by (rule touched_mono)
    fix k assume a: "(entry_source x \<union> entry_target x) \<inter> touched (requests e) = {} \<and> entry_source x \<inter> entry_target x = {}" and k: "k < en_length x"
    have "touched ((requests e1)(b := None)) \<subseteq> touched (requests e)" by (rule touched_mono) (auto simp: e1 map_le_def)
    moreover have "entry_source x \<inter> touched (requests e1) = {}" using a t by blast
    ultimately have "memory e' (en_target_offset x + k) = memory e1 (en_source x + k)" using P(2) a k by blast
    moreover have "en_source x + k \<in> entry_source x" using k by (simp add: entry_source_def)
    then have "memory e1 (en_source x + k) = memory e (en_source x + k)" using a m by blast
    ultimately show "memory e' (en_target_offset x + k) = memory e (en_source x + k)" by simp
  qed
  with frame [OF quiet] show "moved_bytes memory requests x e r e'" by (simp add: moved_bytes_def)
qed

lemma run_transfer_bytes:
  assumes laws: "engine_bytes en memory requests" and "run_transfer en segment req path e = Some (r, e')"
  shows "moved_bytes memory requests (entry_of segment req) e r e'
    \<and> (\<forall>receipt. r = Inr receipt \<longrightarrow> rc_key receipt = tr_key req \<and> rc_path receipt = path)"
proof -
  note L = engine_bytesD [OF laws]
  obtain b e1 where a: "allocateBatchID en e = (b, e1)" by fastforce
  have q: "quiet memory requests e e1" using L(1) [of e] a by simp
  show ?thesis
  proof (cases b)
    case None
    then show ?thesis using assms(2) a moved_quiet [OF q] by (auto simp: run_transfer_def)
  next
    case (Some batch)
    let ?x = "entry_of segment req"
    obtain ok e2 where s: "submitTransfer en batch ?x e1 = (ok, e2)" by fastforce
    note M = moved_submitted [OF L(2) s]
    show ?thesis
    proof (cases ok)
      case False
      with assms(2) a Some s have "r = Inl (kTransferFailed, Some (tr_key req))" "e' = snd (freeBatchID en batch e2)"
        by (auto simp: run_transfer_def entry_of_def)
      then show ?thesis using moved_before [OF q M(1) [OF L(4)]] by simp
    next
      case True
      obtain now e3 where c: "clock_now en e2 = (now, e3)" by fastforce
      have q3: "quiet memory requests e2 e3" "requests e3 = requests e2" using L(7,8) [of e2] c by simp_all
      have "poll_transfer en batch (now + kTransferTimeout) (tr_key req) path e3 = Some (r, e')"
        using assms(2) a Some s c True by (simp add: run_transfer_def entry_of_def)
      from poll_transfer_bytes [OF laws this] M(2) [OF True poll_bytes_later [OF q3]] moved_before [OF q] show ?thesis by blast
    qed
  qed
qed

lemma mb_other_frame:
  assumes laws: "engine_bytes en memory requests" and "mb_other en s s'"
  shows "quiet memory requests (snd s) (snd s') \<and> mb_SelectPath (fst s') = mb_SelectPath (fst s)"
proof -
  have id: "quiet memory requests e e" for e by (simp add: quiet_def)
  have sel: "mb_SelectPath mb' = mb_SelectPath mb" if "mb_rdma_installed mb' = mb_rdma_installed mb" for mb mb'
    using that by (simp add: mb_SelectPath_def fun_eq_iff)
  from assms(2) show ?thesis
  proof cases
    case (registered a n g)
    obtain mb e where s: "s = (mb, e)" by fastforce
    obtain ok e1 where "registerLocalMemory en a n (PathToLocation (mb_config mb) g) e = (ok, e1)" by fastforce
    then show ?thesis using engine_bytesD(5) [OF laws, of e a n "PathToLocation (mb_config mb) g"]
      by (auto simp: registered s mb_RegisterBuffer_def Let_def intro: sel)
  next
    case (deregistered h)
    obtain mb e where s: "s = (mb, e)" by fastforce
    obtain ok e1 where "unregisterLocalMemory en (bh_addr h) e = (ok, e1)" by fastforce
    then show ?thesis using engine_bytesD(6) [OF laws, of e "bh_addr h"] id
      by (auto simp: deregistered s mb_DeregisterBuffer_def Let_def intro: sel)
  next
    case (waited mb e d)
    then show ?thesis using engine_bytesD(9) [OF laws] by simp
  qed
qed

text \<open>The backend provides the interface over every engine that moves bytes.\<close>

lemma mooncake_bytes:
  assumes laws: "engine_bytes en memory requests"
  shows "byte_transport (mb_submit en) (\<lambda>s. mb_SelectPath (fst s)) (mb_other en) (\<lambda>s. memory (snd s)) (\<lambda>s. touched (requests (snd s)))"
proof -
  have id: "moved_bytes memory requests x e (Inl code) e" for x e code by (rule moved_quiet) (simp add: quiet_def)
  have moved: "moved_bytes memory requests (entry_of (mb_segment (fst s)) req) (snd s) r (snd s') \<and> fst s' = fst s
      \<and> (\<forall>receipt. r = Inr receipt \<longrightarrow> rc_key receipt = tr_key req \<and> rc_path receipt = mb_SelectPath (fst s) req)"
    if "mb_submit en req s = Some (r, s')" for req s r s'
    using that run_transfer_bytes [OF laws] id by (auto simp: mb_submit_def mb_SubmitAsync_def Let_def split: if_splits)
  have t: "entry_target (entry_of seg req) = target_of req" "entry_source (entry_of seg req) = source_of req" for seg req
    by (simp_all add: entry_target_def entry_source_def entry_of_def)
  show ?thesis
  proof (unfold_locales, goal_cases)
    case (1 req s r s')
    from moved [OF this] show ?case by (simp add: moved_bytes_def t)
  next
    case (2 req s receipt s')
    let ?x = "entry_of (mb_segment (fst s)) req"
    from moved [OF 2(1)] have "touched (requests (snd s')) \<subseteq> touched (requests (snd s))"
      and "\<forall>k < en_length ?x. memory (snd s') (en_target_offset ?x + k) = memory (snd s) (en_source ?x + k)"
      using 2(3,4) unfolding moved_bytes_def t by blast+
    then show ?case by (auto simp: entry_of_def intro!: nth_equalityI)
  next
    case (3 req s receipt s')
    from moved [OF this] show ?case by simp
  next
    case (4 s s')
    from mb_other_frame [OF laws this] show ?case by (simp add: quiet_def touched_mono)
  next
    case (5 s req path)
    show ?case by (simp add: mb_SelectPath_def)
  qed
qed

section \<open>Properties\<close>

text \<open>C17. A block survives its way through the data path over the production backend, on any engine that moves bytes. Whatever
  callers, worker and engine do in between, transfers that time out and go on writing included: if an accepted transfer was
  answered with a receipt, its source range held the encoding of a block when the run began, its target is at least as long,
  and neither range meets the target of another accepted transfer, then the receipt names the transfer's key and the path
  selected when it was accepted, and the bytes at the target decode to the block.\<close>
theorem transferred_block_decodes:
  assumes "engine_bytes en memory requests" "requests e0 = Map.empty"
    and "(run_step (mb_submit en) (\<lambda>s. mb_SelectPath (fst s)) (mb_other en))\<^sup>*\<^sup>* (DataPath_init c, mb0, e0) (dp, mb, e)"
    and "(p, req) \<in> set (dp_accepted dp)" "(p, Inr receipt) \<in> set (dp_answers dp)"
    and "\<forall>(q, rq) \<in> set (dp_accepted dp). q \<noteq> p \<longrightarrow> target_of rq \<inter> (source_of req \<union> target_of req) = {}"
    and "source_of req \<inter> target_of req = {}" "bh_length (tr_src req) \<le> bh_length (tr_dst req)"
    and "wb_version b = kBlockSchemaVersion" "length (Serialize b) < 2 ^ 63"
    and "map (memory e0) [bh_addr (tr_src req)..<bh_addr (tr_src req) + bh_length (tr_src req)] = Serialize b"
  shows "rc_key receipt = tr_key req \<and> rc_path receipt = tr_preferred req
    \<and> Deserialize (map (memory e) [bh_addr (tr_dst req)..<bh_addr (tr_dst req) + bh_length (tr_src req)]) = Some (Inr b)"
proof -
  note D = byte_transport.receipt_delivers [OF mooncake_bytes [OF assms(1)] assms(3,4,5) _ assms(8,7)]
  have "touched (requests e0) = {}" by (simp add: assms(2) touched_def)
  with D assms(6) have "rc_key receipt = tr_key req \<and> rc_path receipt = tr_preferred req
    \<and> map (memory e) [bh_addr (tr_dst req)..<bh_addr (tr_dst req) + bh_length (tr_src req)] = Serialize b"
    using assms(11) by fastforce
  with Deserialize_Serialize [OF assms(9,10)] show ?thesis by simp
qed

text \<open>A memory with a byte string at an address, and an engine that copies when it is asked for the status.\<close>

definition memory_at :: "nat \<Rightarrow> u8 list \<Rightarrow> nat \<Rightarrow> u8" where
  "memory_at a bs x = (if a \<le> x \<and> x < a + length bs then bs ! (x - a) else 0)"

lemma memory_at_range: "map (memory_at a bs) [a..<a + length bs] = bs"
  by (rule nth_equalityI) (simp_all add: memory_at_def)

definition copied :: "transfer_entry \<Rightarrow> (nat \<Rightarrow> u8) \<Rightarrow> nat \<Rightarrow> u8" where
  "copied x mem y = (if y \<in> entry_target x then mem (en_source x + (y - en_target_offset x)) else mem y)"

definition copy_engine :: "(nat \<times> (nat \<Rightarrow> transfer_entry option) \<times> (nat \<Rightarrow> u8)) engine" where
  "copy_engine =
     \<lparr>createTransferEngine = (\<lambda>_ _ _ _ e. (True, e)), installTransport = (\<lambda>_ e. (True, e)), openSegment = (\<lambda>_ e. (0, e)),
      closeSegment = (\<lambda>_ e. e), destroyTransferEngine = (\<lambda>e. e), registerLocalMemory = (\<lambda>_ _ _ e. (True, e)),
      unregisterLocalMemory = (\<lambda>_ e. (True, e)), allocateBatchID = (\<lambda>(n, q, m). (Some n, n + 1, q, m)),
      submitTransfer = (\<lambda>b x (n, q, m). (True, n, q(b \<mapsto> x), m)),
      getTransferStatus = (\<lambda>b (n, q, m). case q b of
           None \<Rightarrow> (Some (STATUS_FAILED, 0), n, q, m)
         | Some x \<Rightarrow> (Some (STATUS_COMPLETED, en_length x), n, q(b := None), copied x m)),
      freeBatchID = (\<lambda>b (n, q, m). (True, n, q(b := None), m)), clock_now = (\<lambda>e. (0, e)), sleep_for = (\<lambda>_ e. e)\<rparr>"

lemma copy_engine_bytes: "engine_bytes copy_engine (snd \<circ> snd) (fst \<circ> snd)"
proof -
  have quiet: "quiet (snd \<circ> snd) (fst \<circ> snd) e (snd (freeBatchID copy_engine b e))" for b e
    by (cases e) (auto simp: quiet_def copy_engine_def map_le_def split: if_splits)
  have status: "status_bytes copy_engine (snd \<circ> snd) (fst \<circ> snd) b e" for b e
  proof -
    obtain n q m where e: "e = (n, q, m)" by (cases e) auto
    show ?thesis
    proof (cases "q b")
      case None
      then show ?thesis by (simp add: status_bytes_def copy_engine_def e quiet_def)
    next
      case (Some x)
      have "entry_target x \<subseteq> touched q" using Some by (auto simp: touched_def ran_def)
      then have "quiet (snd \<circ> snd) (fst \<circ> snd) e (n, q(b := None), copied x m)"
        by (auto simp: quiet_def e copied_def map_le_def)
      moreover have "copied x m (en_target_offset x + k) = copied x m (en_source x + k)"
        if "entry_source x \<inter> touched q = {}" "k < en_length x" for k
      proof -
        have "en_source x + k \<in> entry_source x" "en_target_offset x + k \<in> entry_target x"
          using that(2) by (simp_all add: entry_source_def entry_target_def)
        with that(1) \<open>entry_target x \<subseteq> touched q\<close> show ?thesis by (auto simp: copied_def)
      qed
      ultimately show ?thesis using Some by (simp add: status_bytes_def copy_engine_def e)
    qed
  qed
  show ?thesis unfolding engine_bytes_def
    using quiet status by (auto simp: quiet_def submit_bytes_def copy_engine_def)
qed

text \<open>One transfer of a block of 55 bytes from address 100 to address 300.\<close>

definition block_request :: "BufferHandle TransferRequest" where
  "block_request = \<lparr>tr_key = \<lparr>bk_hash_id = 7, bk_layer = 1, bk_version = 1\<rparr>,
     tr_src = \<lparr>bh_addr = 100, bh_length = 55, bh_reg_id = 1, bh_on_gpu = False\<rparr>,
     tr_dst = \<lparr>bh_addr = 300, bh_length = 64, bh_reg_id = 2, bh_on_gpu = False\<rparr>, tr_preferred = kRdma\<rparr>"

theorem transferred_block_decodes_witness:
  "\<exists>dp mb e. (run_step (mb_submit copy_engine) (\<lambda>s. mb_SelectPath (fst s)) (mb_other copy_engine))\<^sup>*\<^sup>*
       (DataPath_init 4, demo_backend, 0, Map.empty, memory_at 100 (Serialize demo_block)) (dp, mb, e)
     \<and> Deserialize (map (snd (snd e)) [300..<355]) = Some (Inr demo_block)"
proof -
  let ?step = "run_step (mb_submit copy_engine) (\<lambda>s. mb_SelectPath (fst s)) (mb_other copy_engine)"
  let ?m = "memory_at 100 (Serialize demo_block)"
  let ?s0 = "(demo_backend, 0 :: nat, Map.empty :: nat \<Rightarrow> transfer_entry option, ?m)"
  define receipt where "receipt = \<lparr>rc_key = tr_key block_request, rc_path = kRdma, rc_transferred_bytes = 55\<rparr>"
  define d0 :: "(BufferHandle, TransferReceipt) DataPath" where "d0 = DataPath_init 4"
  define d1 where "d1 = snd (TransferAsync (mb_SelectPath demo_backend) block_request d0)"
  define d2 where "d2 = worker_wake d1"
  define d3 where "d3 = worker_finish 0 (Inr receipt) d2"
  have path: "mb_SelectPath demo_backend block_request = kRdma" "block_request\<lparr>tr_preferred := kRdma\<rparr> = block_request"
    by (simp_all add: mb_SelectPath_def demo_backend_def block_request_def)
  have d: "dp_queue d1 = [(0, block_request)]" "dp_accepted d1 = [(0, block_request)]" "dp_worker d1 = Ready" "dp_answers d1 = []"
    "dp_worker d2 = Busy 0 block_request"
    by (simp_all add: d2_def d1_def d0_def DataPath_init_def TransferAsync_def worker_wake_def Let_def path)
  have l: "length (Serialize demo_block) = 55" by (simp add: Serialize_fields(1) demo_block_def kHeaderBytes_def)
  have "mb_SubmitAsync copy_engine block_request demo_backend (snd ?s0) = Some (Inr receipt, 1, Map.empty, copied (entry_of 0 block_request) ?m)"
    using poll_round(3) [of copy_engine "(1, [0 \<mapsto> entry_of 0 block_request], ?m)" "kTransferTimeout" 0]
    by (simp add: mb_SubmitAsync_def run_transfer_def demo_backend_def copy_engine_def receipt_def path kTransferTimeout_def
        block_request_def entry_of_def mb_SelectPath_def)
  then have sub: "mb_submit copy_engine block_request ?s0 = Some (Inr receipt, demo_backend, 1, Map.empty, copied (entry_of 0 block_request) ?m)"
    by (simp add: mb_submit_def)
  have "?step (d0, ?s0) (d1, ?s0)" unfolding d1_def using run_step.submitted [of _ "\<lambda>s. mb_SelectPath (fst s)" _ d0 ?s0 block_request] by simp
  moreover have "?step (d1, ?s0) (d2, ?s0)" unfolding d2_def using d by (intro run_step.woken) simp_all
  moreover have "?step (d2, ?s0) (d3, demo_backend, 1, Map.empty, copied (entry_of 0 block_request) ?m)"
    unfolding d3_def
    using run_step.finished [where submit = "mb_submit copy_engine" and select = "\<lambda>s. mb_SelectPath (fst s)" and other = "mb_other copy_engine", OF d(5) sub]
    by simp
  ultimately have run: "?step\<^sup>*\<^sup>* (DataPath_init 4, ?s0) (d3, demo_backend, 1, Map.empty, copied (entry_of 0 block_request) ?m)"
    unfolding d0_def by (meson rtranclp.rtrancl_into_rtrancl rtranclp.rtrancl_refl)
  have v: "wb_version demo_block = kBlockSchemaVersion" by (simp add: demo_block_def kBlockSchemaVersion_def)
  have b: "map (memory_at 100 (Serialize demo_block)) [100..<155] = Serialize demo_block" using memory_at_range [of 100 "Serialize demo_block"] l by simp
  have a: "dp_accepted d3 = [(0, block_request)]" "dp_answers d3 = [(0, Inr receipt)]"
    using d by (simp_all add: d3_def d2_def worker_finish_def worker_wake_def)
  from transferred_block_decodes [OF copy_engine_bytes _ run, of 0 block_request receipt demo_block] a v b l
  have "Deserialize (map (copied (entry_of 0 block_request) ?m) [300..<355]) = Some (Inr demo_block)"
    by (simp add: block_request_def)
  with run show ?thesis by (intro exI [of _ d3] exI [of _ demo_backend] exI conjI) (assumption, simp)
qed

end
