(* ===== verification/Spec2Isabelle.thy ===== *)
theory Spec2Isabelle
  imports Offloading_Spec Store_Replay Bench_Sessions Cluster_Scheduler Fair_Share Sharded_Store Object_Store Data_Transfer Report
begin

text \<open>
  A verification library for the tiered KV-cache storage project: its Python benchmark suite, its vLLM adapter
  and the C++ store, scheduler and data path below them.

  \<^bold>\<open>The program.\<close> A KV cache keeps blocks of attention state, named by content hashes, in a fast tier and slower
  ones. \<^verbatim>\<open>python/bench/policies.py\<close> has five eviction policies behind one interface; \<^verbatim>\<open>python/bench/tiered.py\<close> wires two
  of them into a two-tier simulator with prefetching along successor chains; \<^verbatim>\<open>python/bench/framework.py\<close> reads a
  trace, replays it against one pool or two tiers and reports percentiles, rates and throughput, with the
  provenance read by \<^verbatim>\<open>python/bench/provenance.py\<close>; \<^verbatim>\<open>python/bench/shootout.py\<close> compares the policies.
  \<^verbatim>\<open>python/vllm_adapter/offloading_spec.py\<close> plugs an S3-FIFO policy into vLLM, and
  \<^verbatim>\<open>python/vllm_adapter/connector.py\<close> stores and loads blocks through a tiered store. That store is
  \<^verbatim>\<open>src/storage/tiered_storage_manager.cpp\<close> behind \<^verbatim>\<open>src/bindings/bindings.cpp\<close>;
  \<^verbatim>\<open>python/bench/replay_cpp.py\<close> and \<^verbatim>\<open>python/bench/replay_multitenant.py\<close> replay traces through it.
  \<^verbatim>\<open>scripts/bench_online.py\<close> loads a serving endpoint with concurrent sessions that reuse prefixes. The connector
  announces what it stores to \<^verbatim>\<open>src/scheduler/scheduler.cpp\<close>, which routes requests, places blocks and shares
  capacity among tenants; \<^verbatim>\<open>src/datapath/data_path.cpp\<close> encodes blocks and queues their transfers to the backend
  \<^verbatim>\<open>src/adapter/mooncake_transfer_backend.cpp\<close> or its double \<^verbatim>\<open>src/adapter/fake_backend.h\<close>, and
  \<^verbatim>\<open>src/storage/sharded_tiered_store.h\<close> spreads keys over several stores.

  \<^bold>\<open>Foundations.\<close>
  \<^item> \<open>Prelude\<close>: exceptions as values of \<open>py_error\<close>, results as sums, slices; \<open>Program\<close>: statements over a state that may
    raise or not end, with \<open>runs\<close> as total correctness.
  \<^item> \<open>Ordered_Dict\<close>: Python's insertion-ordered dictionaries as association lists, with \<^verbatim>\<open>move_to_end\<close> and the
    \<^verbatim>\<open>popitem(last=False)\<close> loop.
  \<^item> \<open>Float64\<close>: binary64 as rationals with correct rounding \<open>fl\<close>, executable; the locale \<open>rounding\<close> has the laws the
    clients use (monotone, idempotent, exact on integers up to \<open>2 ^ 53\<close>). The exponent is unbounded; where the
    numbers of a caller can leave its range, the theory concerned adds what the code then does: the \<^verbatim>\<open>OverflowError\<close> of
    an integer that is too large in \<open>Framework\<close>, infinities and NaN in \<open>Fair_Share\<close>.
  \<^item> \<open>Py_Text\<close>: strings as lists of code points, with the white space, digit and line-break classes of Python and
    the regular expressions the code uses; \<open>Json\<close>: \<^verbatim>\<open>json.loads\<close>, whose nesting is bounded by the length of
    the text, with the round trip for rendered values.

  \<^bold>\<open>Policies and simulator.\<close>
  \<^item> \<open>Policy_Interface\<close>: the class \<^verbatim>\<open>CachePolicy\<close> as the locales \<open>tier_policy\<close> (what the tiers call), \<open>cache_policy\<close> (with
    \<^verbatim>\<open>access\<close>) and \<open>full_only_policy\<close> (evicts only when full). The callback \<^verbatim>\<open>on_evict\<close> is the list of keys an operation
    announces, and \<open>demote_all\<close> feeds it to the next tier.
  \<^item> \<open>LRU_Policy\<close>, \<open>Sieve_Policy\<close>, \<open>S3Fifo_Policy\<close>, \<open>Prefix_LRU_Policy\<close>: one record and one definition per method for each
    class, the interpretation of the interface, and what distinguishes the policy: LRU keeps the last distinct
    keys, SIEVE evicts an unvisited entry, S3-FIFO keeps its queues bounded and resists scans, the
    prefix-aware variants evict the deepest of the oldest blocks, or keep out exactly the deep blocks that are neither
    held nor remembered. The eviction loops have termination proofs.
  \<^item> \<open>Policies\<close>: the registry and factory, with the dispatch as one more interpretation.
  \<^item> \<open>Tiered\<close>: the simulator; its tiers stay exclusive and bounded, every block of a request is counted once.
  \<^item> \<open>Metrics\<close>, \<open>Framework\<close>: percentiles, rates and the two replays as instances of the locale \<open>replay_engine\<close>;
    \<open>Trace\<close>, \<open>Provenance\<close>, \<open>Report\<close>: the readers, the run from a configuration to a report and the comparison.
    A replay of records whose lengths have at most 270 digits returns; one output length from \<open>2 ^ 1024\<close> raises.

  \<^bold>\<open>Adapter and store.\<close>
  \<^item> \<open>Offloading_Spec\<close>: the vLLM policy; its invariant over every reachable state, the exact outcome of an eviction and
    the selection by the two specs. Keys, blocks and vLLM's own constructors are arguments.
  \<^item> \<open>Connector\<close>: \<^verbatim>\<open>store_kv\<close> and \<^verbatim>\<open>load_kv\<close> over the locales \<open>tiered_store\<close>, \<open>lossless_store\<close> (the in-memory store of the
    tests) and \<open>bounded_store\<close> (the C++ store).
  \<^item> \<open>Storage_Manager\<close>: the C++ store with 64-bit counters that wrap, S3-FIFO and LRU eviction, demotion, promotion,
    tenant quotas and prefetch; an operation runs under the mutex and is one step. \<open>Storage_Accounting\<close> has the
    invariant, \<open>Storage_Eviction\<close> that the eviction loops end and find victims, \<open>Storage_Safety\<close> that every public
    operation ends and keeps the capacities. \<open>Cpp_Store\<close>: the successor graph, the Python binding and the
    interpretation of \<open>bounded_store\<close>.
  \<^item> \<open>Store_Replay\<close>: the two replay drivers; they return, count every access, and tenants do not share blocks.

  \<^bold>\<open>Scheduler and data path.\<close>
  \<^item> \<open>Cluster_Scheduler\<close>: the cross-node index as an instance of the locale \<open>holder_index\<close>, so that it refines the relation
    between blocks and nodes; routing by the number of blocks held, placement below the high water marks, failover;
    the \<^verbatim>\<open>Scheduler\<close> class of the binding, with which the blocks the connector stored are found again by routing.
  \<^item> \<open>Fair_Share\<close>: the weighted fair sharing. The loop is a \<open>partial_function\<close>; for weights up to \<open>2 ^ 900\<close> it ends and
    shares out exactly the smaller of capacity and demand, although each share is computed in binary64. Larger weights
    may add up to infinity: then a share is the conversion of a NaN to an integer, which C++ leaves undefined, and
    the value of the model is \<open>None\<close>.
  \<^item> \<open>Sharded_Store\<close>: the stores behind one hash; the summed occupancy stays within the global capacities and a key
    is only in its own shard.
  \<^item> \<open>Block_Wire\<close>: the wire format over machine words, a bijection onto the accepted byte strings, except that the length
    check wraps. \<open>Object_Store\<close>: the object store interface as the locale \<open>object_store\<close>, in which the block put last is
    decoded again, and its in-memory instance.
  \<^item> \<open>Data_Path\<close>: the submission queue with its worker and its shutdown as \<open>dp_step\<close>, in which every promise is
    answered once and in order.
  \<^item> \<open>Registration_Guards\<close>: the guard over the methods of \<^verbatim>\<open>ITransferBackend\<close>; the locale \<open>registrar\<close> has the laws of a backend
    and shows that no sequence of moves loses or doubles a registration.
  \<^item> \<open>Transfer_Backend\<close>: the Mooncake backend and its double as the two instances of \<open>registrar\<close>. The functions of the engine
    are the record \<open>engine\<close>; \<open>logging\<close> adds to an engine the list of the calls it received, so that a theorem can say which
    calls were made: a transfer returns, with its batch released as the last call and exactly once, and each registration of
    a guard is one in the engine until the guard gives it up. \<^verbatim>\<open>freeBatchID\<close> may refuse a batch whose request is unfinished; the
    backend ignores that, so after a time-out the batch may stay. A refused \<^verbatim>\<open>unregisterLocalMemory\<close> leaves the memory registered.
  \<^item> \<open>Data_Transfer\<close>: the worker over a backend, \<open>run_step\<close>, a transfer being one step. The locale \<open>byte_transport\<close> has the bytes a
    backend moves; it holds of the double, and of the Mooncake backend over any engine with \<open>engine_bytes\<close>. There a block
    that was encoded into a registered buffer, queued, transferred and answered with a receipt is decoded again from the target,
    whatever else was submitted, registered or shut down meanwhile.

  \<^bold>\<open>Online benchmark.\<close>
  \<^item> \<open>Bench_Online\<close>: random texts, the ShareGPT sessions, the reading of a streamed completion, the report.
  \<^item> \<open>Bench_Sessions\<close>: sessions and scanners as tasks over one semaphore. \<open>bench_step\<close> is one stretch of code between two
    \<^verbatim>\<open>await\<close>s, in any order the event loop may choose; the run ends within a bound on its steps, never gets stuck,
    respects the semaphore, and the prompts of a session extend each other.

  \<^bold>\<open>Bounds.\<close> Capacities of the C++ store, numbers of samples and numbers of requests are at most \<open>2 ^ 53\<close> where a proof goes
  through a double, hash ids of a tenant below \<open>2 ^ 48\<close>; the ghost queue of the store holds 8192 keys and the
  successor graph 65536 edges, as in the code. Fair sharing is exact while capacity plus one times tenants plus three
  is at most \<open>2 ^ 53\<close>, which keeps the rounding errors of a round below one byte, and no weight is above \<open>2 ^ 900\<close>; a transfer
  polls at most 600000 times, every 50 microseconds for 30 seconds; byte strings on the wire are shorter
  than \<open>2 ^ 63\<close>, the range of \<^verbatim>\<open>ptrdiff_t\<close>. No function of the model has fuel except the JSON reader, whose
  fuel is the length of its text and is proved sufficient for rendered values.

  \<^bold>\<open>Parameters.\<close> Files, lock file, platform versions, the pseudo-random generator (an index below its bound, and a next
  state), HTTP replies with the clock at each line, hashes of keys, what the transfer engine does and what vLLM
  provides are arguments of the definitions.

  \<^bold>\<open>Not modelled.\<close> Console output and \<^verbatim>\<open>argparse\<close> are input and output; the values printed and the parsed arguments are
  modelled. The Mooncake transfer engine and the other vendored sources are third-party: the functions of the engine the
  backend calls are arguments, with what its documentation says as hypotheses: \<open>engine_laws\<close> (batches, unfinished requests and
  the clock), \<open>engine_memory\<close> (registered addresses) and \<open>engine_bytes\<close> (who writes where). \<^verbatim>\<open>reserve\<close> of a vector, whose only
  effect is on memory, and the fields of \<^verbatim>\<open>KVCacheBlock\<close> that the store does not read are left out. Names of
  enumeration values for log texts, texts of exceptions and of statuses are left out, except the key an error of a
  transfer names. In the online benchmark cancellation after the first exception is not modelled: the run ends with
  that exception.
\<close>

end
